(* ===== verification/Kernel_Prelude.thy ===== *)
theory Kernel_Prelude
  imports Main "HOL-Library.Word"
begin

text \<open>
  Shared ground of the development: the outcome type of a kernel routine, its
  sequencing operator with the rules the simplifier needs, and the lemmas on
  lists and maps that several components use.

  A routine of the kernel either returns or stops.  It stops when a
  \<^verbatim>\<open>KASSERT\<close> fails, when it dereferences a null pointer, when it
  calls \<^verbatim>\<open>panic\<close>, when it indexes an array out of range, when it
  splices an intrusive list into itself, when it goes to sleep in the middle of
  its work, or when it never comes back.  Each of these is a constructor of
  \<open>fault\<close>, and \<open>Inl\<close> of it is the outcome of the
  routine; \<open>Inr\<close> carries what the routine returns together with the
  new state.
\<close>

section \<open>Outcomes\<close>

type_synonym u32 = "32 word"
type_synonym ptr = nat

datatype fault =
    KASSERT_failed
  | Null_deref
  | Panicked
  | Out_of_bounds
  | List_corrupted
  | Must_sleep
  | Never_returns

type_synonym 'a res = "fault + 'a"

definition bindE :: "'a res \<Rightarrow> ('a \<Rightarrow> 'b res) \<Rightarrow> 'b res" where
  "bindE r k = (case r of Inl e \<Rightarrow> Inl e | Inr x \<Rightarrow> k x)"

lemma bindE_Inl [simp]: "bindE (Inl e) k = Inl e"
  by (simp add: bindE_def)

lemma bindE_Inr [simp]: "bindE (Inr x) k = k x"
  by (simp add: bindE_def)

lemma bindE_eq_Inr_conv: "bindE r k = Inr y \<longleftrightarrow> (\<exists>x. r = Inr x \<and> k x = Inr y)"
  by (cases r) auto

lemma bindE_assoc: "bindE (bindE r k) l = bindE r (\<lambda>x. bindE (k x) l)"
  by (cases r) auto

lemma bindE_Inr_right [simp]: "bindE r Inr = r"
  by (cases r) auto

lemma bindE_InrE:
  assumes "bindE r k = Inr y"
  obtains x where "r = Inr x" and "k x = Inr y"
  using assms by (auto simp: bindE_eq_Inr_conv)

text \<open>Reading a pointer: a null or freed cell stops the routine.\<close>

definition deref :: "'a option \<Rightarrow> 'a res" where
  "deref x = (case x of None \<Rightarrow> Inl Null_deref | Some y \<Rightarrow> Inr y)"

lemma deref_simps [simp]:
  "deref None = Inl Null_deref"
  "deref (Some y) = Inr y"
  by (simp_all add: deref_def)

lemma deref_eq_Inr [simp]: "deref x = Inr y \<longleftrightarrow> x = Some y"
  by (cases x) auto

text \<open>
  The collections below are filled by the components: \<open>kdefs\<close> holds
  the definitions of small accessors that proofs unfold routinely,
  \<open>kframe\<close> the equations that say which part of the state an operation
  leaves alone.
\<close>

named_theorems kdefs
named_theorems kframe

section \<open>Lists\<close>

lemma butlast_last_snoc: "xs \<noteq> [] \<Longrightarrow> butlast xs @ [last xs] = xs"
  by simp

lemma rev_butlast: "rev (butlast xs) = tl (rev xs)"
  by (induction xs rule: rev_induct) auto

lemma set_butlast_distinct:
  "distinct xs \<Longrightarrow> xs \<noteq> [] \<Longrightarrow> set (butlast xs) = set xs - {last xs}"
  by (induction xs rule: rev_induct) auto

lemma last_notin_butlast: "distinct xs \<Longrightarrow> xs \<noteq> [] \<Longrightarrow> last xs \<notin> set (butlast xs)"
  by (simp add: set_butlast_distinct)

lemma length_remove1_in: "x \<in> set xs \<Longrightarrow> length (remove1 x xs) = length xs - 1"
  by (simp add: length_remove1)

lemma int_length_remove1_in [simp]:
  assumes "x \<in> set xs"
  shows "int (length (remove1 x xs)) = int (length xs) - 1"
proof -
  from assms obtain n where "length xs = Suc n" by (cases xs) auto
  with assms show ?thesis by (simp add: length_remove1)
qed

lemma distinct_remove1_rev: "distinct xs \<Longrightarrow> rev (remove1 x xs) = remove1 x (rev xs)"
  by (simp add: distinct_remove1_removeAll rev_filter removeAll_filter_not_eq)

section \<open>Words\<close>

lemma u32_diff_le_iff:
  fixes a b c :: u32
  assumes "b \<le> a"
  shows "c \<le> a - b \<longleftrightarrow> unat c + unat b \<le> unat a"
  using assms by (simp add: word_le_nat_alt unat_sub le_diff_conv2)

lemma u32_sub_le:
  fixes a c :: u32
  assumes "c \<le> a"
  shows "a - c \<le> a"
  using assms by (simp add: word_le_nat_alt unat_sub)

lemma u32_add_no_wrap:
  fixes a b :: u32
  assumes "unat a + unat b < 2 ^ 32"
  shows "unat (a + b) = unat a + unat b"
  using assms by (simp add: unat_word_ariths)

lemma sint_small:
  assumes "unat (w :: u32) < 2 ^ 31"
  shows "sint w = int (unat w)"
proof -
  have "int (unat w) < int (2 ^ 31)" using assms by (simp only: of_nat_less_iff)
  then have "uint w < 2 ^ 31" by simp
  moreover have "- (2 ^ 31) \<le> uint w" by (rule order_trans [OF _ uint_ge_0]) simp
  ultimately have "signed_take_bit 31 (uint w) = uint w" by (intro signed_take_bit_int_eq_self)
  then show ?thesis by (simp add: sint_uint)
qed

text \<open>The value of a sum of C integers, which wraps at 32 bits.\<close>

definition int32 :: "int \<Rightarrow> int" where
  "int32 x = sint (word_of_int x :: u32)"

lemma int32_eq: "int32 x = signed_take_bit 31 x"
  unfolding int32_def by transfer simp

lemma int32_id: "- (2 ^ 31) \<le> x \<Longrightarrow> x < 2 ^ 31 \<Longrightarrow> int32 x = x"
  by (simp add: int32_eq signed_take_bit_int_eq_self)

lemma int32_less: "int32 x < 2 ^ 31"
  using signed_take_bit_int_less_exp [of 31 x] by (simp add: int32_eq)

end
