(* ===== verification/Kernel_State.thy ===== *)
theory Kernel_State
  imports Kernel_Prelude
begin

text \<open>
  The data of the kernel: the structures of its headers with the fields the
  sources under \<^verbatim>\<open>kernel/\<close> read and write, the global state, and the
  parameters that stand for code outside the repository.

  A pointer is a natural number and every kind of object has its own store, a
  map from pointers to objects; \<open>None\<close> is a null or freed cell.  The
  intrusive lists of \<^verbatim>\<open>util/list.h\<close> are HOL lists of pointers, head
  first: inserting at the head is \<open>#\<close>, at the tail is appending, and
  the link field of an object records which list holds it.
\<close>

section \<open>Threads and queues\<close>

datatype kthread_state =
    KT_NO_STATE
  | KT_RUN
  | KT_SLEEP
  | KT_SLEEP_CANCELLABLE
  | KT_EXITED

text \<open>
  A thread queue is identified by where it lives: the run queue of
  \<^verbatim>\<open>sched.c\<close>, the wait queue of a mutex, of a process
  (\<^verbatim>\<open>p_wait\<close>), of a page frame, of the pageout daemon, or of a device.
\<close>

datatype qid =
    Runq
  | Mutexq ptr
  | Waitq ptr
  | Pfq ptr
  | Allocq
  | Pageoutq
  | Devq nat

record ktqueue =
  tq_list :: "ptr list"
  tq_size :: int

text \<open>
  The saved context of a thread: instruction and stack pointer, kernel stack and
  page directory.  The registers that user mode left on entry to the kernel
  are kept apart; \<open>r_other\<close> are those the code only copies.
\<close>

record kcontext =
  c_eip :: u32
  c_esp :: u32
  c_kstack :: u32
  c_kstacksz :: u32
  c_pdptr :: "ptr option"

record regs =
  r_eax :: u32
  r_edx :: u32
  r_other :: "u32 list"

definition zero_context :: kcontext where
  "zero_context = \<lparr>c_eip = 0, c_esp = 0, c_kstack = 0, c_kstacksz = 0, c_pdptr = None\<rparr>"

record kthread =
  kt_kstack :: "ptr option"
  kt_retval :: int
  kt_errno :: int
  kt_proc :: "ptr option"
  kt_cancelled :: int
  kt_wchan :: "qid option"
  kt_state :: kthread_state
  kt_qlink :: "qid option"
  kt_plink :: "ptr option"
  kt_ipl :: "8 word option"
  kt_ctx :: kcontext

section \<open>Processes\<close>

datatype proc_state = PROC_RUNNING | PROC_DEAD

record proc =
  p_pid :: int
  p_comm :: string
  p_threads :: "ptr list"
  p_children :: "ptr list"
  p_pproc :: "ptr option"
  p_status :: int
  p_state :: proc_state
  p_pagedir :: "ptr option"
  p_files :: "ptr option list"
  p_cwd :: "ptr option"
  p_brk :: u32
  p_start_brk :: u32
  p_vmmap :: "ptr option"

section \<open>Address spaces\<close>

text \<open>
  \<open>vma_olink\<close> is the memory object whose list of areas
  (\<^verbatim>\<open>mmo_vmas\<close>) holds the area through its \<^verbatim>\<open>vma_olink\<close>
  link, \<open>None\<close> when the link is not in a list.  Whether the link
  \<^verbatim>\<open>vma_plink\<close> is in a list is read off \<open>vmm_list\<close>.
\<close>

record vmarea =
  vma_start :: u32
  vma_end :: u32
  vma_off :: u32
  vma_prot :: u32
  vma_flags :: u32
  vma_vmmap :: "ptr option"
  vma_obj :: "ptr option"
  vma_olink :: "ptr option"

record vmmap =
  vmm_list :: "ptr list"
  vmm_proc :: "ptr option"

section \<open>Memory objects and page frames\<close>

text \<open>
  \<open>mmo_ops\<close> tells which operation table an object has: the one of
  \<^verbatim>\<open>anon.c\<close>, the one of \<^verbatim>\<open>shadow.c\<close>, or one that belongs
  to a vnode or a block device, whose code is not in the repository.  The
  union \<^verbatim>\<open>mmo_un\<close> is two fields, the list of areas of a bottom object
  and the bottom object of a shadow object.  \<open>pf_data\<close> is the memory at
  \<open>pf_addr\<close>, the page that belongs to the frame.
\<close>

datatype mmobj_ops = Anon_ops | Shadow_ops | Other_ops

record mmobj =
  mmo_ops :: mmobj_ops
  mmo_refcount :: int
  mmo_nrespages :: int
  mmo_respages :: "ptr list"
  mmo_shadowed :: "ptr option"
  mmo_bottom :: "ptr option"
  mmo_vmas :: "ptr list"

type_synonym page = "u32 \<Rightarrow> 8 word"

record pframe =
  pf_obj :: "ptr option"
  pf_pagenum :: u32
  pf_busy :: bool
  pf_dirty :: bool
  pf_pincount :: int
  pf_addr :: ptr
  pf_data :: page

record pte =
  pte_frame :: ptr
  pte_pdflags :: u32
  pte_ptflags :: u32

section \<open>Files and vnodes\<close>

text \<open>
  Open files and vnodes, with the fields the code reads or writes.  The
  operation table of a vnode is the one of its file system or one of the two
  tables of \<^verbatim>\<open>vn_special.c\<close>.
\<close>

record ofile =
  f_pos :: int
  f_mode :: u32
  f_refcount :: int
  f_vnode :: "ptr option"

datatype vn_ops_table = Fs_ops | Bytedev_spec_vops | Blockdev_spec_vops

record vnode =
  vn_ops :: "vn_ops_table option"
  vn_mode :: u32
  vn_len :: int
  vn_refcount :: int
  vn_devid :: u32
  vn_cdev :: "ptr option"
  vn_bdev :: "ptr option"

section \<open>The global state\<close>

text \<open>
  \<open>kmem_ptr\<close> and \<open>kmem_regs\<close> are the pointers and register
  structures that \<^verbatim>\<open>fork\<close> writes to the kernel stack of a new thread.
\<close>

record kstate =
  threads :: "ptr \<Rightarrow> kthread option"
  queues :: "qid \<Rightarrow> ktqueue"
  curthr :: "ptr option"
  curproc :: "ptr option"
  ipl :: "8 word"
  intr_on :: bool
  km_holder :: "ptr \<Rightarrow> ptr option"
  procs :: "ptr \<Rightarrow> proc option"
  proc_list :: "ptr list"
  next_pid :: int
  proc_initproc :: "ptr option"
  vmmaps :: "ptr \<Rightarrow> vmmap option"
  vmareas :: "ptr \<Rightarrow> vmarea option"
  mmobjs :: "ptr \<Rightarrow> mmobj option"
  pframes :: "ptr \<Rightarrow> pframe option"
  alloc_list :: "ptr list"
  pinned_list :: "ptr list"
  nallocated :: int
  npinned :: int
  pframe_hash :: "nat \<Rightarrow> ptr list"
  pagetabs :: "ptr \<Rightarrow> u32 \<Rightarrow> pte option"
  files :: "ptr \<Rightarrow> ofile option"
  vnodes :: "ptr \<Rightarrow> vnode option"
  vfs_root_vn :: "ptr option"
  kmem_ptr :: "u32 \<Rightarrow> u32 option"
  kmem_regs :: "u32 \<Rightarrow> regs option"

definition empty_queue :: ktqueue where
  "empty_queue = \<lparr>tq_list = [], tq_size = 0\<rparr>"

text \<open>The state before the boot code has created anything; concrete examples start from it.\<close>

definition blank_state :: kstate where
  "blank_state = \<lparr>threads = Map.empty, queues = (\<lambda>_. empty_queue), curthr = None,
     curproc = None, ipl = 0, intr_on = False, km_holder = Map.empty, procs = Map.empty,
     proc_list = [], next_pid = 0, proc_initproc = None, vmmaps = Map.empty, vmareas = Map.empty,
     mmobjs = Map.empty, pframes = Map.empty, alloc_list = [], pinned_list = [],
     nallocated = 0, npinned = 0, pframe_hash = (\<lambda>_. []), pagetabs = (\<lambda>_ _. None),
     files = Map.empty, vnodes = Map.empty, vfs_root_vn = None, kmem_ptr = Map.empty, kmem_regs = Map.empty\<rparr>"

section \<open>Parameters: constants and macros of the absent headers\<close>

datatype errno =
    EPERM | ENOENT | EINTR | EBADF | ECHILD | ENOMEM | EFAULT | EEXIST | ENODEV
  | ENOTDIR | EISDIR | EINVAL | EMFILE | ENAMETOOLONG | ENOTEMPTY | ENOSYS | ENXIO

text \<open>
  The headers under \<^verbatim>\<open>kernel/include\<close> are not part of the repository, so
  the numbers and macros they define are fields of a record that every
  definition using them takes as its argument \<open>K\<close>.
\<close>

record kconsts =
  errno :: "errno \<Rightarrow> int"
  IPL_LOW :: "8 word"
  IPL_HIGH :: "8 word"
  PID_IDLE :: int
  PID_INIT :: int
  PROC_MAX_COUNT :: int
  NFILES :: nat
  MAX_FILES :: int
  PF_HASH_SIZE :: nat
  PAGE_SIZE :: u32
  ADDR_TO_PN :: "u32 \<Rightarrow> u32"
  PN_TO_ADDR :: "u32 \<Rightarrow> u32"
  PAGE_OFFSET :: "u32 \<Rightarrow> u32"
  PAGE_ALIGNED :: "u32 \<Rightarrow> bool"
  PAGE_ALIGN_DOWN :: "u32 \<Rightarrow> u32"
  USER_MEM_LOW :: u32
  USER_MEM_HIGH :: u32
  MAP_SHARED :: u32
  MAP_PRIVATE :: u32
  MAP_FIXED :: u32
  MAP_ANON :: u32
  PROT_READ :: u32
  PROT_WRITE :: u32
  PROT_EXEC :: u32
  FAULT_WRITE :: u32
  MAP_TYPE :: u32
  VMMAP_DIR_LOHI :: int
  VMMAP_DIR_HILO :: int
  PD_PRESENT :: u32
  PD_WRITE :: u32
  PD_USER :: u32
  PT_PRESENT :: u32
  PT_WRITE :: u32
  PT_USER :: u32
  NAME_LEN :: nat
  O_RDONLY :: u32
  O_WRONLY :: u32
  O_RDWR :: u32
  O_CREAT :: u32
  O_APPEND :: u32
  FMODE_READ :: u32
  FMODE_WRITE :: u32
  FMODE_APPEND :: u32
  SEEK_SET :: int
  SEEK_CUR :: int
  SEEK_END :: int
  S_ISDIR :: "u32 \<Rightarrow> bool"
  S_ISCHR :: "u32 \<Rightarrow> bool"
  S_ISBLK :: "u32 \<Rightarrow> bool"
  S_ISREG :: "u32 \<Rightarrow> bool"
  sizeof_dirent :: int
  DEFAULT_STACK_SIZE :: u32
  sizeof_regs :: u32
  userland_entry :: u32
  name_match :: "string \<Rightarrow> string \<Rightarrow> nat \<Rightarrow> bool"

text \<open>A concrete choice of the constants for a 32-bit machine with 4096-byte pages; examples use it.\<close>

fun i386_errno :: "errno \<Rightarrow> int" where
  "i386_errno EPERM = 1" | "i386_errno ENOENT = 2" | "i386_errno EINTR = 4" | "i386_errno EBADF = 9"
| "i386_errno ECHILD = 10" | "i386_errno ENOMEM = 12" | "i386_errno EFAULT = 14" | "i386_errno EEXIST = 17"
| "i386_errno ENODEV = 19" | "i386_errno ENOTDIR = 20" | "i386_errno EISDIR = 21" | "i386_errno EINVAL = 22"
| "i386_errno EMFILE = 24" | "i386_errno ENAMETOOLONG = 36" | "i386_errno ENOTEMPTY = 39"
| "i386_errno ENOSYS = 38" | "i386_errno ENXIO = 6"

definition i386 :: kconsts where
  "i386 = \<lparr>errno = i386_errno, IPL_LOW = 0, IPL_HIGH = 255, PID_IDLE = 0, PID_INIT = 1,
     PROC_MAX_COUNT = 65536, NFILES = 32, MAX_FILES = 1024, PF_HASH_SIZE = 17, PAGE_SIZE = 4096,
     ADDR_TO_PN = (\<lambda>a. drop_bit 12 a), PN_TO_ADDR = (\<lambda>n. push_bit 12 n), PAGE_OFFSET = (\<lambda>a. take_bit 12 a),
     PAGE_ALIGNED = (\<lambda>a. take_bit 12 a = 0), PAGE_ALIGN_DOWN = (\<lambda>a. push_bit 12 (drop_bit 12 a)),
     USER_MEM_LOW = 0x400000, USER_MEM_HIGH = 0xc0000000,
     MAP_SHARED = 1, MAP_PRIVATE = 2, MAP_FIXED = 4, MAP_ANON = 8,
     PROT_READ = 1, PROT_WRITE = 2, PROT_EXEC = 4, FAULT_WRITE = 2,
     MAP_TYPE = 3, VMMAP_DIR_LOHI = 1, VMMAP_DIR_HILO = 2,
     PD_PRESENT = 1, PD_WRITE = 2, PD_USER = 4, PT_PRESENT = 1, PT_WRITE = 2, PT_USER = 4,
     NAME_LEN = 28, O_RDONLY = 0, O_WRONLY = 1, O_RDWR = 2, O_CREAT = 0x100, O_APPEND = 0x400,
     FMODE_READ = 1, FMODE_WRITE = 2, FMODE_APPEND = 4, SEEK_SET = 0, SEEK_CUR = 1, SEEK_END = 2,
     S_ISDIR = (\<lambda>m. m = 2), S_ISCHR = (\<lambda>m. m = 1), S_ISBLK = (\<lambda>m. m = 4), S_ISREG = (\<lambda>m. m = 8),
     sizeof_dirent = 40, DEFAULT_STACK_SIZE = 0xe000, sizeof_regs = 76, userland_entry = 0xc0100000,
     name_match = (\<lambda>f n l. length f = l \<and> take l n = f)\<rparr>"


lemma i386_user: "ADDR_TO_PN i386 (USER_MEM_LOW i386) = 0x400" "ADDR_TO_PN i386 (USER_MEM_HIGH i386) = 0xc0000"
  by (simp_all add: i386_def)

section \<open>Parameters: routines outside the repository\<close>

text \<open>
  The slab and page allocators, the page tables and the operations of the
  memory objects that belong to files are not part of the repository either.
  They are fields of a second record, the argument \<open>X\<close>.  An allocator
  looks at the state and gives the address of a new object, or \<open>None\<close>
  where it returns a null pointer; \<open>page_alloc\<close> also gives the bytes that
  the new page happens to hold.  The TLB is not part of the state, so the
  calls that flush it do nothing.
\<close>

record kext =
  vmmap_slab :: "kstate \<Rightarrow> ptr option"
  vmarea_slab :: "kstate \<Rightarrow> ptr option"
  anon_slab :: "kstate \<Rightarrow> ptr option"
  shadow_slab :: "kstate \<Rightarrow> ptr option"
  pframe_slab :: "kstate \<Rightarrow> ptr option"
  page_alloc :: "kstate \<Rightarrow> (ptr \<times> page) option"
  page_free_count :: "kstate \<Rightarrow> u32"
  mmobj_init :: "mmobj_ops \<Rightarrow> mmobj"
  mmobj_bottom_obj :: "kstate \<Rightarrow> ptr \<Rightarrow> ptr res"
  o_ref :: "ptr \<Rightarrow> kstate \<Rightarrow> kstate res"
  o_put :: "ptr \<Rightarrow> kstate \<Rightarrow> kstate res"
  o_lookuppage :: "ptr \<Rightarrow> u32 \<Rightarrow> bool \<Rightarrow> kstate \<Rightarrow> (int \<times> ptr option \<times> kstate) res"
  o_fillpage :: "ptr \<Rightarrow> ptr \<Rightarrow> kstate \<Rightarrow> (int \<times> kstate) res"
  o_dirtypage :: "ptr \<Rightarrow> ptr \<Rightarrow> kstate \<Rightarrow> (int \<times> kstate) res"
  o_cleanpage :: "ptr \<Rightarrow> ptr \<Rightarrow> kstate \<Rightarrow> (int \<times> kstate) res"
  vn_mmap :: "ptr \<Rightarrow> ptr \<Rightarrow> kstate \<Rightarrow> (int \<times> ptr option \<times> kstate) res"
  pt_map :: "ptr option \<Rightarrow> u32 \<Rightarrow> ptr \<Rightarrow> u32 \<Rightarrow> u32 \<Rightarrow> kstate \<Rightarrow> kstate"
  pt_unmap :: "ptr option \<Rightarrow> u32 \<Rightarrow> kstate \<Rightarrow> kstate"
  pt_unmap_range :: "ptr option \<Rightarrow> u32 \<Rightarrow> u32 \<Rightarrow> kstate \<Rightarrow> kstate"

text \<open>
  The third record, the argument \<open>E\<close>, holds the routines that the process
  and file system code calls and the repository does not have: allocators for
  processes, threads and kernel stacks, page directories, contexts, the file
  and vnode reference counts of \<^verbatim>\<open>fs/file.c\<close> and \<^verbatim>\<open>fs/vnode.c\<close>,
  the operations of the file systems, and the byte devices.  An operation of a
  vnode that is \<open>None\<close> is a null entry of its table.
  \<open>kmalloc_ok\<close> tells whether an allocation succeeds, and
  \<open>kmalloc_slack\<close> is what the allocated cell holds behind the bytes asked
  for.
\<close>

type_synonym bytes = "u32 \<Rightarrow> 8 word"
type_synonym vop_name = "string \<Rightarrow> kstate \<Rightarrow> (int \<times> kstate) res"
type_synonym vop_node = "string \<Rightarrow> kstate \<Rightarrow> (int \<times> ptr option \<times> kstate) res"

record kenv =
  proc_slab :: "kstate \<Rightarrow> ptr option"
  kthread_slab :: "kstate \<Rightarrow> ptr option"
  page_alloc_n :: "kstate \<Rightarrow> ptr option"
  pt_create_pagedir :: "kstate \<Rightarrow> ptr option \<times> kstate"
  pt_destroy_pagedir :: "ptr option \<Rightarrow> kstate \<Rightarrow> kstate"
  pt_virt_to_phys :: "ptr \<Rightarrow> ptr"
  context_setup :: "u32 \<Rightarrow> int \<Rightarrow> u32 \<Rightarrow> ptr option \<Rightarrow> u32 \<Rightarrow> ptr option \<Rightarrow> kcontext"
  fget :: "int \<Rightarrow> kstate \<Rightarrow> (ptr option \<times> kstate) res"
  fput :: "ptr \<Rightarrow> kstate \<Rightarrow> kstate res"
  fref :: "ptr \<Rightarrow> kstate \<Rightarrow> kstate res"
  vref :: "ptr \<Rightarrow> kstate \<Rightarrow> kstate res"
  vput :: "ptr \<Rightarrow> kstate \<Rightarrow> kstate res"
  vget_root :: "ptr \<Rightarrow> kstate \<Rightarrow> kstate res"
  fs_lookup :: "ptr \<Rightarrow> vop_node option"
  fs_create :: "ptr \<Rightarrow> vop_node option"
  fs_mknod :: "ptr \<Rightarrow> (string \<Rightarrow> u32 \<Rightarrow> u32 \<Rightarrow> kstate \<Rightarrow> (int \<times> kstate) res) option"
  fs_link :: "ptr \<Rightarrow> (ptr \<Rightarrow> string \<Rightarrow> kstate \<Rightarrow> (int \<times> kstate) res) option"
  fs_unlink :: "ptr \<Rightarrow> vop_name option"
  fs_mkdir :: "ptr \<Rightarrow> vop_name option"
  fs_rmdir :: "ptr \<Rightarrow> vop_name option"
  fs_readdir :: "ptr \<Rightarrow> (int \<Rightarrow> kstate \<Rightarrow> (int \<times> bytes \<times> kstate) res) option"
  fs_stat :: "ptr \<Rightarrow> (kstate \<Rightarrow> (int \<times> bytes \<times> kstate) res) option"
  fs_read :: "ptr \<Rightarrow> (int \<Rightarrow> u32 \<Rightarrow> kstate \<Rightarrow> (int \<times> bytes \<times> kstate) res) option"
  fs_write :: "ptr \<Rightarrow> (int \<Rightarrow> bytes \<Rightarrow> u32 \<Rightarrow> kstate \<Rightarrow> (int \<times> kstate) res) option"
  fs_root_stat :: "ptr \<Rightarrow> (kstate \<Rightarrow> (int \<times> bytes \<times> kstate) res) option"
  bytedev_lookup :: "u32 \<Rightarrow> ptr option"
  blockdev_lookup :: "u32 \<Rightarrow> ptr option"
  cd_read :: "ptr \<Rightarrow> (int \<Rightarrow> int \<Rightarrow> kstate \<Rightarrow> (int \<times> bytes \<times> kstate) res) option"
  cd_write :: "ptr \<Rightarrow> (int \<Rightarrow> bytes \<Rightarrow> int \<Rightarrow> kstate \<Rightarrow> (int \<times> kstate) res) option"
  cd_mmap :: "ptr \<Rightarrow> (ptr \<Rightarrow> ptr \<Rightarrow> kstate \<Rightarrow> (int \<times> ptr option \<times> kstate) res) option"
  kmalloc_ok :: "nat \<Rightarrow> kstate \<Rightarrow> bool"
  kmalloc_slack :: "nat \<Rightarrow> string"

end
