(* ===== verification/Ktqueue.thy ===== *)
theory Ktqueue
  imports Kernel_State
begin

text \<open>
  The thread queues of \<^verbatim>\<open>kernel/proc/sched.c\<close>: insertion, removal and the
  membership test on a \<^verbatim>\<open>ktqueue_t\<close>, the invariant that ties the lists to
  the \<^verbatim>\<open>kt_wchan\<close> fields of the threads, and the FIFO contract that the
  scheduler and the mutexes rely on, as the locale \<open>thread_queue\<close>.
\<close>

section \<open>Operations\<close>

text \<open>
  \<^verbatim>\<open>list_insert_head\<close> and \<^verbatim>\<open>list_insert_tail\<close> splice the thread's
  own link; a link that is still in a list would tear that list.
\<close>

definition ktqueue_enqueue :: "qid \<Rightarrow> ptr \<Rightarrow> kstate \<Rightarrow> kstate res" where
  "ktqueue_enqueue q t s =
     bindE (deref (threads s t)) (\<lambda>thr.
       if kt_wchan thr \<noteq> None then Inl KASSERT_failed
       else if kt_qlink thr \<noteq> None then Inl List_corrupted
       else Inr (s\<lparr>queues := (queues s)(q := \<lparr>tq_list = t # tq_list (queues s q),
                                            tq_size = tq_size (queues s q) + 1\<rparr>),
                   threads := (threads s)(t \<mapsto> thr\<lparr>kt_qlink := Some q, kt_wchan := Some q\<rparr>)\<rparr>))"

definition ktqueue_dequeue :: "qid \<Rightarrow> kstate \<Rightarrow> (ptr option \<times> kstate) res" where
  "ktqueue_dequeue q s =
     (if tq_list (queues s q) = [] then Inr (None, s)
      else let t = last (tq_list (queues s q)) in
        bindE (deref (threads s t)) (\<lambda>thr.
          Inr (Some t,
               s\<lparr>queues := (queues s)(q := \<lparr>tq_list = butlast (tq_list (queues s q)),
                                          tq_size = tq_size (queues s q) - 1\<rparr>),
                 threads := (threads s)(t \<mapsto> thr\<lparr>kt_qlink := None, kt_wchan := None\<rparr>)\<rparr>)))"

text \<open>
  \<^verbatim>\<open>list_remove\<close> takes the link out of the list it is in, whatever queue the
  caller names; the caller's queue only has its size decremented.
\<close>

definition ktqueue_remove :: "qid \<Rightarrow> ptr \<Rightarrow> kstate \<Rightarrow> kstate res" where
  "ktqueue_remove q t s =
     bindE (deref (threads s t)) (\<lambda>thr.
       case kt_qlink thr of
         None \<Rightarrow> Inl KASSERT_failed
       | Some l \<Rightarrow>
           let qs = (queues s)(l := (queues s l)\<lparr>tq_list := remove1 t (tq_list (queues s l))\<rparr>)
           in Inr (s\<lparr>queues := qs(q := (qs q)\<lparr>tq_size := tq_size (qs q) - 1\<rparr>),
                     threads := (threads s)(t \<mapsto> thr\<lparr>kt_qlink := None, kt_wchan := None\<rparr>)\<rparr>))"

text \<open>
  The loop of \<^verbatim>\<open>ktqueue_contains\<close> counts to the size of the queue but never
  advances \<^verbatim>\<open>link\<close>: every round compares the same, first, element.
\<close>

fun contains_loop :: "nat \<Rightarrow> ptr \<Rightarrow> ptr \<Rightarrow> int" where
  "contains_loop 0 link t = 0"
| "contains_loop (Suc n) link t = (if t = link then 1 else contains_loop n link t)"

definition ktqueue_contains :: "qid \<Rightarrow> ptr \<Rightarrow> kstate \<Rightarrow> int" where
  "ktqueue_contains q t s =
     (case tq_list (queues s q) of
        [] \<Rightarrow> 0
      | link # _ \<Rightarrow> contains_loop (nat (tq_size (queues s q))) link t)"

definition ktqueue_skipqueue :: "qid \<Rightarrow> ptr \<Rightarrow> kstate \<Rightarrow> kstate res" where
  "ktqueue_skipqueue q t s =
     bindE (deref (threads s t)) (\<lambda>thr.
       if kt_wchan thr \<noteq> None then Inl KASSERT_failed
       else if kt_qlink thr \<noteq> None then Inl List_corrupted
       else Inr (s\<lparr>queues := (queues s)(q := \<lparr>tq_list = tq_list (queues s q) @ [t],
                                            tq_size = tq_size (queues s q) + 1\<rparr>),
                   threads := (threads s)(t \<mapsto> thr\<lparr>kt_qlink := Some q, kt_wchan := Some q\<rparr>)\<rparr>))"

definition sched_queue_init :: "qid \<Rightarrow> kstate \<Rightarrow> kstate" where
  "sched_queue_init q s = s\<lparr>queues := (queues s)(q := empty_queue)\<rparr>"

definition sched_queue_empty :: "qid \<Rightarrow> kstate \<Rightarrow> bool" where
  "sched_queue_empty q s \<longleftrightarrow> tq_list (queues s q) = []"

section \<open>The queue invariant\<close>

text \<open>Threads in the order in which they arrived: the tail of the list leaves first.\<close>

definition waiting :: "qid \<Rightarrow> kstate \<Rightarrow> ptr list" where
  "waiting q s = rev (tq_list (queues s q))"

definition idle_thread :: "ptr \<Rightarrow> kstate \<Rightarrow> bool" where
  "idle_thread t s \<longleftrightarrow> (\<exists>thr. threads s t = Some thr \<and> kt_wchan thr = None)"

definition queue_inv :: "kstate \<Rightarrow> bool" where
  "queue_inv s \<longleftrightarrow>
     (\<forall>q. distinct (tq_list (queues s q)) \<and>
          tq_size (queues s q) = int (length (tq_list (queues s q)))) \<and>
     (\<forall>q t. t \<in> set (tq_list (queues s q)) \<longleftrightarrow>
            (\<exists>thr. threads s t = Some thr \<and> kt_wchan thr = Some q)) \<and>
     (\<forall>t thr. threads s t = Some thr \<longrightarrow> kt_qlink thr = kt_wchan thr)"

lemma queue_inv_distinct: "queue_inv s \<Longrightarrow> distinct (tq_list (queues s q))"
  by (simp add: queue_inv_def)

lemma queue_inv_size: "queue_inv s \<Longrightarrow> tq_size (queues s q) = int (length (tq_list (queues s q)))"
  by (simp add: queue_inv_def)

lemma queue_inv_mem:
  "queue_inv s \<Longrightarrow>
   t \<in> set (tq_list (queues s q)) \<longleftrightarrow> (\<exists>thr. threads s t = Some thr \<and> kt_wchan thr = Some q)"
  by (simp add: queue_inv_def)

lemma queue_inv_qlink: "queue_inv s \<Longrightarrow> threads s t = Some thr \<Longrightarrow> kt_qlink thr = kt_wchan thr"
  by (simp add: queue_inv_def)

text \<open>A thread update that keeps both links keeps the invariant.\<close>

lemma queue_inv_upd_thread:
  assumes "queue_inv s" and "threads s t = Some thr"
    and "kt_wchan thr' = kt_wchan thr" and "kt_qlink thr' = kt_qlink thr"
  shows "queue_inv (s\<lparr>threads := (threads s)(t \<mapsto> thr')\<rparr>)"
  using assms by (auto simp: queue_inv_def)

lemma ktqueue_enqueue_idle:
  assumes "queue_inv s" and "threads s t = Some thr" and "kt_wchan thr = None"
  shows "ktqueue_enqueue q t s =
     Inr (s\<lparr>queues := (queues s)(q := \<lparr>tq_list = t # tq_list (queues s q),
                                      tq_size = tq_size (queues s q) + 1\<rparr>),
            threads := (threads s)(t \<mapsto> thr\<lparr>kt_qlink := Some q, kt_wchan := Some q\<rparr>)\<rparr>)"
  using assms queue_inv_qlink [of s t thr] by (simp add: ktqueue_enqueue_def)

lemma queue_inv_link:
  assumes inv: "queue_inv s" and t: "threads s t = Some thr" "kt_wchan thr = None"
    and ls: "set ls = insert t (set (tq_list (queues s q)))" "distinct ls"
    and n: "length ls = Suc (length (tq_list (queues s q)))"
  shows "queue_inv (s\<lparr>queues := (queues s)(q := \<lparr>tq_list = ls, tq_size = tq_size (queues s q) + 1\<rparr>),
            threads := (threads s)(t \<mapsto> thr\<lparr>kt_qlink := Some q, kt_wchan := Some q\<rparr>)\<rparr>)"
    (is "queue_inv ?s'")
  unfolding queue_inv_def
proof (intro conjI allI)
  fix q' t'
  show "(t' \<in> set (tq_list (queues ?s' q'))) =
        (\<exists>thra. threads ?s' t' = Some thra \<and> kt_wchan thra = Some q')"
    using queue_inv_mem [OF inv] t ls by auto
qed (use assms queue_inv_distinct [OF inv] queue_inv_size [OF inv] queue_inv_qlink [OF inv] in auto)

lemma queue_inv_unlink:
  assumes inv: "queue_inv s" and t: "threads s t = Some thr" "kt_wchan thr = Some q"
    and ls: "set ls = set (tq_list (queues s q)) - {t}" "distinct ls"
    and n: "int (length ls) = int (length (tq_list (queues s q))) - 1"
  shows "queue_inv (s\<lparr>queues := (queues s)(q := \<lparr>tq_list = ls, tq_size = tq_size (queues s q) - 1\<rparr>),
            threads := (threads s)(t \<mapsto> thr\<lparr>kt_qlink := None, kt_wchan := None\<rparr>)\<rparr>)"
    (is "queue_inv ?s'")
  unfolding queue_inv_def
proof (intro conjI allI)
  fix q' t'
  show "(t' \<in> set (tq_list (queues ?s' q'))) =
        (\<exists>thra. threads ?s' t' = Some thra \<and> kt_wchan thra = Some q')"
    using queue_inv_mem [OF inv] t ls by auto
qed (use assms queue_inv_distinct [OF inv] queue_inv_size [OF inv] queue_inv_qlink [OF inv] in auto)


lemma ktqueue_enqueue_inv:
  assumes inv: "queue_inv s" and t: "threads s t = Some thr" "kt_wchan thr = None"
    and enq: "ktqueue_enqueue q t s = Inr s'"
  shows "queue_inv s'"
proof -
  have new: "t \<notin> set (tq_list (queues s q))"
    using queue_inv_mem [OF inv] t by simp
  have "s' = s\<lparr>queues := (queues s)(q := \<lparr>tq_list = t # tq_list (queues s q),
                                      tq_size = tq_size (queues s q) + 1\<rparr>),
            threads := (threads s)(t \<mapsto> thr\<lparr>kt_qlink := Some q, kt_wchan := Some q\<rparr>)\<rparr>"
    using enq ktqueue_enqueue_idle [OF inv t] by simp
  moreover have "queue_inv \<dots>"
    by (rule queue_inv_link [OF inv t]) (use new queue_inv_distinct [OF inv] in auto)
  ultimately show ?thesis by simp
qed

lemma ktqueue_dequeue_last:
  assumes inv: "queue_inv s" and ne: "tq_list (queues s q) \<noteq> []"
    and t: "t = last (tq_list (queues s q))"
  obtains thr where "threads s t = Some thr" and "kt_wchan thr = Some q"
    and "ktqueue_dequeue q s = Inr (Some t,
           s\<lparr>queues := (queues s)(q := \<lparr>tq_list = butlast (tq_list (queues s q)),
                                      tq_size = tq_size (queues s q) - 1\<rparr>),
             threads := (threads s)(t \<mapsto> thr\<lparr>kt_qlink := None, kt_wchan := None\<rparr>)\<rparr>)"
proof -
  have "t \<in> set (tq_list (queues s q))" using ne t by simp
  then obtain thr where "threads s t = Some thr" "kt_wchan thr = Some q"
    using queue_inv_mem [OF inv] by blast
  then show thesis
    using that ne t by (simp add: ktqueue_dequeue_def Let_def)
qed

lemma ktqueue_dequeue_inv:
  assumes inv: "queue_inv s" and deq: "ktqueue_dequeue q s = Inr (r, s')"
  shows "queue_inv s'"
proof (cases "tq_list (queues s q) = []")
  case True
  with inv deq show ?thesis by (simp add: ktqueue_dequeue_def)
next
  case False
  define t where "t = last (tq_list (queues s q))"
  obtain thr where thr: "threads s t = Some thr" "kt_wchan thr = Some q"
    and eq: "ktqueue_dequeue q s = Inr (Some t,
           s\<lparr>queues := (queues s)(q := \<lparr>tq_list = butlast (tq_list (queues s q)),
                                      tq_size = tq_size (queues s q) - 1\<rparr>),
             threads := (threads s)(t \<mapsto> thr\<lparr>kt_qlink := None, kt_wchan := None\<rparr>)\<rparr>)"
    using ktqueue_dequeue_last [OF inv False t_def] by blast
  have "int (length (butlast (tq_list (queues s q)))) = int (length (tq_list (queues s q))) - 1"
    using False by (cases "tq_list (queues s q)") auto
  moreover have "set (butlast (tq_list (queues s q))) = set (tq_list (queues s q)) - {t}"
    using set_butlast_distinct [OF queue_inv_distinct [OF inv] False] t_def by simp
  ultimately show ?thesis
    using queue_inv_unlink [OF inv thr] deq eq distinct_butlast [OF queue_inv_distinct [OF inv]]
    by auto
qed

lemma ktqueue_upd_all: "(k :: ktqueue)\<lparr>tq_list := l, tq_size := n\<rparr> = \<lparr>tq_list = l, tq_size = n\<rparr>"
  by (cases k) simp

lemma ktqueue_remove_linked:
  assumes inv: "queue_inv s" and t: "threads s t = Some thr" "kt_wchan thr = Some q"
  shows "ktqueue_remove q t s =
     Inr (s\<lparr>queues := (queues s)(q := \<lparr>tq_list = remove1 t (tq_list (queues s q)),
                                      tq_size = tq_size (queues s q) - 1\<rparr>),
            threads := (threads s)(t \<mapsto> thr\<lparr>kt_qlink := None, kt_wchan := None\<rparr>)\<rparr>)"
  using t queue_inv_qlink [OF inv t(1)] by (simp add: ktqueue_remove_def Let_def ktqueue_upd_all)

lemma ktqueue_remove_inv:
  assumes inv: "queue_inv s" and t: "threads s t = Some thr" "kt_wchan thr = Some q"
    and rm: "ktqueue_remove q t s = Inr s'"
  shows "queue_inv s'"
proof -
  have mem: "t \<in> set (tq_list (queues s q))"
    using queue_inv_mem [OF inv] t by blast
  then have "int (length (remove1 t (tq_list (queues s q)))) = int (length (tq_list (queues s q))) - 1"
    by simp
  then show ?thesis
    using queue_inv_unlink [OF inv t, of "remove1 t (tq_list (queues s q))"]
      rm ktqueue_remove_linked [OF inv t] queue_inv_distinct [OF inv]
    by (simp add: set_remove1_eq)
qed

section \<open>The FIFO contract\<close>

text \<open>
  What the clients of a thread queue may assume: enqueueing an idle thread
  appends it to the arrival order of that queue and touches no other queue,
  dequeueing takes the thread that arrived first and leaves it idle.  The
  consequence that the clients want, proved once from the contract, is that
  threads leave in the order in which they came.
\<close>

fun enq_all :: "('q \<Rightarrow> 't \<Rightarrow> 's \<Rightarrow> 's res) \<Rightarrow> 'q \<Rightarrow> 't list \<Rightarrow> 's \<Rightarrow> 's res" where
  "enq_all enq q [] s = Inr s"
| "enq_all enq q (t # ts) s = bindE (enq q t s) (\<lambda>s'. enq_all enq q ts s')"

fun deq_all :: "('q \<Rightarrow> 's \<Rightarrow> ('t option \<times> 's) res) \<Rightarrow> 'q \<Rightarrow> nat \<Rightarrow> 's \<Rightarrow> ('t option list \<times> 's) res" where
  "deq_all deq q 0 s = Inr ([], s)"
| "deq_all deq q (Suc n) s =
     bindE (deq q s) (\<lambda>(t, s'). bindE (deq_all deq q n s') (\<lambda>(ts, s''). Inr (t # ts, s'')))"

locale thread_queue =
  fixes enq :: "'q \<Rightarrow> 't \<Rightarrow> 's \<Rightarrow> 's res"
    and deq :: "'q \<Rightarrow> 's \<Rightarrow> ('t option \<times> 's) res"
    and arrived :: "'q \<Rightarrow> 's \<Rightarrow> 't list"
    and idle :: "'t \<Rightarrow> 's \<Rightarrow> bool"
    and inv :: "'s \<Rightarrow> bool"
  assumes enq_idle: "inv s \<Longrightarrow> idle t s \<Longrightarrow>
      \<exists>s'. enq q t s = Inr s' \<and> inv s' \<and> arrived q s' = arrived q s @ [t] \<and>
           (\<forall>r. r \<noteq> q \<longrightarrow> arrived r s' = arrived r s) \<and> (\<forall>u. u \<noteq> t \<longrightarrow> idle u s' = idle u s)"
    and deq_empty: "inv s \<Longrightarrow> arrived q s = [] \<Longrightarrow> deq q s = Inr (None, s)"
    and deq_first: "inv s \<Longrightarrow> arrived q s = t # ts \<Longrightarrow>
      \<exists>s'. deq q s = Inr (Some t, s') \<and> inv s' \<and> arrived q s' = ts \<and> idle t s' \<and>
           (\<forall>r. r \<noteq> q \<longrightarrow> arrived r s' = arrived r s) \<and> (\<forall>u. u \<noteq> t \<longrightarrow> idle u s' = idle u s)"
begin

lemma enq_all_arrived:
  assumes "inv s" and "distinct ts" and "\<forall>t\<in>set ts. idle t s"
  shows "\<exists>s'. enq_all enq q ts s = Inr s' \<and> inv s' \<and> arrived q s' = arrived q s @ ts"
  using assms
proof (induction ts arbitrary: s)
  case Nil
  then show ?case by simp
next
  case (Cons t ts)
  then obtain s1 where s1: "enq q t s = Inr s1" "inv s1" "arrived q s1 = arrived q s @ [t]"
      "\<forall>u. u \<noteq> t \<longrightarrow> idle u s1 = idle u s"
    using enq_idle [of s t q] by auto
  with Cons.prems have "\<forall>u\<in>set ts. idle u s1" by auto
  with s1 Cons.IH [of s1] Cons.prems show ?case by auto
qed

lemma deq_all_arrived:
  assumes "inv s" and "arrived q s = ts @ us"
  shows "\<exists>s'. deq_all deq q (length ts) s = Inr (map Some ts, s') \<and> inv s' \<and> arrived q s' = us"
  using assms
proof (induction ts arbitrary: s)
  case Nil
  then show ?case by simp
next
  case (Cons t ts)
  then obtain s1 where "deq q s = Inr (Some t, s1)" "inv s1" "arrived q s1 = ts @ us"
    using deq_first [of s q t "ts @ us"] by auto
  with Cons.IH [of s1] show ?case by auto
qed

lemma first_come_first_served:
  assumes "inv s" and "arrived q s = us" and "distinct ts" and "\<forall>t\<in>set ts. idle t s"
  shows "\<exists>s1 s2. enq_all enq q ts s = Inr s1 \<and>
           deq_all deq q (length us + length ts) s1 = Inr (map Some (us @ ts), s2) \<and>
           inv s2 \<and> arrived q s2 = []"
proof -
  obtain s1 where "enq_all enq q ts s = Inr s1" "inv s1" "arrived q s1 = (us @ ts) @ []"
    using enq_all_arrived [OF assms(1,3,4), of q] assms(2) by auto
  then show ?thesis using deq_all_arrived [of s1 q "us @ ts" "[]"] by auto
qed

end

interpretation ktq: thread_queue ktqueue_enqueue ktqueue_dequeue waiting idle_thread queue_inv
proof unfold_locales
  fix s t q
  assume inv: "queue_inv s" and idle: "idle_thread t s"
  from idle obtain thr where thr: "threads s t = Some thr" "kt_wchan thr = None"
    by (auto simp: idle_thread_def)
  note eq = ktqueue_enqueue_idle [OF inv thr, of q]
  from ktqueue_enqueue_inv [OF inv thr eq] eq
  show "\<exists>s'. ktqueue_enqueue q t s = Inr s' \<and> queue_inv s' \<and> waiting q s' = waiting q s @ [t] \<and>
        (\<forall>r. r \<noteq> q \<longrightarrow> waiting r s' = waiting r s) \<and> (\<forall>u. u \<noteq> t \<longrightarrow> idle_thread u s' = idle_thread u s)"
    by (auto simp: waiting_def idle_thread_def)
next
  fix s q
  assume "queue_inv s" "waiting q s = []"
  then show "ktqueue_dequeue q s = Inr (None, s)"
    by (simp add: waiting_def ktqueue_dequeue_def)
next
  fix s q t ts
  assume inv: "queue_inv s" and w: "waiting q s = t # ts"
  from w have ne: "tq_list (queues s q) \<noteq> []" and t: "t = last (tq_list (queues s q))"
    and ts: "rev (butlast (tq_list (queues s q))) = ts"
    by (auto simp: waiting_def rev_butlast hd_rev [symmetric])
  obtain thr where thr: "threads s t = Some thr" "kt_wchan thr = Some q"
    and eq: "ktqueue_dequeue q s = Inr (Some t,
           s\<lparr>queues := (queues s)(q := \<lparr>tq_list = butlast (tq_list (queues s q)),
                                      tq_size = tq_size (queues s q) - 1\<rparr>),
             threads := (threads s)(t \<mapsto> thr\<lparr>kt_qlink := None, kt_wchan := None\<rparr>)\<rparr>)"
    using ktqueue_dequeue_last [OF inv ne t] by blast
  from ktqueue_dequeue_inv [OF inv eq] eq ts
  show "\<exists>s'. ktqueue_dequeue q s = Inr (Some t, s') \<and> queue_inv s' \<and> waiting q s' = ts \<and>
        idle_thread t s' \<and> (\<forall>r. r \<noteq> q \<longrightarrow> waiting r s' = waiting r s) \<and>
        (\<forall>u. u \<noteq> t \<longrightarrow> idle_thread u s' = idle_thread u s)"
    by (auto simp: waiting_def idle_thread_def)
qed

section \<open>Properties\<close>

text \<open>C19: a thread queue is first-in first-out.  Threads that are on no queue can be put on one, one
  after the other, and dequeueing as often as there are threads gives those that were already there,
  in their order, and then the new ones in the order of their arrival, leaving the queue empty.\<close>

theorem ktqueue_fifo:
  assumes "queue_inv s" and "distinct ts" and "\<forall>t\<in>set ts. idle_thread t s"
  shows "\<exists>s1 s2. enq_all ktqueue_enqueue q ts s = Inr s1 \<and>
    deq_all ktqueue_dequeue q (length (waiting q s) + length ts) s1 = Inr (map Some (waiting q s @ ts), s2) \<and>
    queue_inv s2 \<and> waiting q s2 = []"
  by (rule ktq.first_come_first_served [OF assms(1) refl assms(2,3)])

definition two_idle :: kstate where
  "two_idle = blank_state\<lparr>threads := (\<lambda>_. None)(
     1 \<mapsto> \<lparr>kt_kstack = None, kt_retval = 0, kt_errno = 0, kt_proc = None, kt_cancelled = 0, kt_wchan = None,
           kt_state = KT_NO_STATE, kt_qlink = None, kt_plink = None, kt_ipl = None, kt_ctx = zero_context\<rparr>,
     2 \<mapsto> \<lparr>kt_kstack = None, kt_retval = 0, kt_errno = 0, kt_proc = None, kt_cancelled = 0, kt_wchan = None,
           kt_state = KT_NO_STATE, kt_qlink = None, kt_plink = None, kt_ipl = None, kt_ctx = zero_context\<rparr>)\<rparr>"

lemma two_idle_inv: "queue_inv two_idle" "\<forall>t\<in>set [1, 2]. idle_thread t two_idle" "waiting q two_idle = []"
  by (simp_all add: two_idle_def blank_state_def empty_queue_def queue_inv_def idle_thread_def waiting_def)

theorem ktqueue_fifo_witness:
  "\<exists>s1 s2. enq_all ktqueue_enqueue Runq [1, 2] two_idle = Inr s1 \<and>
     deq_all ktqueue_dequeue Runq 2 s1 = Inr ([Some 1, Some 2], s2)"
  using ktqueue_fifo [OF two_idle_inv(1) _ two_idle_inv(2), of Runq]
  by (auto simp: two_idle_inv(3) numeral_2_eq_2)

lemma contains_loop_head: "contains_loop n link t = (if 0 < n \<and> t = link then 1 else 0)"
  by (induction n) simp_all

text \<open>C23: \<^verbatim>\<open>ktqueue_contains\<close> recognises the head of the queue and nothing else: the loop
  compares the same link in every round, so it answers no for every other thread in the queue.\<close>

theorem ktqueue_contains_head:
  assumes "queue_inv s"
  shows "ktqueue_contains q t s =
    (if tq_list (queues s q) \<noteq> [] \<and> t = hd (tq_list (queues s q)) then 1 else 0)"
  using queue_inv_size [OF assms, of q]
  by (cases "tq_list (queues s q)") (simp_all add: ktqueue_contains_def contains_loop_head)

definition queued_pair :: kstate where
  "queued_pair = two_idle\<lparr>
     threads := map_option (\<lambda>x. x\<lparr>kt_wchan := Some Runq, kt_qlink := Some Runq\<rparr>) \<circ> threads two_idle,
     queues := (queues two_idle)(Runq := \<lparr>tq_list = [2, 1], tq_size = 2\<rparr>)\<rparr>"

theorem ktqueue_contains_head_witness:
  "1 \<in> set (tq_list (queues queued_pair Runq)) \<and> ktqueue_contains Runq 1 queued_pair = 0 \<and>
   ktqueue_contains Runq 2 queued_pair = 1"
proof -
  have "queue_inv queued_pair"
    by (auto simp: queued_pair_def two_idle_def blank_state_def empty_queue_def queue_inv_def split: if_splits)
  from ktqueue_contains_head [OF this, of Runq] show ?thesis by (simp add: queued_pair_def)
qed

end
