(* ===== verification/Sched.thy ===== *)
theory Sched
  imports Ktqueue
begin

text \<open>
  The scheduler: \<^verbatim>\<open>kernel/proc/sched.c\<close> and
  \<^verbatim>\<open>kernel/proc/sched_helper.c\<close>.

  The kernel is not preemptive, so a routine runs alone until it calls
  \<^verbatim>\<open>sched_switch\<close>.  The model of \<^verbatim>\<open>sched_switch\<close> ends where
  the context switch has happened: its result is the state in which the chosen
  thread goes on.  A routine that sleeps is therefore cut at the switch, and
  what the sleeper does when it is resumed is a definition of its own.  The
  local variable \<^verbatim>\<open>curr_ipl\<close>, which waits on the stack of a switched-out
  thread, is the field \<open>kt_ipl\<close> of that thread.

  While the run queue is empty, \<^verbatim>\<open>sched_switch\<close> waits for interrupts; the
  handlers belong to the drivers, which are not in the repository, so the
  interrupts that arrive are a parameter: a list of levels and of the handlers'
  effects on the state.  An interrupt gets through only when its level is above
  the interrupt level of the processor.
\<close>

section \<open>Operations\<close>

type_synonym interrupt = "8 word \<times> (kstate \<Rightarrow> kstate)"

definition intr_setipl :: "8 word \<Rightarrow> kstate \<Rightarrow> kstate" where
  "intr_setipl i s = s\<lparr>ipl := i\<rparr>"

definition intr_disable :: "kstate \<Rightarrow> kstate" where
  "intr_disable s = s\<lparr>intr_on := False\<rparr>"

definition intr_enable :: "kstate \<Rightarrow> kstate" where
  "intr_enable s = s\<lparr>intr_on := True\<rparr>"

definition upd_thread :: "ptr \<Rightarrow> (kthread \<Rightarrow> kthread) \<Rightarrow> kstate \<Rightarrow> kstate" where
  "upd_thread t f s = s\<lparr>threads := (threads s)(t := map_option f (threads s t))\<rparr>"

definition sched_make_runnable :: "kconsts \<Rightarrow> ptr \<Rightarrow> kstate \<Rightarrow> kstate res" where
  "sched_make_runnable K t s =
     bindE (deref (threads s t)) (\<lambda>thr.
       if kt_wchan thr = Some Runq then Inl KASSERT_failed
       else let curr_ipl = ipl s in
         bindE (ktqueue_enqueue Runq t
                  (upd_thread t (\<lambda>x. x\<lparr>kt_state := KT_RUN\<rparr>) (intr_setipl (IPL_HIGH K) s)))
           (\<lambda>s'. Inr (intr_setipl curr_ipl s')))"

definition sched_wakeup_on :: "kconsts \<Rightarrow> qid \<Rightarrow> kstate \<Rightarrow> (ptr option \<times> kstate) res" where
  "sched_wakeup_on K q s =
     bindE (ktqueue_dequeue q s) (\<lambda>(r, s1).
       case r of
         None \<Rightarrow> Inr (None, s1)
       | Some t \<Rightarrow>
           bindE (deref (threads s1 t)) (\<lambda>thr.
             if \<not> (kt_state thr = KT_SLEEP \<or> kt_state thr = KT_SLEEP_CANCELLABLE)
             then Inl KASSERT_failed
             else bindE (sched_make_runnable K t s1) (\<lambda>s2. Inr (Some t, s2))))"

text \<open>
  \<^verbatim>\<open>while (sched_wakeup_on(q) != NULL);\<close> with fuel for one round per thread
  in the queue and one for the round that finds it empty.
\<close>

fun broadcast_loop :: "nat \<Rightarrow> kconsts \<Rightarrow> qid \<Rightarrow> kstate \<Rightarrow> kstate res" where
  "broadcast_loop 0 K q s = Inl Never_returns"
| "broadcast_loop (Suc n) K q s =
     bindE (sched_wakeup_on K q s) (\<lambda>(r, s'). if r \<noteq> None then broadcast_loop n K q s' else Inr s')"

definition sched_broadcast_on :: "kconsts \<Rightarrow> qid \<Rightarrow> kstate \<Rightarrow> kstate res" where
  "sched_broadcast_on K q s = broadcast_loop (Suc (length (tq_list (queues s q)))) K q s"

text \<open>
  \<^verbatim>\<open>intr_wait\<close> lets interrupts in and halts until one arrives.  An interrupt
  that the interrupt level masks does not wake the processor.
\<close>

fun intr_wait :: "interrupt list \<Rightarrow> kstate \<Rightarrow> (interrupt list \<times> kstate) res" where
  "intr_wait [] s = Inl Never_returns"
| "intr_wait ((level, h) # irqs) s =
     (if ipl s < level then Inr (irqs, h (intr_enable s)) else intr_wait irqs s)"

lemma intr_wait_arrived:
  assumes "intr_wait irqs s = Inr (irqs', s')"
  shows "\<exists>pre level h. irqs = pre @ (level, h) # irqs' \<and> ipl s < level \<and> s' = h (intr_enable s)"
  using assms
proof (induction irqs s rule: intr_wait.induct)
  case (2 level h irqs s)
  show ?case
  proof (cases "ipl s < level")
    case True
    with 2(2) show ?thesis by (intro exI [of _ "[]"] exI [of _ level] exI [of _ h]) simp
  next
    case False
    with 2 obtain pre l g where "irqs = pre @ (l, g) # irqs'" "ipl s < l" "s' = g (intr_enable s)" by auto
    then show ?thesis by (intro exI [of _ "(level, h) # pre"] exI [of _ l] exI [of _ g]) simp
  qed
qed simp

text \<open>The loop of \<^verbatim>\<open>sched_switch\<close> that waits until a thread is runnable.\<close>

function await_runnable :: "kconsts \<Rightarrow> interrupt list \<Rightarrow> kstate \<Rightarrow> kstate res" where
  "await_runnable K irqs s =
     (if sched_queue_empty Runq s then
        (case intr_wait irqs (intr_setipl (IPL_LOW K) (intr_disable s)) of
           Inl e \<Rightarrow> Inl e
         | Inr (irqs', s1) \<Rightarrow> await_runnable K irqs' (intr_setipl (IPL_HIGH K) s1))
      else Inr s)"
  by pat_completeness auto
termination
  by (relation "measure (\<lambda>(K, irqs, s). length irqs)") (auto dest!: intr_wait_arrived)

declare await_runnable.simps [simp del]

definition context_switch :: "8 word \<Rightarrow> ptr \<Rightarrow> ptr \<Rightarrow> kstate \<Rightarrow> kstate" where
  "context_switch curr_ipl prev t s =
     (let s' = upd_thread prev (\<lambda>x. x\<lparr>kt_ipl := Some curr_ipl\<rparr>) s
      in case threads s' t of
           Some x \<Rightarrow> (case kt_ipl x of Some i \<Rightarrow> intr_setipl i s' | None \<Rightarrow> s')
         | None \<Rightarrow> s')"

definition sched_switch :: "kconsts \<Rightarrow> interrupt list \<Rightarrow> kstate \<Rightarrow> kstate res" where
  "sched_switch K irqs s =
     (let curr_ipl = ipl s in
      bindE (await_runnable K irqs (intr_setipl (IPL_HIGH K) s)) (\<lambda>s1.
      bindE (ktqueue_dequeue Runq s1) (\<lambda>(thread_runq_top, s2).
      bindE (deref thread_runq_top) (\<lambda>t.
      bindE (deref (threads s2 t)) (\<lambda>thr.
      bindE (deref (curthr s2)) (\<lambda>previous_thread.
        Inr (context_switch curr_ipl previous_thread t
               (s2\<lparr>curproc := kt_proc thr, curthr := Some t\<rparr>))))))))"

definition sched_sleep_on :: "kconsts \<Rightarrow> interrupt list \<Rightarrow> qid \<Rightarrow> kstate \<Rightarrow> kstate res" where
  "sched_sleep_on K irqs q s =
     bindE (deref (curthr s)) (\<lambda>t.
     bindE (ktqueue_enqueue q t (upd_thread t (\<lambda>x. x\<lparr>kt_state := KT_SLEEP\<rparr>) s)) (\<lambda>s'.
       sched_switch K irqs s'))"

text \<open>
  \<open>Some r\<close> when \<^verbatim>\<open>sched_cancellable_sleep_on\<close> returns \<open>r\<close>
  at once, \<open>None\<close> when the caller has gone to sleep and the state is the
  one of the next thread; \<open>sched_cancellable_resume\<close> is what is left to
  do when the sleeper is current again.
\<close>

definition sched_cancellable_sleep_on ::
  "kconsts \<Rightarrow> interrupt list \<Rightarrow> qid \<Rightarrow> kstate \<Rightarrow> (int option \<times> kstate) res" where
  "sched_cancellable_sleep_on K irqs q s =
     (let s0 = intr_disable s in
      bindE (deref (curthr s0)) (\<lambda>t.
      bindE (deref (threads s0 t)) (\<lambda>thr.
        if kt_cancelled thr = 1 then Inr (Some (- errno K EINTR), intr_enable s0)
        else bindE (ktqueue_enqueue q t s0) (\<lambda>s1.
             bindE (sched_switch K irqs
                      (intr_enable (upd_thread t (\<lambda>x. x\<lparr>kt_state := KT_SLEEP_CANCELLABLE\<rparr>) s1)))
               (\<lambda>s2. Inr (None, s2))))))"

definition sched_cancellable_resume :: "kconsts \<Rightarrow> kstate \<Rightarrow> int res" where
  "sched_cancellable_resume K s =
     bindE (deref (curthr s)) (\<lambda>t.
     bindE (deref (threads s t)) (\<lambda>thr.
       Inr (if kt_cancelled thr = 1 then - errno K EINTR else 0)))"

definition sched_cancel :: "kconsts \<Rightarrow> ptr \<Rightarrow> kstate \<Rightarrow> kstate res" where
  "sched_cancel K t s =
     (let s0 = intr_disable s in
      bindE (deref (threads s0 t)) (\<lambda>thr.
        if kt_state thr = KT_SLEEP_CANCELLABLE then
          let s1 = upd_thread t (\<lambda>x. x\<lparr>kt_cancelled := 1\<rparr>) s0 in
          bindE (deref (kt_wchan thr)) (\<lambda>q.
          bindE (ktqueue_remove q t s1) (\<lambda>s2.
          bindE (sched_make_runnable K t s2) (\<lambda>s3. Inr (intr_enable s3))))
        else Inr (intr_enable (upd_thread t (\<lambda>x. x\<lparr>kt_cancelled := 1\<rparr>) s0))))"

section \<open>Invariants\<close>

definition sleeping :: "kthread_state \<Rightarrow> bool" where
  "sleeping st \<longleftrightarrow> st = KT_SLEEP \<or> st = KT_SLEEP_CANCELLABLE"

definition live_state :: "kthread_state \<Rightarrow> bool" where
  "live_state st \<longleftrightarrow> st = KT_RUN \<or> sleeping st"

text \<open>Threads on the run queue are runnable, threads on any other queue are asleep.\<close>

definition state_ok :: "kstate \<Rightarrow> bool" where
  "state_ok s \<longleftrightarrow>
     (\<forall>t thr q. threads s t = Some thr \<longrightarrow> kt_wchan thr = Some q \<longrightarrow>
        (if q = Runq then kt_state thr = KT_RUN else sleeping (kt_state thr)))"

text \<open>
  No thread is lost: unless it is in the state \<^verbatim>\<open>KT_NO_STATE\<close> or
  \<^verbatim>\<open>KT_EXITED\<close>, a thread other than \<open>c\<close> is on
  some queue, so that it can run again.
\<close>

definition queued_except :: "ptr option \<Rightarrow> kstate \<Rightarrow> bool" where
  "queued_except c s \<longleftrightarrow>
     (\<forall>t thr. threads s t = Some thr \<longrightarrow> live_state (kt_state thr) \<longrightarrow>
        kt_wchan thr = None \<longrightarrow> c = Some t)"

definition sched_inv :: "kstate \<Rightarrow> bool" where
  "sched_inv s \<longleftrightarrow> queue_inv s \<and> state_ok s \<and> queued_except (curthr s) s"

definition parked_inv :: "kstate \<Rightarrow> bool" where
  "parked_inv s \<longleftrightarrow> queue_inv s \<and> state_ok s \<and> queued_except None s"

lemma intr_setipl_sel [simp]:
  "threads (intr_setipl i s) = threads s" "queues (intr_setipl i s) = queues s"
  "curthr (intr_setipl i s) = curthr s" "curproc (intr_setipl i s) = curproc s"
  "ipl (intr_setipl i s) = i"
  by (simp_all add: intr_setipl_def)

lemma intr_able_sel [simp]:
  "threads (intr_disable s) = threads s" "queues (intr_disable s) = queues s"
  "curthr (intr_disable s) = curthr s" "ipl (intr_disable s) = ipl s"
  "threads (intr_enable s) = threads s" "queues (intr_enable s) = queues s"
  "curthr (intr_enable s) = curthr s" "ipl (intr_enable s) = ipl s"
  by (simp_all add: intr_disable_def intr_enable_def)

lemma upd_thread_sel [simp]:
  "threads (upd_thread t f s) = (threads s)(t := map_option f (threads s t))"
  "queues (upd_thread t f s) = queues s" "curthr (upd_thread t f s) = curthr s"
  "curproc (upd_thread t f s) = curproc s" "ipl (upd_thread t f s) = ipl s"
  by (simp_all add: upd_thread_def)

text \<open>
  The scheduling invariants read no more of a thread than its queue, its link
  and its state, so every update of the other fields keeps them.
\<close>

definition sched_view :: "kstate \<Rightarrow> ptr \<Rightarrow> (qid option \<times> qid option \<times> kthread_state) option" where
  "sched_view s t = map_option (\<lambda>x. (kt_wchan x, kt_qlink x, kt_state x)) (threads s t)"

lemma sched_viewD:
  assumes "sched_view s' = sched_view s" and "threads s' t = Some x'"
  shows "\<exists>x. threads s t = Some x \<and> kt_wchan x = kt_wchan x' \<and> kt_qlink x = kt_qlink x' \<and> kt_state x = kt_state x'"
proof -
  from assms(1) have "sched_view s' t = sched_view s t" by simp
  with assms(2) show ?thesis by (cases "threads s t") (auto simp: sched_view_def)
qed

lemma sched_view_imp:
  assumes v: "sched_view s' = sched_view s" and q: "queues s' = queues s"
  shows "queue_inv s \<Longrightarrow> queue_inv s'" "state_ok s \<Longrightarrow> state_ok s'"
    "queued_except c s \<Longrightarrow> queued_except c s'"
proof -
  note d = sched_viewD [OF v] sched_viewD [OF v [symmetric]]
  show "queue_inv s \<Longrightarrow> queue_inv s'"
    unfolding queue_inv_def q by (metis d)
  show "state_ok s \<Longrightarrow> state_ok s'"
    unfolding state_ok_def by (metis d(1))
  show "queued_except c s \<Longrightarrow> queued_except c s'"
    unfolding queued_except_def by (metis d(1))
qed

lemma sched_inv_cong:
  assumes v: "sched_view s' = sched_view s" and q: "queues s' = queues s"
  shows "queue_inv s' = queue_inv s" "state_ok s' = state_ok s"
    "queued_except c s' = queued_except c s" "parked_inv s' = parked_inv s"
    "curthr s' = curthr s \<Longrightarrow> sched_inv s' = sched_inv s"
  using sched_view_imp [OF v q] sched_view_imp [OF v [symmetric] q [symmetric]]
  unfolding parked_inv_def sched_inv_def by metis+

lemma sched_view_same: "threads s' = threads s \<Longrightarrow> sched_view s' = sched_view s"
  by (rule ext) (simp add: sched_view_def)

lemma sched_view_upd_thread:
  assumes "\<And>x. kt_wchan (f x) = kt_wchan x" "\<And>x. kt_qlink (f x) = kt_qlink x" "\<And>x. kt_state (f x) = kt_state x"
  shows "sched_view (upd_thread t f s) = sched_view s"
  by (rule ext) (simp add: sched_view_def assms option.map_comp o_def)

lemmas sched_inv_same = sched_inv_cong [OF sched_view_same]

section \<open>Making a thread runnable\<close>

definition runnable_state :: "ptr \<Rightarrow> kthread \<Rightarrow> kstate \<Rightarrow> kstate" where
  "runnable_state t thr s =
     s\<lparr>queues := (queues s)(Runq := \<lparr>tq_list = t # tq_list (queues s Runq),
                                   tq_size = tq_size (queues s Runq) + 1\<rparr>),
       threads := (threads s)(t \<mapsto> thr\<lparr>kt_state := KT_RUN, kt_qlink := Some Runq, kt_wchan := Some Runq\<rparr>)\<rparr>"

lemma runnable_state_sel [simp]:
  "threads (runnable_state t thr s) =
     (threads s)(t \<mapsto> thr\<lparr>kt_state := KT_RUN, kt_qlink := Some Runq, kt_wchan := Some Runq\<rparr>)"
  "queues (runnable_state t thr s) =
     (queues s)(Runq := \<lparr>tq_list = t # tq_list (queues s Runq), tq_size = tq_size (queues s Runq) + 1\<rparr>)"
  "curthr (runnable_state t thr s) = curthr s" "curproc (runnable_state t thr s) = curproc s"
  "ipl (runnable_state t thr s) = ipl s"
  "waiting q (runnable_state t thr s) = (if q = Runq then waiting Runq s @ [t] else waiting q s)"
  by (simp_all add: runnable_state_def waiting_def)

lemma sched_make_runnable_idle:
  assumes inv: "queue_inv s" and t: "threads s t = Some thr" "kt_wchan thr = None"
  shows "sched_make_runnable K t s = Inr (runnable_state t thr s)"
proof -
  have "kt_qlink thr = None" using queue_inv_qlink [OF inv t(1)] t(2) by simp
  with t show ?thesis
    by (cases s) (simp add: sched_make_runnable_def ktqueue_enqueue_def upd_thread_def
        intr_setipl_def runnable_state_def Let_def)
qed

lemma queue_inv_runnable:
  assumes inv: "queue_inv s" and t: "threads s t = Some thr" "kt_wchan thr = None"
  shows "queue_inv (runnable_state t thr s)"
proof -
  let ?s = "s\<lparr>threads := (threads s)(t \<mapsto> thr\<lparr>kt_state := KT_RUN\<rparr>)\<rparr>"
  have inv': "queue_inv ?s" using queue_inv_upd_thread [OF inv t(1)] by simp
  have "ktqueue_enqueue Runq t ?s = Inr (runnable_state t thr s)"
    using ktqueue_enqueue_idle [OF inv', of t "thr\<lparr>kt_state := KT_RUN\<rparr>" Runq] t
    by (simp add: runnable_state_def)
  from ktqueue_enqueue_inv [OF inv' _ _ this] t show ?thesis by simp
qed

lemma state_ok_runnable: "state_ok s \<Longrightarrow> state_ok (runnable_state t thr s)"
  by (auto simp: state_ok_def)

lemma queued_except_runnable: "queued_except c s \<Longrightarrow> queued_except c (runnable_state t thr s)"
  by (auto simp: queued_except_def)

lemma queued_except_runnable_self:
  "queued_except (Some t) s \<Longrightarrow> queued_except None (runnable_state t thr s)"
  by (auto simp: queued_except_def)

section \<open>Waking up\<close>

lemma sched_wakeup_on_empty:
  assumes "queue_inv s" and "waiting q s = []"
  shows "sched_wakeup_on K q s = Inr (None, s)"
  using ktq.deq_empty [OF assms] by (simp add: sched_wakeup_on_def)

text \<open>The thread that has waited longest is moved to the end of the run queue.\<close>

lemma sched_wakeup_on_first:
  assumes inv: "queue_inv s" "state_ok s" and q: "q \<noteq> Runq" and w: "waiting q s = t # ts"
  shows "\<exists>s'. sched_wakeup_on K q s = Inr (Some t, s') \<and> queue_inv s' \<and> state_ok s' \<and>
     (\<forall>c. queued_except c s \<longrightarrow> queued_except c s') \<and> waiting q s' = ts \<and>
     waiting Runq s' = waiting Runq s @ [t] \<and>
     (\<forall>r. r \<noteq> q \<longrightarrow> r \<noteq> Runq \<longrightarrow> waiting r s' = waiting r s) \<and> curthr s' = curthr s \<and> ipl s' = ipl s"
proof -
  from w have ne: "tq_list (queues s q) \<noteq> []" and t: "t = last (tq_list (queues s q))"
    and ts: "rev (butlast (tq_list (queues s q))) = ts"
    by (auto simp: waiting_def rev_butlast hd_rev [symmetric])
  obtain thr where thr: "threads s t = Some thr" "kt_wchan thr = Some q"
    and deq: "ktqueue_dequeue q s = Inr (Some t,
           s\<lparr>queues := (queues s)(q := \<lparr>tq_list = butlast (tq_list (queues s q)),
                                      tq_size = tq_size (queues s q) - 1\<rparr>),
             threads := (threads s)(t \<mapsto> thr\<lparr>kt_qlink := None, kt_wchan := None\<rparr>)\<rparr>)"
    (is "_ = Inr (_, ?s1)")
    using ktqueue_dequeue_last [OF inv(1) ne t] by blast
  let ?thr = "thr\<lparr>kt_qlink := None, kt_wchan := None\<rparr>"
  have sl: "sleeping (kt_state thr)" using inv(2) thr q by (auto simp: state_ok_def)
  have inv1: "queue_inv ?s1" using ktqueue_dequeue_inv [OF inv(1) deq] .
  have ok1: "state_ok ?s1" using inv(2) by (auto simp: state_ok_def)
  have run: "sched_make_runnable K t ?s1 = Inr (runnable_state t ?thr ?s1)"
    by (rule sched_make_runnable_idle [OF inv1]) simp_all
  have "sched_wakeup_on K q s = Inr (Some t, runnable_state t ?thr ?s1)"
    using deq run sl by (simp add: sched_wakeup_on_def sleeping_def)
  moreover have "queued_except c (runnable_state t ?thr ?s1)" if "queued_except c s" for c
    using that by (auto simp: queued_except_def)
  moreover have "queue_inv (runnable_state t ?thr ?s1)"
    by (rule queue_inv_runnable [OF inv1]) simp_all
  moreover have "waiting q ?s1 = ts" "\<forall>r. r \<noteq> q \<longrightarrow> waiting r ?s1 = waiting r s"
    using ts by (simp_all add: waiting_def)
  ultimately show ?thesis using state_ok_runnable [OF ok1] q by simp
qed

lemma broadcast_loop_drains:
  assumes "queue_inv s" "state_ok s" "q \<noteq> Runq" "length (waiting q s) < n"
  shows "\<exists>s'. broadcast_loop n K q s = Inr s' \<and> queue_inv s' \<and> state_ok s' \<and>
     (\<forall>c. queued_except c s \<longrightarrow> queued_except c s') \<and> waiting q s' = [] \<and>
     waiting Runq s' = waiting Runq s @ waiting q s \<and>
     (\<forall>r. r \<noteq> q \<longrightarrow> r \<noteq> Runq \<longrightarrow> waiting r s' = waiting r s) \<and> curthr s' = curthr s \<and> ipl s' = ipl s"
  using assms
proof (induction n arbitrary: s)
  case 0
  then show ?case by simp
next
  case (Suc n)
  show ?case
  proof (cases "waiting q s")
    case Nil
    with sched_wakeup_on_empty [OF Suc.prems(1) Nil, of K] Suc.prems show ?thesis by auto
  next
    case (Cons t ts)
    obtain s1 where s1: "sched_wakeup_on K q s = Inr (Some t, s1)" "queue_inv s1" "state_ok s1"
        "\<forall>c. queued_except c s \<longrightarrow> queued_except c s1" "waiting q s1 = ts"
        "waiting Runq s1 = waiting Runq s @ [t]"
        "\<forall>r. r \<noteq> q \<longrightarrow> r \<noteq> Runq \<longrightarrow> waiting r s1 = waiting r s" "curthr s1 = curthr s" "ipl s1 = ipl s"
      using sched_wakeup_on_first [OF Suc.prems(1-3) Cons, of K] by blast
    have "length (waiting q s1) < n" using Suc.prems(4) Cons s1(5) by simp
    from Suc.IH [OF s1(2,3) Suc.prems(3) this] s1 Cons show ?thesis by auto
  qed
qed

lemma sched_broadcast_on_all:
  assumes "queue_inv s" "state_ok s" "q \<noteq> Runq"
  shows "\<exists>s'. sched_broadcast_on K q s = Inr s' \<and> queue_inv s' \<and> state_ok s' \<and>
     (\<forall>c. queued_except c s \<longrightarrow> queued_except c s') \<and> waiting q s' = [] \<and>
     waiting Runq s' = waiting Runq s @ waiting q s \<and>
     (\<forall>r. r \<noteq> q \<longrightarrow> r \<noteq> Runq \<longrightarrow> waiting r s' = waiting r s) \<and> curthr s' = curthr s \<and> ipl s' = ipl s"
  unfolding sched_broadcast_on_def
  by (rule broadcast_loop_drains [OF assms]) (simp add: waiting_def)


section \<open>Switching\<close>

definition irqs_keep :: "interrupt list \<Rightarrow> bool" where
  "irqs_keep irqs \<longleftrightarrow> (\<forall>h\<in>snd ` set irqs. \<forall>s. parked_inv s \<longrightarrow> parked_inv (h s) \<and> curthr (h s) = curthr s)"

lemma await_runnable_inv:
  assumes "await_runnable K irqs s = Inr s'" "parked_inv s" "irqs_keep irqs"
  shows "parked_inv s' \<and> curthr s' = curthr s \<and> waiting Runq s' \<noteq> []"
  using assms
proof (induction K irqs s rule: await_runnable.induct)
  case (1 K irqs s)
  show ?case
  proof (cases "sched_queue_empty Runq s")
    case True
    let ?s1 = "intr_setipl (IPL_LOW K) (intr_disable s)"
    obtain irqs' s2 where w: "intr_wait irqs ?s1 = Inr (irqs', s2)" "await_runnable K irqs' (intr_setipl (IPL_HIGH K) s2) = Inr s'"
      using 1(2) True by (auto simp: await_runnable.simps [of K irqs] split: sum.splits)
    obtain pre level h where h: "irqs = pre @ (level, h) # irqs'" "s2 = h (intr_enable ?s1)" using intr_wait_arrived [OF w(1)] by blast
    have "parked_inv (intr_enable ?s1)" using sched_inv_same(4) [of "intr_enable ?s1" s] 1(3) by simp
    then have "parked_inv s2" "curthr s2 = curthr s" using 1(4) h by (simp_all add: irqs_keep_def)
    moreover have "irqs_keep irqs'" using 1(4) h(1) by (simp add: irqs_keep_def)
    ultimately show ?thesis
      using 1(1) [OF True w(1) refl w(2)] sched_inv_same(4) [of "intr_setipl (IPL_HIGH K) s2" s2] by simp
  next
    case False
    with 1(2,3) show ?thesis by (auto simp: await_runnable.simps [of K irqs] sched_queue_empty_def waiting_def)
  qed
qed

lemma await_runnable_now: "waiting Runq s \<noteq> [] \<Longrightarrow> await_runnable K irqs s = Inr s"
  by (simp add: await_runnable.simps sched_queue_empty_def waiting_def)

lemma await_runnable_arrives:
  assumes "sched_queue_empty Runq s" "IPL_LOW K < level"
  shows "await_runnable K ((level, h) # irqs) s =
    await_runnable K irqs (intr_setipl (IPL_HIGH K) (h (intr_enable (intr_setipl (IPL_LOW K) (intr_disable s)))))"
  using assms by (simp add: await_runnable.simps [of K "(level, h) # irqs"])

lemma await_runnable_masked:
  assumes "sched_queue_empty Runq s" "\<not> IPL_LOW K < level"
  shows "await_runnable K ((level, h) # irqs) s = await_runnable K irqs s"
  using assms by (simp add: await_runnable.simps [of K "(level, h) # irqs"] await_runnable.simps [of K irqs])

text \<open>Interrupts that make no thread runnable, such as the ticks of a clock, leave \<^verbatim>\<open>sched_switch\<close> in its loop.\<close>

definition wakes_nobody :: "(kstate \<Rightarrow> kstate) \<Rightarrow> bool" where
  "wakes_nobody h \<longleftrightarrow> (\<forall>s. threads (h s) = threads s \<and> queues (h s) = queues s \<and> curthr (h s) = curthr s)"

lemma await_runnable_goes_on:
  assumes "sched_queue_empty Runq s" "\<forall>(level, h)\<in>set early. level \<le> IPL_LOW K \<or> wakes_nobody h"
  shows "\<exists>s1. (\<forall>irqs. await_runnable K (early @ irqs) s = await_runnable K irqs s1) \<and>
    threads s1 = threads s \<and> queues s1 = queues s \<and> curthr s1 = curthr s"
  using assms
proof (induction early arbitrary: s)
  case (Cons i early)
  obtain level h where i: "i = (level, h)" by (cases i)
  show ?case
  proof (cases "IPL_LOW K < level")
    case True
    let ?s1 = "intr_setipl (IPL_HIGH K) (h (intr_enable (intr_setipl (IPL_LOW K) (intr_disable s))))"
    have "wakes_nobody h" using Cons.prems(2) i True by auto
    then have e: "threads ?s1 = threads s" "queues ?s1 = queues s" "curthr ?s1 = curthr s" by (simp_all add: wakes_nobody_def)
    then have "sched_queue_empty Runq ?s1" using Cons.prems(1) by (simp add: sched_queue_empty_def)
    then show ?thesis using Cons.IH [of ?s1] Cons.prems(2) e await_runnable_arrives [OF Cons.prems(1) True] i by auto
  next
    case False
    then show ?thesis using Cons await_runnable_masked [OF Cons.prems(1) False] i by auto
  qed
qed auto

lemma context_switch_sel [simp]:
  "threads (context_switch i prev t s) =
     (threads s)(prev := map_option (\<lambda>x. x\<lparr>kt_ipl := Some i\<rparr>) (threads s prev))"
  "queues (context_switch i prev t s) = queues s"
  "curthr (context_switch i prev t s) = curthr s"
  "curproc (context_switch i prev t s) = curproc s"
  by (simp_all add: context_switch_def Let_def split: option.splits)

lemma context_switch_ipl:
  assumes "threads s t = Some x" "kt_ipl x = Some j" "prev \<noteq> t"
  shows "ipl (context_switch i prev t s) = j"
  using assms by (simp add: context_switch_def Let_def)

lemma sched_inv_context_switch:
  assumes "queue_inv s" "state_ok s" "queued_except (curthr s) s"
  shows "sched_inv (context_switch i prev t s)"
proof -
  have "sched_view (context_switch i prev t s) = sched_view s"
    by (rule ext) (simp add: sched_view_def option.map_comp o_def)
  from sched_inv_cong(5) [OF this] assms show ?thesis by (simp add: sched_inv_def)
qed

lemma sched_switch_from:
  assumes inv: "parked_inv s1" and aw: "await_runnable K irqs (intr_setipl (IPL_HIGH K) s) = Inr s1"
    and w: "waiting Runq s1 = t # ts" and c: "curthr s1 = Some c"
  shows "\<exists>s'. sched_switch K irqs s = Inr s' \<and> sched_inv s' \<and> curthr s' = Some t \<and>
     waiting Runq s' = ts \<and> (\<forall>r. r \<noteq> Runq \<longrightarrow> waiting r s' = waiting r s1) \<and>
     (\<exists>thr. threads s' t = Some thr \<and> kt_state thr = KT_RUN \<and> kt_wchan thr = None \<and>
            curproc s' = kt_proc thr) \<and>
     (\<forall>u. u \<noteq> t \<longrightarrow> map_option kt_state (threads s' u) = map_option kt_state (threads s1 u)) \<and>
     (c \<noteq> t \<longrightarrow> (\<forall>thr j. threads s1 t = Some thr \<longrightarrow> kt_ipl thr = Some j \<longrightarrow> ipl s' = j) \<and>
       (\<forall>thr. threads s' c = Some thr \<longrightarrow> kt_ipl thr = Some (ipl s)))"
proof -
  have q: "queue_inv s1" and ok: "state_ok s1" and par: "queued_except None s1"
    using inv by (auto simp: parked_inv_def)
  from w have ne: "tq_list (queues s1 Runq) \<noteq> []" and t: "t = last (tq_list (queues s1 Runq))"
    and ts: "rev (butlast (tq_list (queues s1 Runq))) = ts"
    by (auto simp: waiting_def rev_butlast hd_rev [symmetric])
  obtain thr where thr: "threads s1 t = Some thr" "kt_wchan thr = Some Runq"
    and deq: "ktqueue_dequeue Runq s1 = Inr (Some t,
           s1\<lparr>queues := (queues s1)(Runq := \<lparr>tq_list = butlast (tq_list (queues s1 Runq)),
                                      tq_size = tq_size (queues s1 Runq) - 1\<rparr>),
             threads := (threads s1)(t \<mapsto> thr\<lparr>kt_qlink := None, kt_wchan := None\<rparr>)\<rparr>)"
    (is "_ = Inr (_, ?s2)")
    using ktqueue_dequeue_last [OF q ne t] by blast
  have run: "kt_state thr = KT_RUN" using ok thr by (auto simp: state_ok_def)
  let ?s3 = "?s2\<lparr>curproc := kt_proc thr, curthr := Some t\<rparr>"
  have "sched_switch K irqs s = Inr (context_switch (ipl s) c t ?s3)"
    using aw deq c by (simp add: sched_switch_def Let_def)
  moreover have "sched_inv (context_switch (ipl s) c t ?s3)"
  proof (rule sched_inv_context_switch)
    show "queue_inv ?s3" using ktqueue_dequeue_inv [OF q deq] sched_inv_same(1) [of ?s3 ?s2] by simp
    show "state_ok ?s3" using ok by (auto simp: state_ok_def)
    show "queued_except (curthr ?s3) ?s3" using par by (auto simp: queued_except_def)
  qed
  ultimately show ?thesis
    using ts run context_switch_ipl [of ?s3 t "thr\<lparr>kt_qlink := None, kt_wchan := None\<rparr>" _ c "ipl s"] thr
    by (auto simp: waiting_def option.map_comp o_def)
qed

lemma sched_switch_inv:
  assumes sw: "sched_switch K irqs s = Inr s'" and inv: "parked_inv s" and keep: "irqs_keep irqs"
    and c: "curthr s = Some c"
  shows "sched_inv s' \<and> (\<exists>t thr. curthr s' = Some t \<and> threads s' t = Some thr \<and> kt_state thr = KT_RUN)"
proof -
  obtain s1 where aw: "await_runnable K irqs (intr_setipl (IPL_HIGH K) s) = Inr s1"
    using sw by (auto simp: sched_switch_def Let_def elim!: bindE_InrE)
  have "parked_inv (intr_setipl (IPL_HIGH K) s)"
    using sched_inv_same(4) [of "intr_setipl (IPL_HIGH K) s" s] inv by simp
  from await_runnable_inv [OF aw this keep] c
  obtain t ts where "parked_inv s1" "curthr s1 = Some c" "waiting Runq s1 = t # ts"
    by (cases "waiting Runq s1") auto
  from sched_switch_from [OF this(1) aw this(3,2)] sw show ?thesis by auto
qed


section \<open>Sleeping and cancelling\<close>

definition parked_state :: "qid \<Rightarrow> ptr \<Rightarrow> kthread \<Rightarrow> kthread_state \<Rightarrow> kstate \<Rightarrow> kstate" where
  "parked_state q c thr st s =
     s\<lparr>queues := (queues s)(q := \<lparr>tq_list = c # tq_list (queues s q), tq_size = tq_size (queues s q) + 1\<rparr>),
       threads := (threads s)(c \<mapsto> thr\<lparr>kt_state := st, kt_qlink := Some q, kt_wchan := Some q\<rparr>)\<rparr>"

lemma parked_state_sel [simp]:
  "threads (parked_state q c thr st s) =
     (threads s)(c \<mapsto> thr\<lparr>kt_state := st, kt_qlink := Some q, kt_wchan := Some q\<rparr>)"
  "queues (parked_state q c thr st s) =
     (queues s)(q := \<lparr>tq_list = c # tq_list (queues s q), tq_size = tq_size (queues s q) + 1\<rparr>)"
  "curthr (parked_state q c thr st s) = curthr s"
  "ipl (parked_state q c thr st s) = ipl s"
  "waiting r (parked_state q c thr st s) = (if r = q then waiting q s @ [c] else waiting r s)"
  by (simp_all add: parked_state_def waiting_def)

lemma parked_state_inv:
  assumes inv: "sched_inv s" and c: "curthr s = Some c" "threads s c = Some thr" "kt_wchan thr = None"
    and q: "q \<noteq> Runq" "sleeping st"
  shows "parked_inv (parked_state q c thr st s)"
proof -
  let ?s = "s\<lparr>threads := (threads s)(c \<mapsto> thr\<lparr>kt_state := st\<rparr>)\<rparr>"
  have qi: "queue_inv s" using inv by (simp add: sched_inv_def)
  have inv': "queue_inv ?s" using queue_inv_upd_thread [OF qi c(2)] by simp
  have "ktqueue_enqueue q c ?s = Inr (parked_state q c thr st s)"
    using ktqueue_enqueue_idle [OF inv', of c "thr\<lparr>kt_state := st\<rparr>" q] c
    by (simp add: parked_state_def)
  from ktqueue_enqueue_inv [OF inv' _ _ this] c have "queue_inv (parked_state q c thr st s)" by simp
  moreover have "state_ok (parked_state q c thr st s)"
    using inv q by (auto simp: sched_inv_def state_ok_def)
  moreover have "queued_except None (parked_state q c thr st s)"
    using inv c by (auto simp: sched_inv_def queued_except_def)
  ultimately show ?thesis by (simp add: parked_inv_def)
qed

lemma sched_sleep_on_parks:
  assumes inv: "queue_inv s" and c: "curthr s = Some c" "threads s c = Some thr" "kt_wchan thr = None"
  shows "sched_sleep_on K irqs q s = sched_switch K irqs (parked_state q c thr KT_SLEEP s)"
  using c queue_inv_qlink [OF inv c(2)]
  by (simp add: sched_sleep_on_def ktqueue_enqueue_def parked_state_def upd_thread_def)

lemma sched_cancellable_sleep_on_parks:
  assumes inv: "queue_inv s" and c: "curthr s = Some c" "threads s c = Some thr" "kt_wchan thr = None"
    and nc: "kt_cancelled thr \<noteq> 1"
  shows "sched_cancellable_sleep_on K irqs q s =
     bindE (sched_switch K irqs (intr_enable (parked_state q c thr KT_SLEEP_CANCELLABLE (intr_disable s))))
       (\<lambda>s'. Inr (None, s'))"
  using c nc queue_inv_qlink [OF inv c(2)]
  by (cases thr) (simp add: sched_cancellable_sleep_on_def ktqueue_enqueue_def parked_state_def upd_thread_def
      intr_disable_def Let_def)

text \<open>
  Going to sleep hands the processor to the thread that has been runnable
  longest and puts the sleeper at the end of its queue; nobody is lost.
\<close>

lemma sched_sleep_on_next:
  assumes inv: "sched_inv s" and c: "curthr s = Some c" "threads s c = Some thr" "kt_wchan thr = None"
    and q: "q \<noteq> Runq" and w: "waiting Runq s = t # ts"
  shows "\<exists>s'. sched_sleep_on K irqs q s = Inr s' \<and> sched_inv s' \<and> curthr s' = Some t \<and>
     waiting Runq s' = ts \<and> waiting q s' = waiting q s @ [c]"
proof -
  let ?p = "parked_state q c thr KT_SLEEP s"
  have qi: "queue_inv s" using inv by (simp add: sched_inv_def)
  have par: "parked_inv ?p" using parked_state_inv [OF inv c q] by (simp add: sleeping_def)
  let ?p1 = "intr_setipl (IPL_HIGH K) ?p"
  have par1: "parked_inv ?p1" using sched_inv_same(4) [of ?p1 ?p] par by simp
  have w1: "waiting r ?p1 = waiting r ?p" for r by (simp add: waiting_def)
  have aw: "await_runnable K irqs ?p1 = Inr ?p1"
    by (rule await_runnable_now) (use w q w1 in simp)
  have "waiting Runq ?p1 = t # ts" "curthr ?p1 = Some c" using w q w1 c by simp_all
  from sched_switch_from [OF par1 aw this]
  obtain s' where "sched_switch K irqs ?p = Inr s'" "sched_inv s'" "curthr s' = Some t"
      "waiting Runq s' = ts" "\<forall>r. r \<noteq> Runq \<longrightarrow> waiting r s' = waiting r ?p1"
    by blast
  with q w1 show ?thesis unfolding sched_sleep_on_parks [OF qi c] by simp
qed

lemma sched_sleep_on_inv:
  assumes inv: "sched_inv s" and c: "curthr s = Some c" "threads s c = Some thr" "kt_wchan thr = None"
    and q: "q \<noteq> Runq" and keep: "irqs_keep irqs" and sl: "sched_sleep_on K irqs q s = Inr s'"
  shows "sched_inv s'"
proof -
  have qi: "queue_inv s" using inv by (simp add: sched_inv_def)
  have "parked_inv (parked_state q c thr KT_SLEEP s)"
    using parked_state_inv [OF inv c q] by (simp add: sleeping_def)
  from sched_switch_inv [OF _ this keep] sl c show ?thesis
    unfolding sched_sleep_on_parks [OF qi c] by simp
qed

lemma sched_cancel_cancellable:
  assumes inv: "sched_inv s" and t: "threads s t = Some thr" "kt_state thr = KT_SLEEP_CANCELLABLE"
    and q: "kt_wchan thr = Some q"
  shows "\<exists>s'. sched_cancel K t s = Inr s' \<and> sched_inv s' \<and> waiting Runq s' = waiting Runq s @ [t] \<and>
     waiting q s' = remove1 t (waiting q s) \<and>
     (\<forall>r. r \<noteq> q \<longrightarrow> r \<noteq> Runq \<longrightarrow> waiting r s' = waiting r s) \<and>
     (\<exists>thr'. threads s' t = Some thr' \<and> kt_state thr' = KT_RUN \<and> kt_cancelled thr' = 1)"
proof -
  let ?s1 = "upd_thread t (\<lambda>x. x\<lparr>kt_cancelled := 1\<rparr>) (intr_disable s)"
  let ?thr1 = "thr\<lparr>kt_cancelled := 1\<rparr>"
  have "sched_view ?s1 = sched_view (intr_disable s)" by (rule sched_view_upd_thread) simp_all
  also have "\<dots> = sched_view s" by (rule sched_view_same) simp
  finally have v1: "sched_view ?s1 = sched_view s" .
  have qi: "queue_inv ?s1"
    using inv sched_inv_cong(1) [OF v1] by (simp add: sched_inv_def)
  have t1: "threads ?s1 t = Some ?thr1" "kt_wchan ?thr1 = Some q" using t q by simp_all
  have nr: "q \<noteq> Runq" using inv t q by (auto simp: sched_inv_def state_ok_def)
  let ?s2 = "?s1\<lparr>queues := (queues ?s1)(q := \<lparr>tq_list = remove1 t (tq_list (queues ?s1 q)),
                                      tq_size = tq_size (queues ?s1 q) - 1\<rparr>),
            threads := (threads ?s1)(t \<mapsto> ?thr1\<lparr>kt_qlink := None, kt_wchan := None\<rparr>)\<rparr>"
  let ?thr2 = "?thr1\<lparr>kt_qlink := None, kt_wchan := None\<rparr>"
  have rm: "ktqueue_remove q t ?s1 = Inr ?s2" by (rule ktqueue_remove_linked [OF qi t1])
  have qi2: "queue_inv ?s2" by (rule ktqueue_remove_inv [OF qi t1 rm])
  have mr: "sched_make_runnable K t ?s2 = Inr (runnable_state t ?thr2 ?s2)"
    by (rule sched_make_runnable_idle [OF qi2]) simp_all
  let ?s3 = "runnable_state t ?thr2 ?s2"
  have "sched_cancel K t s = Inr (intr_enable ?s3)"
    using t q rm mr by (simp add: sched_cancel_def Let_def)
  moreover have "sched_inv ?s3"
    using queue_inv_runnable [OF qi2, of t ?thr2] inv
    by (auto simp: sched_inv_def state_ok_def queued_except_def)
  then have "sched_inv (intr_enable ?s3)" using sched_inv_same(5) [of "intr_enable ?s3" ?s3] by simp
  moreover have "waiting q ?s3 = remove1 t (waiting q s)"
    using nr distinct_remove1_rev [of "tq_list (queues s q)" t] queue_inv_distinct [OF qi, of q]
    by (simp add: waiting_def)
  moreover have "waiting r (intr_enable ?s3) = waiting r ?s3" for r by (simp add: waiting_def)
  moreover have "waiting Runq ?s3 = waiting Runq s @ [t]" using nr by (simp add: waiting_def)
  moreover have "waiting r ?s3 = waiting r s" if "r \<noteq> q" "r \<noteq> Runq" for r
    using that by (simp add: waiting_def)
  ultimately show ?thesis by simp
qed

lemma sched_cancel_inv:
  assumes inv: "sched_inv s" and ca: "sched_cancel K t s = Inr s'"
  shows "sched_inv s' \<and> (\<forall>q. q \<noteq> Runq \<longrightarrow> set (waiting q s') \<subseteq> set (waiting q s))"
proof (cases "\<exists>thr. threads s t = Some thr \<and> kt_state thr = KT_SLEEP_CANCELLABLE")
  case True
  then obtain thr where thr: "threads s t = Some thr" "kt_state thr = KT_SLEEP_CANCELLABLE" by blast
  then obtain q where "kt_wchan thr = Some q"
    using ca by (auto simp: sched_cancel_def Let_def elim!: bindE_InrE)
  from sched_cancel_cancellable [OF inv thr this, of K] ca
  have "sched_inv s'" "waiting q s' = remove1 t (waiting q s)"
    "\<forall>r. r \<noteq> q \<longrightarrow> r \<noteq> Runq \<longrightarrow> waiting r s' = waiting r s" by auto
  then show ?thesis by (metis notin_set_remove1 order_refl subsetI)
next
  case False
  with ca have s': "s' = intr_enable (upd_thread t (\<lambda>x. x\<lparr>kt_cancelled := 1\<rparr>) (intr_disable s))"
    by (auto simp: sched_cancel_def Let_def elim!: bindE_InrE split: if_splits)
  have "sched_view s' = sched_view s"
    unfolding s' by (rule ext) (simp add: sched_view_def option.map_comp o_def)
  from sched_inv_cong(5) [OF this] inv s' show ?thesis by (simp add: waiting_def)
qed

section \<open>What the scheduler leaves alone\<close>

definition kern_rest where
  "kern_rest s = ((km_holder s, procs s, proc_list s, next_pid s, proc_initproc s, vmmaps s, vmareas s, mmobjs s),
     (pframes s, alloc_list s, pinned_list s, nallocated s, npinned s, pframe_hash s, pagetabs s),
     (files s, vnodes s, vfs_root_vn s, kmem_ptr s, kmem_regs s))"

lemma kern_restD:
  assumes "kern_rest s' = kern_rest s"
  shows "km_holder s' = km_holder s" "procs s' = procs s" "proc_list s' = proc_list s"
    "next_pid s' = next_pid s" "proc_initproc s' = proc_initproc s" "vmmaps s' = vmmaps s"
    "vmareas s' = vmareas s" "mmobjs s' = mmobjs s" "pframes s' = pframes s" "pagetabs s' = pagetabs s"
    "files s' = files s" "vnodes s' = vnodes s"
  using assms by (simp_all add: kern_rest_def)

lemma kern_rest_upd [simp]:
  "kern_rest (s\<lparr>threads := a\<rparr>) = kern_rest s" "kern_rest (s\<lparr>queues := b\<rparr>) = kern_rest s"
  "kern_rest (s\<lparr>curthr := c\<rparr>) = kern_rest s" "kern_rest (s\<lparr>curproc := d\<rparr>) = kern_rest s"
  "kern_rest (intr_setipl i s) = kern_rest s" "kern_rest (intr_disable s) = kern_rest s"
  "kern_rest (intr_enable s) = kern_rest s" "kern_rest (upd_thread t f s) = kern_rest s"
  by (simp_all add: kern_rest_def intr_setipl_def intr_disable_def intr_enable_def upd_thread_def)

lemma kern_rest_context_switch [simp]: "kern_rest (context_switch i prev t s) = kern_rest s"
  by (simp add: context_switch_def Let_def split: option.splits)

lemma ktqueue_enqueue_rest [kframe]: "ktqueue_enqueue q t s = Inr s' \<Longrightarrow> kern_rest s' = kern_rest s"
  by (auto simp: ktqueue_enqueue_def elim!: bindE_InrE split: if_splits)

lemma ktqueue_dequeue_rest [kframe]: "ktqueue_dequeue q s = Inr (r, s') \<Longrightarrow> kern_rest s' = kern_rest s"
  by (auto simp: ktqueue_dequeue_def Let_def elim!: bindE_InrE split: if_splits)

lemma ktqueue_remove_rest [kframe]: "ktqueue_remove q t s = Inr s' \<Longrightarrow> kern_rest s' = kern_rest s"
  by (auto simp: ktqueue_remove_def Let_def elim!: bindE_InrE split: option.splits)

lemma sched_make_runnable_rest [kframe]:
  "sched_make_runnable K t s = Inr s' \<Longrightarrow> kern_rest s' = kern_rest s"
  by (auto simp: sched_make_runnable_def Let_def dest!: ktqueue_enqueue_rest elim!: bindE_InrE split: if_splits)

lemma sched_wakeup_on_rest [kframe]:
  "sched_wakeup_on K q s = Inr (r, s') \<Longrightarrow> kern_rest s' = kern_rest s"
  by (auto simp: sched_wakeup_on_def dest!: ktqueue_dequeue_rest sched_make_runnable_rest elim!: bindE_InrE
      split: option.splits if_splits)

lemma broadcast_loop_rest: "broadcast_loop n K q s = Inr s' \<Longrightarrow> kern_rest s' = kern_rest s"
proof (induction n arbitrary: s)
  case (Suc n)
  then show ?case
    by (auto dest!: sched_wakeup_on_rest elim!: bindE_InrE split: if_splits)
qed simp

lemma sched_broadcast_on_rest [kframe]: "sched_broadcast_on K q s = Inr s' \<Longrightarrow> kern_rest s' = kern_rest s"
  unfolding sched_broadcast_on_def by (rule broadcast_loop_rest)

lemma sched_cancel_rest [kframe]: "sched_cancel K t s = Inr s' \<Longrightarrow> kern_rest s' = kern_rest s"
  by (auto simp: sched_cancel_def Let_def dest!: ktqueue_remove_rest sched_make_runnable_rest
      elim!: bindE_InrE split: if_splits)

text \<open>
  What every interrupt handler keeps is kept while \<^verbatim>\<open>sched_switch\<close> waits, as
  long as it depends neither on the interrupt level nor on the interrupt flag.
\<close>

lemma await_runnable_keeps:
  assumes "await_runnable K irqs s = Inr s'" and "\<And>h u. h \<in> snd ` set irqs \<Longrightarrow> f (h u) = f u"
    and f: "\<And>i u. f (intr_setipl i u) = f u" "\<And>u. f (intr_disable u) = f u" "\<And>u. f (intr_enable u) = f u"
  shows "f s' = f s"
  using assms(1,2)
proof (induction K irqs s rule: await_runnable.induct)
  case (1 K irqs s)
  show ?case
  proof (cases "sched_queue_empty Runq s")
    case True
    let ?s1 = "intr_setipl (IPL_LOW K) (intr_disable s)"
    obtain irqs' s2 where w: "intr_wait irqs ?s1 = Inr (irqs', s2)" "await_runnable K irqs' (intr_setipl (IPL_HIGH K) s2) = Inr s'"
      using 1(2) True by (auto simp: await_runnable.simps [of K irqs] split: sum.splits)
    obtain pre level h where h: "irqs = pre @ (level, h) # irqs'" "s2 = h (intr_enable ?s1)" using intr_wait_arrived [OF w(1)] by blast
    have "f s' = f (intr_setipl (IPL_HIGH K) s2)" by (rule 1(1) [OF True w(1) refl w(2)]) (use 1(3) h(1) in auto)
    also have "\<dots> = f s" using 1(3) [of h] h f by simp
    finally show ?thesis .
  qed (use 1(2) in \<open>simp add: await_runnable.simps [of K irqs]\<close>)
qed

lemma sched_switch_keeps_queue:
  assumes sw: "sched_switch K irqs s = Inr s'" and "q \<noteq> Runq"
    and "\<And>h u. h \<in> snd ` set irqs \<Longrightarrow> waiting q (h u) = waiting q u"
  shows "waiting q s' = waiting q s"
proof -
  obtain s1 where aw: "await_runnable K irqs (intr_setipl (IPL_HIGH K) s) = Inr s1"
    and w: "waiting q s' = waiting q s1"
    using sw assms(2) by (auto simp: sched_switch_def Let_def waiting_def ktqueue_dequeue_def
        elim!: bindE_InrE split: if_splits)
  show ?thesis using await_runnable_keeps [OF aw, of "waiting q"] assms(3) w by (simp add: waiting_def)
qed

lemma sched_switch_keeps_holder:
  assumes sw: "sched_switch K irqs s = Inr s'"
    and "\<And>h u. h \<in> snd ` set irqs \<Longrightarrow> km_holder (h u) = km_holder u"
  shows "km_holder s' = km_holder s"
proof -
  obtain s1 where aw: "await_runnable K irqs (intr_setipl (IPL_HIGH K) s) = Inr s1"
    and w: "kern_rest s' = kern_rest s1"
    using sw by (auto simp: sched_switch_def Let_def dest!: ktqueue_dequeue_rest elim!: bindE_InrE)
  have "km_holder s1 = km_holder (intr_setipl (IPL_HIGH K) s)"
    by (rule await_runnable_keeps [OF aw assms(2)]) (simp_all add: intr_setipl_def intr_disable_def intr_enable_def)
  then show ?thesis using kern_restD(1) [OF w] by (simp add: intr_setipl_def)
qed


section \<open>Concrete states for the examples\<close>

text \<open>
  Thread 1 runs, thread 2 sleeps in a cancellable way on the wait queue of mutex
  5, which thread 1 holds, and thread 3 is runnable.
\<close>

definition mk_thread :: "kthread_state \<Rightarrow> qid option \<Rightarrow> kthread" where
  "mk_thread st q = \<lparr>kt_kstack = Some 0, kt_retval = 0, kt_errno = 0, kt_proc = Some 1, kt_cancelled = 0,
     kt_wchan = q, kt_state = st, kt_qlink = q, kt_plink = Some 1, kt_ipl = Some 0, kt_ctx = zero_context\<rparr>"

definition three_threads :: kstate where
  "three_threads = blank_state\<lparr>
     threads := [1 \<mapsto> mk_thread KT_RUN None, 2 \<mapsto> mk_thread KT_SLEEP_CANCELLABLE (Some (Mutexq 5)),
                 3 \<mapsto> mk_thread KT_RUN (Some Runq)],
     queues := (\<lambda>_. empty_queue)(Mutexq 5 := \<lparr>tq_list = [2], tq_size = 1\<rparr>,
                                  Runq := \<lparr>tq_list = [3], tq_size = 1\<rparr>),
     curthr := Some 1, curproc := Some 1, km_holder := [5 \<mapsto> 1]\<rparr>"

lemmas three_threads_defs = three_threads_def mk_thread_def blank_state_def empty_queue_def

lemma three_threads_inv: "sched_inv three_threads"
  by (auto simp: three_threads_defs sched_inv_def queue_inv_def state_ok_def queued_except_def
      sleeping_def live_state_def)

section \<open>Properties\<close>

text \<open>C20: going to sleep loses no thread.  When the running thread calls \<^verbatim>\<open>sched_sleep_on\<close> on
  a wait queue and some thread is runnable, the call parks the caller at the end of the line of that
  queue and the processor goes to the thread that has been runnable longest; the invariant holds again:
  every thread that is neither new nor exited is the current one or on the queue its
  \<^verbatim>\<open>kt_wchan\<close> names.\<close>

theorem sched_sleep_on_loses_nobody:
  assumes "sched_inv s" and "curthr s = Some c" and "threads s c = Some thr" and "kt_wchan thr = None"
    and "q \<noteq> Runq" and "waiting Runq s = t # ts"
  shows "\<exists>s'. sched_sleep_on K irqs q s = Inr s' \<and> sched_inv s' \<and> curthr s' = Some t \<and>
     waiting Runq s' = ts \<and> waiting q s' = waiting q s @ [c]"
  by (rule sched_sleep_on_next [OF assms])

theorem sched_sleep_on_loses_nobody_witness:
  "\<exists>s'. sched_sleep_on i386 [] (Mutexq 5) three_threads = Inr s' \<and> curthr s' = Some 3 \<and>
        waiting (Mutexq 5) s' = [2, 1]"
  using sched_sleep_on_loses_nobody [OF three_threads_inv, of 1 "mk_thread KT_RUN None" "Mutexq 5" 3 "[]" i386 "[]"]
  by (auto simp: three_threads_defs waiting_def)

text \<open>C21: \<^verbatim>\<open>sched_broadcast_on\<close> terminates and wakes everybody: all the threads of the wait
  queue are appended to the run queue in the order in which they arrived, no other queue changes, and
  the interrupt level is the caller's again.\<close>

theorem sched_broadcast_on_wakes_all:
  assumes "queue_inv s" and "state_ok s" and "q \<noteq> Runq"
  shows "\<exists>s'. sched_broadcast_on K q s = Inr s' \<and> queue_inv s' \<and> state_ok s' \<and> waiting q s' = [] \<and>
     waiting Runq s' = waiting Runq s @ waiting q s \<and>
     (\<forall>r. r \<noteq> q \<longrightarrow> r \<noteq> Runq \<longrightarrow> waiting r s' = waiting r s) \<and> curthr s' = curthr s \<and> ipl s' = ipl s"
  using sched_broadcast_on_all [OF assms, of K] by blast

theorem sched_broadcast_on_wakes_all_witness:
  "\<exists>s'. sched_broadcast_on i386 (Mutexq 5) three_threads = Inr s' \<and> waiting Runq s' = [3, 2]"
  using sched_broadcast_on_wakes_all [of three_threads "Mutexq 5" i386] three_threads_inv
  by (auto simp: sched_inv_def three_threads_defs waiting_def)

text \<open>C22: \<^verbatim>\<open>sched_switch\<close> with an empty run queue lets interrupts in until one makes a thread
  runnable, and then switches to that thread.  It waits with the interrupt level at \<^verbatim>\<open>IPL_LOW\<close>: an interrupt
  above that level whose handler wakes the first thread of some wait queue ends the wait, and the call returns in that thread, also
  after any number of interrupts that wake nobody or are too low to get through.  As long as there are only interrupts
  of those kinds the call does not return.\<close>

theorem sched_switch_after_interrupt:
  assumes "parked_inv s" and "curthr s = Some c" and "waiting Runq s = []" and "q \<noteq> Runq"
    and "waiting q s = t # ts" and "\<forall>(level, h)\<in>set early. level \<le> IPL_LOW K \<or> wakes_nobody h" and "IPL_LOW K < level"
    and "h = (\<lambda>u. case sched_wakeup_on K q u of Inr (_, u') \<Rightarrow> u' | Inl _ \<Rightarrow> u)"
  shows "(\<exists>s'. sched_switch K (early @ (level, h) # irqs) s = Inr s' \<and> sched_inv s' \<and> curthr s' = Some t \<and>
      waiting Runq s' = [] \<and> waiting q s' = ts \<and> (\<forall>r. r \<noteq> Runq \<longrightarrow> r \<noteq> q \<longrightarrow> waiting r s' = waiting r s)) \<and>
    sched_switch K early s = Inl Never_returns"
proof -
  let ?s0 = "intr_setipl (IPL_HIGH K) s"
  have e: "sched_queue_empty Runq ?s0" using assms(3) by (simp add: sched_queue_empty_def waiting_def)
  obtain s1 where s1: "\<And>irqs. await_runnable K (early @ irqs) ?s0 = await_runnable K irqs s1"
      "threads s1 = threads s" "queues s1 = queues s" "curthr s1 = curthr s"
    using await_runnable_goes_on [OF e assms(6)] by auto
  let ?u = "intr_enable (intr_setipl (IPL_LOW K) (intr_disable s1))"
  have e1: "sched_queue_empty Runq s1" using e s1 by (simp add: sched_queue_empty_def)
  have pu: "parked_inv ?u" using sched_inv_same(4) [of ?u s] assms(1) s1 by simp
  have wu: "waiting r ?u = waiting r s" for r by (simp add: waiting_def s1)
  obtain u' where u': "sched_wakeup_on K q ?u = Inr (Some t, u')" "queue_inv u'" "state_ok u'"
      "\<forall>c. queued_except c ?u \<longrightarrow> queued_except c u'" "waiting q u' = ts" "waiting Runq u' = [t]"
      "\<forall>r. r \<noteq> q \<longrightarrow> r \<noteq> Runq \<longrightarrow> waiting r u' = waiting r s" "curthr u' = Some c"
    using sched_wakeup_on_first [of ?u q t ts K] pu assms(2-5) wu s1(4) by (auto simp: parked_inv_def)
  let ?s1 = "intr_setipl (IPL_HIGH K) u'"
  have w: "waiting r ?s1 = waiting r u'" for r by (simp add: waiting_def)
  have aw: "await_runnable K (early @ (level, h) # irqs) ?s0 = Inr ?s1"
    using s1(1) await_runnable_arrives [OF e1 assms(7), of h irqs] await_runnable_now [of ?s1 K irqs] assms(8) u' w by simp
  have "parked_inv ?s1" using sched_inv_same(4) [of ?s1 u'] u' pu by (simp add: parked_inv_def)
  moreover have "sched_switch K early s = Inl Never_returns"
    using s1(1) [of "[]"] e1 by (simp add: sched_switch_def Let_def await_runnable.simps [of K "[]"])
  ultimately show ?thesis using sched_switch_from [OF _ aw, of t "[]" c] u' assms(4) w by auto
qed

definition all_asleep :: kstate where
  "all_asleep = three_threads\<lparr>
     threads := (threads three_threads)(1 \<mapsto> mk_thread KT_SLEEP (Some (Waitq 7)),
                                        3 \<mapsto> mk_thread KT_SLEEP (Some (Devq 0))),
     queues := (queues three_threads)(Runq := empty_queue, Waitq 7 := \<lparr>tq_list = [1], tq_size = 1\<rparr>,
                                       Devq 0 := \<lparr>tq_list = [3], tq_size = 1\<rparr>)\<rparr>"

theorem sched_switch_after_interrupt_witness:
  "\<exists>h s'. sched_switch i386 [(32, \<lambda>s. s), (0, h), (46, h)] all_asleep = Inr s' \<and> curthr s' = Some 3 \<and>
     sched_switch i386 [(32, \<lambda>s. s), (0, h)] all_asleep = Inl Never_returns"
proof -
  have inv: "parked_inv all_asleep"
    by (auto simp: all_asleep_def three_threads_defs parked_inv_def queue_inv_def state_ok_def queued_except_def
        sleeping_def live_state_def)
  have st: "curthr all_asleep = Some 1" "waiting Runq all_asleep = []" "Devq 0 \<noteq> Runq"
    "waiting (Devq 0) all_asleep = [3]"
    by (simp_all add: all_asleep_def three_threads_defs waiting_def)
  define h where "h = (\<lambda>u. case sched_wakeup_on i386 (Devq 0) u of Inr (_, u') \<Rightarrow> u' | Inl _ \<Rightarrow> u)"
  have "\<forall>(level, g)\<in>set [(32, \<lambda>s. s), (0, h)]. level \<le> IPL_LOW i386 \<or> wakes_nobody g"
    by (simp add: i386_def wakes_nobody_def)
  from sched_switch_after_interrupt [OF inv st this _ h_def, of 46 "[]"] show ?thesis by (intro exI [of _ h]) (auto simp: i386_def)
qed

end
