(* ===== verification/Kmutex.thy ===== *)
theory Kmutex
  imports Sched
begin

text \<open>
  The mutexes of \<^verbatim>\<open>kernel/proc/kmutex.c\<close>.  The structure
  \<^verbatim>\<open>kmutex_t\<close> is split in two: the field \<^verbatim>\<open>km_holder\<close> of the
  mutex \<open>m\<close> is \<open>km_holder s m\<close>, its wait queue is the
  queue \<open>Mutexq m\<close>.  A call that has to wait ends, like
  \<^verbatim>\<open>sched_sleep_on\<close>, in the state of the next thread.
\<close>

section \<open>Operations\<close>

definition kmutex_init :: "ptr \<Rightarrow> kstate \<Rightarrow> kstate" where
  "kmutex_init m s = sched_queue_init (Mutexq m) (s\<lparr>km_holder := (km_holder s)(m := None)\<rparr>)"

definition kmutex_lock :: "kconsts \<Rightarrow> interrupt list \<Rightarrow> ptr \<Rightarrow> kstate \<Rightarrow> kstate res" where
  "kmutex_lock K irqs m s =
     (if \<not> (curthr s \<noteq> None \<and> curthr s \<noteq> km_holder s m) then Inl KASSERT_failed
      else if km_holder s m \<noteq> None then sched_sleep_on K irqs (Mutexq m) s
      else Inr (s\<lparr>km_holder := (km_holder s)(m := curthr s)\<rparr>))"

definition kmutex_unlock :: "kconsts \<Rightarrow> ptr \<Rightarrow> kstate \<Rightarrow> kstate res" where
  "kmutex_unlock K m s =
     (if \<not> (curthr s \<noteq> None \<and> curthr s = km_holder s m) then Inl KASSERT_failed
      else
        bindE (if sched_queue_empty (Mutexq m) s
               then Inr (s\<lparr>km_holder := (km_holder s)(m := None)\<rparr>)
               else bindE (sched_wakeup_on K (Mutexq m) s) (\<lambda>(t, s1).
                      Inr (s1\<lparr>km_holder := (km_holder s1)(m := t)\<rparr>)))
          (\<lambda>s2. if curthr s2 \<noteq> km_holder s2 m then Inr s2 else Inl KASSERT_failed))"

text \<open>
  As for \<^verbatim>\<open>sched_cancellable_sleep_on\<close>, the result is \<open>None\<close> when
  the caller sleeps; \<open>kmutex_lock_cancellable_resume\<close> is the rest of the
  routine, run when the sleeper is current again.
\<close>

definition kmutex_lock_cancellable_rest :: "kconsts \<Rightarrow> ptr \<Rightarrow> int \<Rightarrow> kstate \<Rightarrow> (int \<times> kstate) res" where
  "kmutex_lock_cancellable_rest K m retval s =
     (if retval = - errno K EINTR
      then bindE (kmutex_unlock K m s) (\<lambda>s'. Inr (retval, s'))
      else Inr (retval, s))"

definition kmutex_lock_cancellable ::
  "kconsts \<Rightarrow> interrupt list \<Rightarrow> ptr \<Rightarrow> kstate \<Rightarrow> (int option \<times> kstate) res" where
  "kmutex_lock_cancellable K irqs m s =
     (if \<not> (curthr s \<noteq> None \<and> curthr s \<noteq> km_holder s m) then Inl KASSERT_failed
      else
        bindE (deref (curthr s)) (\<lambda>t.
        bindE (deref (threads s t)) (\<lambda>thr.
          if kt_cancelled thr \<noteq> 1 then
            if km_holder s m \<noteq> None then
              bindE (sched_cancellable_sleep_on K irqs (Mutexq m) s) (\<lambda>(r, s1).
                case r of
                  None \<Rightarrow> Inr (None, s1)
                | Some retval \<Rightarrow>
                    bindE (kmutex_lock_cancellable_rest K m retval s1) (\<lambda>(v, s2). Inr (Some v, s2)))
            else Inr (Some 0, s\<lparr>km_holder := (km_holder s)(m := curthr s)\<rparr>)
          else Inr (Some (- errno K EINTR), s))))"

definition kmutex_lock_cancellable_resume :: "kconsts \<Rightarrow> ptr \<Rightarrow> kstate \<Rightarrow> (int \<times> kstate) res" where
  "kmutex_lock_cancellable_resume K m s =
     bindE (sched_cancellable_resume K s) (\<lambda>retval. kmutex_lock_cancellable_rest K m retval s)"

section \<open>The mutex as a FIFO lock\<close>

text \<open>
  The contract: a lock is a holder and a line of waiters.  Locking takes a free
  lock and joins the line of a taken one; unlocking hands the lock to the
  first in line, if there is one.
\<close>

type_synonym fifo_lock = "ptr option \<times> ptr list"

fun spec_lock :: "ptr \<Rightarrow> fifo_lock \<Rightarrow> fifo_lock" where
  "spec_lock c (None, ws) = (Some c, ws)"
| "spec_lock c (Some h, ws) = (Some h, ws @ [c])"

fun spec_unlock :: "fifo_lock \<Rightarrow> fifo_lock" where
  "spec_unlock (h, []) = (None, [])"
| "spec_unlock (h, w # ws) = (Some w, ws)"

definition mutex_view :: "ptr \<Rightarrow> kstate \<Rightarrow> fifo_lock" where
  "mutex_view m s = (km_holder s m, waiting (Mutexq m) s)"

text \<open>The thread that executes is in the run state and on no queue.\<close>

definition running :: "kstate \<Rightarrow> ptr \<Rightarrow> bool" where
  "running s c \<longleftrightarrow> curthr s = Some c \<and>
     (case threads s c of Some thr \<Rightarrow> kt_state thr = KT_RUN \<and> kt_wchan thr = None | None \<Rightarrow> False)"

text \<open>
  Mutexes are never locked or unlocked from an interrupt context, so a handler
  leaves every mutex as it was.
\<close>

definition irqs_no_mutex :: "interrupt list \<Rightarrow> bool" where
  "irqs_no_mutex irqs \<longleftrightarrow>
     (\<forall>h\<in>snd ` set irqs. \<forall>s. km_holder (h s) = km_holder s \<and>
        (\<forall>m. waiting (Mutexq m) (h s) = waiting (Mutexq m) s))"

lemma irqs_no_mutexD:
  assumes "irqs_no_mutex irqs" "h \<in> snd ` set irqs"
  shows "km_holder (h s) = km_holder s" "waiting (Mutexq m) (h s) = waiting (Mutexq m) s"
  using assms unfolding irqs_no_mutex_def by blast+

lemma runningD:
  assumes "running s c"
  obtains thr where "curthr s = Some c" "threads s c = Some thr" "kt_wchan thr = None" "kt_state thr = KT_RUN"
  using assms by (auto simp: running_def split: option.splits)

lemma running_not_waiting:
  assumes "queue_inv s" "running s c"
  shows "c \<notin> set (waiting q s)"
  using assms queue_inv_mem [of s c q] by (auto simp: waiting_def elim!: runningD)

lemma sched_inv_holder [simp]: "sched_inv (s\<lparr>km_holder := h\<rparr>) = sched_inv s"
  by (rule sched_inv_same(5)) simp_all

lemma waiting_holder [simp]: "waiting q (s\<lparr>km_holder := h\<rparr>) = waiting q s"
  by (simp add: waiting_def)

lemma sched_invD: "sched_inv s \<Longrightarrow> queue_inv s" "sched_inv s \<Longrightarrow> state_ok s"
    "sched_inv s \<Longrightarrow> queued_except (curthr s) s"
  by (simp_all add: sched_inv_def)

lemma sched_sleep_on_mutex:
  assumes inv: "sched_inv s" and run: "running s c" and sl: "sched_sleep_on K irqs (Mutexq m) s = Inr s'"
    and irqs: "irqs_no_mutex irqs"
  shows "km_holder s' = km_holder s"
    "waiting (Mutexq m') s' = waiting (Mutexq m') s @ (if m' = m then [c] else [])"
proof -
  obtain thr where c: "curthr s = Some c" "threads s c = Some thr" "kt_wchan thr = None"
    using run by (rule runningD)
  have sw: "sched_switch K irqs (parked_state (Mutexq m) c thr KT_SLEEP s) = Inr s'"
    using sl sched_sleep_on_parks [OF sched_invD(1) [OF inv] c] by simp
  show "waiting (Mutexq m') s' = waiting (Mutexq m') s @ (if m' = m then [c] else [])"
    using sched_switch_keeps_queue [OF sw, of "Mutexq m'"] irqs_no_mutexD(2) [OF irqs] by simp
  show "km_holder s' = km_holder s"
    using sched_switch_keeps_holder [OF sw] irqs_no_mutexD(1) [OF irqs] by (simp add: parked_state_def)
qed

lemma kmutex_lock_refines:
  assumes inv: "sched_inv s" and run: "running s c" and irqs: "irqs_no_mutex irqs" "irqs_keep irqs"
    and lk: "kmutex_lock K irqs m s = Inr s'"
  shows "mutex_view m s' = spec_lock c (mutex_view m s) \<and> sched_inv s' \<and>
    (\<forall>m'. m' \<noteq> m \<longrightarrow> mutex_view m' s' = mutex_view m' s)"
proof (cases "km_holder s m")
  case None
  then show ?thesis using lk run inv
    by (auto simp: kmutex_lock_def mutex_view_def elim!: runningD split: if_splits)
next
  case (Some h)
  with lk have sl: "sched_sleep_on K irqs (Mutexq m) s = Inr s'"
    by (simp add: kmutex_lock_def split: if_splits)
  obtain thr where c: "curthr s = Some c" "threads s c = Some thr" "kt_wchan thr = None"
    using run by (rule runningD)
  have "sched_inv s'" using sched_sleep_on_inv [OF inv c _ irqs(2) sl] by simp
  with Some sched_sleep_on_mutex [OF inv run sl irqs(1)] show ?thesis by (simp add: mutex_view_def)
qed

lemma kmutex_unlock_ok:
  assumes inv: "sched_inv s" and run: "running s c" and h: "km_holder s m = Some c"
  shows "\<exists>s'. kmutex_unlock K m s = Inr s' \<and> sched_inv s' \<and> curthr s' = Some c \<and>
    mutex_view m s' = spec_unlock (mutex_view m s) \<and>
    (\<forall>m'. m' \<noteq> m \<longrightarrow> mutex_view m' s' = mutex_view m' s) \<and>
    waiting Runq s' = waiting Runq s @ take 1 (waiting (Mutexq m) s)"
proof (cases "waiting (Mutexq m) s")
  case Nil
  then show ?thesis using run h inv
    by (auto simp: kmutex_unlock_def sched_queue_empty_def mutex_view_def waiting_def elim!: runningD)
next
  case (Cons w ws)
  obtain s1 where s1: "sched_wakeup_on K (Mutexq m) s = Inr (Some w, s1)" "queue_inv s1" "state_ok s1"
      "\<forall>c. queued_except c s \<longrightarrow> queued_except c s1" "waiting (Mutexq m) s1 = ws"
      "waiting Runq s1 = waiting Runq s @ [w]"
      "\<forall>r. r \<noteq> Mutexq m \<longrightarrow> r \<noteq> Runq \<longrightarrow> waiting r s1 = waiting r s" "curthr s1 = curthr s"
    using sched_wakeup_on_first [OF sched_invD(1,2) [OF inv], of "Mutexq m" w ws K] Cons by blast
  have "w \<noteq> c" using running_not_waiting [OF sched_invD(1) [OF inv] run, of "Mutexq m"] Cons by auto
  moreover have "km_holder s1 = km_holder s" using kern_restD(1) [OF sched_wakeup_on_rest [OF s1(1)]] .
  moreover have "sched_inv s1" using s1 inv by (simp add: sched_inv_def)
  moreover have "curthr s = Some c" using run by (simp add: running_def)
  moreover have "\<not> sched_queue_empty (Mutexq m) s" using Cons by (auto simp: sched_queue_empty_def waiting_def)
  ultimately show ?thesis using s1 Cons h
    by (simp add: kmutex_unlock_def mutex_view_def)
qed

section \<open>Cancellable locking\<close>

lemma sched_cancellable_sleep_on_mutex:
  assumes inv: "sched_inv s" and run: "running s c"
    and nc: "threads s c = Some thr" "kt_cancelled thr \<noteq> 1"
    and sl: "sched_cancellable_sleep_on K irqs (Mutexq m) s = Inr (r, s')"
    and irqs: "irqs_no_mutex irqs" "irqs_keep irqs"
  shows "r = None \<and> sched_inv s' \<and> km_holder s' = km_holder s \<and>
    waiting (Mutexq m) s' = waiting (Mutexq m) s @ [c]"
proof -
  have c: "curthr s = Some c" "threads s c = Some thr" "kt_wchan thr = None"
    using run nc by (auto elim!: runningD)
  let ?p = "parked_state (Mutexq m) c thr KT_SLEEP_CANCELLABLE (intr_disable s)"
  from sl obtain "r = None" and sw: "sched_switch K irqs (intr_enable ?p) = Inr s'"
    unfolding sched_cancellable_sleep_on_parks [OF sched_invD(1) [OF inv] c nc(2)]
    by (auto elim!: bindE_InrE)
  have "sched_inv (intr_disable s)" using sched_inv_same(5) [of "intr_disable s" s] inv by simp
  then have "parked_inv ?p"
    using parked_state_inv [of "intr_disable s" c thr "Mutexq m" KT_SLEEP_CANCELLABLE] c
    by (simp add: sleeping_def)
  then have "parked_inv (intr_enable ?p)" using sched_inv_same(4) [of "intr_enable ?p" ?p] by simp
  from sched_switch_inv [OF sw this irqs(2)] c have "sched_inv s'" by simp
  moreover have "waiting (Mutexq m) s' = waiting (Mutexq m) (intr_enable ?p)"
    by (rule sched_switch_keeps_queue [OF sw]) (simp_all add: irqs_no_mutexD(2) [OF irqs(1)])
  moreover have "km_holder s' = km_holder (intr_enable ?p)"
    by (rule sched_switch_keeps_holder [OF sw]) (rule irqs_no_mutexD(1) [OF irqs(1)])
  ultimately show ?thesis using \<open>r = None\<close>
    by (simp add: waiting_def intr_enable_def intr_disable_def parked_state_def)
qed

lemma kmutex_lock_cancellable_outcome:
  assumes inv: "sched_inv s" and run: "running s c" and irqs: "irqs_no_mutex irqs" "irqs_keep irqs"
    and lk: "kmutex_lock_cancellable K irqs m s = Inr (r, s')"
  shows "sched_inv s' \<and>
    (if r = None then km_holder s m \<noteq> None \<and> mutex_view m s' = (km_holder s m, waiting (Mutexq m) s @ [c])
     else if km_holder s' m = km_holder s m then r = Some (- errno K EINTR) \<and> s' = s
     else r = Some 0 \<and> km_holder s m = None \<and> mutex_view m s' = (Some c, waiting (Mutexq m) s))"
proof -
  obtain thr where c: "curthr s = Some c" "threads s c = Some thr" using run by (rule runningD)
  show ?thesis
  proof (cases "kt_cancelled thr \<noteq> 1 \<and> km_holder s m \<noteq> None")
    case False
    with lk c inv show ?thesis by (auto simp: kmutex_lock_cancellable_def mutex_view_def split: if_splits)
  next
    case True
    with lk c obtain r0 s1 where "sched_cancellable_sleep_on K irqs (Mutexq m) s = Inr (r0, s1)"
      "(case r0 of None \<Rightarrow> Inr (None, s1)
        | Some retval \<Rightarrow> bindE (kmutex_lock_cancellable_rest K m retval s1) (\<lambda>(v, s2). Inr (Some v, s2)))
         = Inr (r, s')"
      by (auto simp: kmutex_lock_cancellable_def elim!: bindE_InrE split: if_splits)
    with sched_cancellable_sleep_on_mutex [OF inv run c(2) _ this(1) irqs] True
    show ?thesis by (auto simp: mutex_view_def)
  qed
qed

section \<open>Every run of the mutex\<close>

text \<open>
  The threads of the kernel drive a mutex \<open>m\<close> through the steps below;
  between them anything may happen that leaves the mutex and the scheduling
  invariant alone.  The second component collects the threads that own the
  mutex as their program sees it: those to which a lock call has returned (a
  waiter's call returns once it has left the line because of an unlock) and
  that have not unlocked since.
\<close>

abbreviation left_line :: "ptr \<Rightarrow> kstate \<Rightarrow> kstate \<Rightarrow> ptr set" where
  "left_line m s s' \<equiv> set (waiting (Mutexq m) s) - set (waiting (Mutexq m) s')"

inductive mutex_run :: "kconsts \<Rightarrow> interrupt list \<Rightarrow> ptr \<Rightarrow> kstate \<Rightarrow> ptr set \<Rightarrow> bool"
  for K irqs m where
  start: "sched_inv s \<Longrightarrow> mutex_view m s = (None, []) \<Longrightarrow> mutex_run K irqs m s {}"
| lock_taken: "mutex_run K irqs m s own \<Longrightarrow> running s c \<Longrightarrow> km_holder s m = None \<Longrightarrow>
    kmutex_lock K irqs m s = Inr s' \<Longrightarrow> mutex_run K irqs m s' (insert c own)"
| lock_waits: "mutex_run K irqs m s own \<Longrightarrow> running s c \<Longrightarrow> km_holder s m \<noteq> None \<Longrightarrow>
    kmutex_lock K irqs m s = Inr s' \<Longrightarrow> mutex_run K irqs m s' own"
| lock_cancellable: "mutex_run K irqs m s own \<Longrightarrow> running s c \<Longrightarrow>
    kmutex_lock_cancellable K irqs m s = Inr (r, s') \<Longrightarrow>
    mutex_run K irqs m s' (if r = Some 0 then insert c own else own)"
| resume: "mutex_run K irqs m s own \<Longrightarrow> running s c \<Longrightarrow>
    kmutex_lock_cancellable_resume K m s = Inr (r, s') \<Longrightarrow>
    mutex_run K irqs m s' (if r = 0 then own else own - {c} \<union> left_line m s s')"
| unlock: "mutex_run K irqs m s own \<Longrightarrow> running s c \<Longrightarrow> kmutex_unlock K m s = Inr s' \<Longrightarrow>
    mutex_run K irqs m s' (own - {c} \<union> left_line m s s')"
| cancel: "mutex_run K irqs m s own \<Longrightarrow> sched_cancel K t s = Inr s' \<Longrightarrow> mutex_run K irqs m s' own"
| other: "mutex_run K irqs m s own \<Longrightarrow> sched_inv s' \<Longrightarrow> mutex_view m s' = mutex_view m s \<Longrightarrow>
    mutex_run K irqs m s' own"

definition mutex_inv :: "ptr \<Rightarrow> kstate \<Rightarrow> ptr set \<Rightarrow> bool" where
  "mutex_inv m s own \<longleftrightarrow> sched_inv s \<and> own = set_option (km_holder s m) \<and>
     (km_holder s m = None \<longrightarrow> waiting (Mutexq m) s = [])"

lemma mutex_inv_unlock:
  assumes inv: "mutex_inv m s own" and run: "running s c" and un: "kmutex_unlock K m s = Inr s'"
  shows "mutex_inv m s' (own - {c} \<union> left_line m s s')"
proof -
  have si: "sched_inv s" and own: "own = set_option (km_holder s m)" using inv by (auto simp: mutex_inv_def)
  have h: "km_holder s m = Some c"
    using un run by (auto simp: kmutex_unlock_def running_def split: if_splits)
  from kmutex_unlock_ok [OF si run h, of K] un
  have s': "sched_inv s'" "mutex_view m s' = spec_unlock (mutex_view m s)" by auto
  have d: "distinct (waiting (Mutexq m) s)"
    using queue_inv_distinct [OF sched_invD(1) [OF si]] by (simp add: waiting_def)
  show ?thesis
    using s' own h d by (cases "waiting (Mutexq m) s") (auto simp: mutex_inv_def mutex_view_def)
qed

lemma mutex_run_inv:
  assumes "mutex_run K irqs m s own" and irqs: "irqs_no_mutex irqs" "irqs_keep irqs"
    and e: "errno K EINTR > 0"
  shows "mutex_inv m s own"
  using assms(1)
proof (induction rule: mutex_run.induct)
  case (start s)
  then show ?case by (simp add: mutex_inv_def mutex_view_def)
next
  case (lock_taken s own c s')
  with kmutex_lock_refines [OF _ lock_taken(2) irqs lock_taken(4)]
  show ?case by (auto simp: mutex_inv_def mutex_view_def)
next
  case (lock_waits s own c s')
  with kmutex_lock_refines [OF _ lock_waits(2) irqs lock_waits(4)]
  show ?case by (auto simp: mutex_inv_def mutex_view_def)
next
  case (lock_cancellable s own c r s')
  with kmutex_lock_cancellable_outcome [OF _ lock_cancellable(2) irqs lock_cancellable(3)] e
  show ?case by (auto simp: mutex_inv_def mutex_view_def split: if_splits)
next
  case (resume s own c r s')
  show ?case
  proof (cases "r = 0")
    case True
    then have "s' = s" using resume(3) e
      by (auto simp: kmutex_lock_cancellable_resume_def kmutex_lock_cancellable_rest_def
          elim!: bindE_InrE split: if_splits)
    with True resume show ?thesis by simp
  next
    case False
    then have "kmutex_unlock K m s = Inr s'" using resume(3)
      by (auto simp: kmutex_lock_cancellable_resume_def kmutex_lock_cancellable_rest_def
          sched_cancellable_resume_def elim!: bindE_InrE split: if_splits)
    from mutex_inv_unlock [OF resume(4,2) this] False show ?thesis by simp
  qed
next
  case (unlock s own c s')
  then show ?case using mutex_inv_unlock by blast
next
  case (cancel s own t s')
  have "km_holder s' = km_holder s" using kern_restD(1) [OF sched_cancel_rest [OF cancel(2)]] .
  moreover have "sched_inv s' \<and> set (waiting (Mutexq m) s') \<subseteq> set (waiting (Mutexq m) s)"
    using cancel sched_cancel_inv [OF _ cancel(2)] by (simp add: mutex_inv_def)
  ultimately show ?case using cancel by (auto simp: mutex_inv_def)
next
  case (other s own s')
  then show ?case by (simp add: mutex_inv_def mutex_view_def)
qed


section \<open>Properties\<close>

text \<open>C5: mutual exclusion and no lost wake-up.  In every run of a mutex, whatever the threads that
  lock, unlock, cancel and are cancelled do and whatever else happens in between, at most one thread
  owns the mutex, it is the one recorded in \<^verbatim>\<open>km_holder\<close>, and as long as nobody
  holds the mutex nobody waits for it.\<close>

theorem mutex_exclusive:
  assumes "mutex_run K irqs m s own" and "irqs_no_mutex irqs" and "irqs_keep irqs" and "errno K EINTR > 0"
  shows "own = set_option (km_holder s m) \<and> card own \<le> 1 \<and>
    (km_holder s m = None \<longrightarrow> waiting (Mutexq m) s = [])"
  using mutex_run_inv [OF assms] by (cases "km_holder s m") (simp_all add: mutex_inv_def)

lemma three_threads_running: "running three_threads 1"
  by (simp add: running_def three_threads_defs)

lemma three_threads_run:
  "mutex_run i386 [] 9 (three_threads\<lparr>km_holder := (km_holder three_threads)(9 \<mapsto> 1)\<rparr>) {1}"
proof -
  have "mutex_run i386 [] 9 three_threads {}"
    by (rule mutex_run.start [OF three_threads_inv]) (simp add: mutex_view_def waiting_def three_threads_defs)
  from mutex_run.lock_taken [OF this three_threads_running] show ?thesis
    by (simp add: kmutex_lock_def three_threads_defs)
qed

lemma no_irqs [simp]: "irqs_no_mutex []" "irqs_keep []"
  by (simp_all add: irqs_no_mutex_def irqs_keep_def)

theorem mutex_exclusive_witness:
  "{1} = set_option (km_holder (three_threads\<lparr>km_holder := (km_holder three_threads)(9 \<mapsto> 1)\<rparr>) 9)"
  using mutex_exclusive [OF three_threads_run] by (simp add: i386_def)

text \<open>C10: a mutex is a first-come-first-served lock.  A call of \<^verbatim>\<open>kmutex_lock\<close> that gets as
  far as returning or sleeping moves the holder and the line of waiters as the specification of a FIFO
  lock says and touches no other mutex; \<^verbatim>\<open>kmutex_unlock\<close> by the holder always returns without
  sleeping, hands the mutex to the thread that has waited longest, or frees it, and puts that thread,
  and no other, on the run queue.\<close>

theorem kmutex_fifo:
  assumes "sched_inv s" and "running s c" and "irqs_no_mutex irqs" and "irqs_keep irqs"
  shows "(\<forall>s'. kmutex_lock K irqs m s = Inr s' \<longrightarrow>
            mutex_view m s' = spec_lock c (mutex_view m s) \<and> sched_inv s' \<and>
            (\<forall>m'. m' \<noteq> m \<longrightarrow> mutex_view m' s' = mutex_view m' s)) \<and>
    (km_holder s m = Some c \<longrightarrow>
       (\<exists>s'. kmutex_unlock K m s = Inr s' \<and> sched_inv s' \<and> curthr s' = Some c \<and>
          mutex_view m s' = spec_unlock (mutex_view m s) \<and>
          (\<forall>m'. m' \<noteq> m \<longrightarrow> mutex_view m' s' = mutex_view m' s) \<and>
          waiting Runq s' = waiting Runq s @ take 1 (waiting (Mutexq m) s)))"
  using kmutex_lock_refines [OF assms] kmutex_unlock_ok [OF assms(1,2)] by blast

theorem kmutex_fifo_witness:
  "\<exists>s'. kmutex_unlock i386 5 three_threads = Inr s' \<and> mutex_view 5 s' = (Some 2, []) \<and>
        waiting Runq s' = [3, 2]"
  using kmutex_fifo [OF three_threads_inv three_threads_running no_irqs, where m = 5 and K = i386]
  by (auto simp: mutex_view_def waiting_def three_threads_defs)

text \<open>C18: cancelling a thread that waits in \<^verbatim>\<open>kmutex_lock_cancellable\<close> stops the kernel.  The
  cancellation takes the waiter out of the line without giving it the mutex; when it runs again, the
  routine sees \<^verbatim>\<open>-EINTR\<close> and calls \<^verbatim>\<open>kmutex_unlock\<close> on a mutex that some other
  thread holds, and the assertion there fails.\<close>

theorem kmutex_cancelled_waiter_panics:
  assumes "sched_inv s" and "threads s t = Some thr" and "kt_state thr = KT_SLEEP_CANCELLABLE"
    and "kt_wchan thr = Some (Mutexq m)" and "km_holder s m \<noteq> Some t"
  shows "\<exists>s'. sched_cancel K t s = Inr s' \<and> t \<notin> set (waiting (Mutexq m) s') \<and> t \<in> set (waiting Runq s') \<and>
    (\<forall>s''. curthr s'' = Some t \<longrightarrow> km_holder s'' m = km_holder s' m \<longrightarrow>
       map_option kt_cancelled (threads s'' t) = map_option kt_cancelled (threads s' t) \<longrightarrow>
       kmutex_lock_cancellable_resume K m s'' = Inl KASSERT_failed)"
proof -
  obtain s' thr' where s': "sched_cancel K t s = Inr s'" "waiting Runq s' = waiting Runq s @ [t]"
      "waiting (Mutexq m) s' = remove1 t (waiting (Mutexq m) s)"
      "threads s' t = Some thr'" "kt_cancelled thr' = 1"
    using sched_cancel_cancellable [OF assms(1-4), of K] by blast
  have "distinct (waiting (Mutexq m) s)"
    using queue_inv_distinct [OF sched_invD(1) [OF assms(1)]] by (simp add: waiting_def)
  moreover have "km_holder s' = km_holder s" using kern_restD(1) [OF sched_cancel_rest [OF s'(1)]] .
  ultimately show ?thesis using s' assms(5)
    by (auto simp: kmutex_lock_cancellable_resume_def sched_cancellable_resume_def
        kmutex_lock_cancellable_rest_def kmutex_unlock_def)
qed

theorem kmutex_cancelled_waiter_panics_witness:
  "\<exists>s'. sched_cancel i386 2 three_threads = Inr s' \<and>
     kmutex_lock_cancellable_resume i386 5 (s'\<lparr>curthr := Some 2\<rparr>) = Inl KASSERT_failed"
proof -
  have t: "threads three_threads 2 = Some (mk_thread KT_SLEEP_CANCELLABLE (Some (Mutexq 5)))"
    and h: "km_holder three_threads 5 \<noteq> Some 2" by (simp_all add: three_threads_defs)
  have "kt_state (mk_thread KT_SLEEP_CANCELLABLE (Some (Mutexq 5))) = KT_SLEEP_CANCELLABLE"
    "kt_wchan (mk_thread KT_SLEEP_CANCELLABLE (Some (Mutexq 5))) = Some (Mutexq 5)"
    by (simp_all add: mk_thread_def)
  from kmutex_cancelled_waiter_panics [OF three_threads_inv t this h, of i386] show ?thesis by force
qed

section \<open>Waiting is bounded\<close>

text \<open>
  What the users of a mutex rely on, for any implementation: a holder and a
  line.  \<open>lock_steps\<close> is a run in which threads call the two operations in
  any order, with anything in between that leaves the mutex alone, and counts
  the unlocks.
\<close>

inductive lock_steps ::
  "('m \<Rightarrow> 's \<Rightarrow> 's res) \<Rightarrow> ('m \<Rightarrow> 's \<Rightarrow> 's res) \<Rightarrow> ('m \<Rightarrow> 's \<Rightarrow> 't option \<times> 't list) \<Rightarrow> ('s \<Rightarrow> bool) \<Rightarrow> ('s \<Rightarrow> 't \<Rightarrow> bool) \<Rightarrow>
   'm \<Rightarrow> 's \<Rightarrow> nat \<Rightarrow> 's \<Rightarrow> bool"
  for lock unlock view inv runs m s where
  here: "lock_steps lock unlock view inv runs m s 0 s"
| locks: "lock_steps lock unlock view inv runs m s n s1 \<Longrightarrow> runs s1 c \<Longrightarrow> lock m s1 = Inr s2 \<Longrightarrow>
    lock_steps lock unlock view inv runs m s n s2"
| unlocks: "lock_steps lock unlock view inv runs m s n s1 \<Longrightarrow> runs s1 c \<Longrightarrow> unlock m s1 = Inr s2 \<Longrightarrow>
    lock_steps lock unlock view inv runs m s (Suc n) s2"
| others: "lock_steps lock unlock view inv runs m s n s1 \<Longrightarrow> inv s2 \<Longrightarrow> view m s2 = view m s1 \<Longrightarrow>
    lock_steps lock unlock view inv runs m s n s2"

locale fifo_mutex =
  fixes lock unlock :: "'m \<Rightarrow> 's \<Rightarrow> 's res"
    and view :: "'m \<Rightarrow> 's \<Rightarrow> 't option \<times> 't list"
    and inv :: "'s \<Rightarrow> bool"
    and runs :: "'s \<Rightarrow> 't \<Rightarrow> bool"
  assumes lock_view: "inv s \<Longrightarrow> runs s c \<Longrightarrow> lock m s = Inr s' \<Longrightarrow>
      inv s' \<and> view m s' = (case view m s of (None, ws) \<Rightarrow> (Some c, ws) | (Some h, ws) \<Rightarrow> (Some h, ws @ [c]))"
    and unlock_view: "inv s \<Longrightarrow> runs s c \<Longrightarrow> unlock m s = Inr s' \<Longrightarrow>
      inv s' \<and> view m s' = (case view m s of (h, []) \<Rightarrow> (None, []) | (h, w # ws) \<Rightarrow> (Some w, ws))"
begin

lemma steps_inv: "lock_steps lock unlock view inv runs m s n s' \<Longrightarrow> inv s \<Longrightarrow> inv s'"
  by (induction rule: lock_steps.induct) (auto dest: lock_view unlock_view)

lemma bounded_waiting:
  assumes "lock_steps lock unlock view inv runs m s n s'" and "inv s" and "view m s = (Some h, ws)" and "n \<le> length ws"
  shows "\<exists>xs. view m s' = (Some ((h # ws) ! n), drop n ws @ xs)"
  using assms
proof (induction rule: lock_steps.induct)
  case here
  then show ?case by simp
next
  case (locks n s1 c s2)
  then obtain xs where "view m s1 = (Some ((h # ws) ! n), drop n ws @ xs)" by blast
  then have "view m s2 = (Some ((h # ws) ! n), drop n ws @ (xs @ [c]))"
    using lock_view [OF steps_inv [OF locks(1,5)] locks(2,3)] by simp
  then show ?case by blast
next
  case (unlocks n s1 c s2)
  then obtain xs where "view m s1 = (Some ((h # ws) ! n), drop n ws @ xs)" by auto
  moreover have "drop n ws = ws ! n # drop (Suc n) ws" using unlocks(7) by (simp add: Cons_nth_drop_Suc)
  ultimately show ?case using unlock_view [OF steps_inv [OF unlocks(1,5)] unlocks(2,3)] by auto
next
  case (others n s1 s2)
  then show ?case by auto
qed

end

lemma unlock_holder: "running s c \<Longrightarrow> kmutex_unlock K m s = Inr s' \<Longrightarrow> km_holder s m = Some c"
  by (auto simp: kmutex_unlock_def running_def split: if_splits)

interpretation kmu: fifo_mutex "kmutex_lock K irqs" "kmutex_unlock K" mutex_view
    "\<lambda>s. sched_inv s \<and> irqs_no_mutex irqs \<and> irqs_keep irqs" running for K irqs
proof unfold_locales
  fix s c m s'
  assume i: "sched_inv s \<and> irqs_no_mutex irqs \<and> irqs_keep irqs" and r: "running s c" and l: "kmutex_lock K irqs m s = Inr s'"
  show "(sched_inv s' \<and> irqs_no_mutex irqs \<and> irqs_keep irqs) \<and>
      mutex_view m s' = (case mutex_view m s of (None, ws) \<Rightarrow> (Some c, ws) | (Some h, ws) \<Rightarrow> (Some h, ws @ [c]))"
    using kmutex_lock_refines [OF _ r _ _ l] i by (cases "km_holder s m") (auto simp: mutex_view_def)
next
  fix s c m s'
  assume i: "sched_inv s \<and> irqs_no_mutex irqs \<and> irqs_keep irqs" and r: "running s c" and l: "kmutex_unlock K m s = Inr s'"
  show "(sched_inv s' \<and> irqs_no_mutex irqs \<and> irqs_keep irqs) \<and>
      mutex_view m s' = (case mutex_view m s of (h, []) \<Rightarrow> (None, []) | (h, w # ws) \<Rightarrow> (Some w, ws))"
    using kmutex_unlock_ok [OF _ r unlock_holder [OF r l], of K] i l by (cases "waiting (Mutexq m) s") (auto simp: mutex_view_def)
qed

text \<open>C11: no waiter is overtaken and none starves.  In every run in which threads call \<^verbatim>\<open>kmutex_lock\<close> and
  \<^verbatim>\<open>kmutex_unlock\<close> in any order, with anything in between that leaves the mutex alone, the thread at place n of the line
  owns the mutex after exactly n unlocks, however many threads have joined the line since, and the ones behind it have kept
  their places.\<close>

theorem kmutex_bounded_waiting:
  assumes "lock_steps (kmutex_lock K irqs) (kmutex_unlock K) mutex_view (\<lambda>s. sched_inv s \<and> irqs_no_mutex irqs \<and> irqs_keep irqs) running m s n s'"
    and "sched_inv s" and "irqs_no_mutex irqs" and "irqs_keep irqs" and "km_holder s m = Some h" and "n \<le> length (waiting (Mutexq m) s)"
  shows "km_holder s' m = Some ((h # waiting (Mutexq m) s) ! n) \<and> (\<exists>xs. waiting (Mutexq m) s' = drop n (waiting (Mutexq m) s) @ xs)"
  using kmu.bounded_waiting [OF assms(1), of h "waiting (Mutexq m) s"] assms(2-6) by (auto simp: mutex_view_def)

theorem kmutex_bounded_waiting_witness:
  "\<exists>s'. kmutex_unlock i386 5 three_threads = Inr s' \<and> km_holder s' 5 = Some 2"
proof -
  obtain s' where s': "kmutex_unlock i386 5 three_threads = Inr s'"
    using kmutex_unlock_ok [OF three_threads_inv three_threads_running, of 5 i386] by (auto simp: three_threads_defs)
  have "lock_steps (kmutex_lock i386 []) (kmutex_unlock i386) mutex_view (\<lambda>s. sched_inv s \<and> irqs_no_mutex [] \<and> irqs_keep []) running
      5 three_threads (Suc 0) s'"
    by (rule lock_steps.unlocks [where c = 1]) (rule lock_steps.here three_threads_running s')+
  moreover have w: "km_holder three_threads 5 = Some 1" "waiting (Mutexq 5) three_threads = [2]" by (simp_all add: waiting_def three_threads_defs)
  ultimately have "km_holder s' 5 = Some 2" using kmutex_bounded_waiting [OF _ three_threads_inv no_irqs w(1), of i386 "Suc 0" s'] w(2) by simp
  with s' show ?thesis by blast
qed

end
