(* ===== verification/Mmobj.thy ===== *)
theory Mmobj
  imports Kmutex
begin

text \<open>
  Memory objects: creation and reference counting in
  \<^verbatim>\<open>kernel/vm/anon.c\<close> and \<^verbatim>\<open>kernel/vm/shadow.c\<close>, and the call
  through the operation table, \<^verbatim>\<open>o->mmo_ops->ref(o)\<close>.  The other entry
  points call back into the page frame code and follow in the theory
  \<^verbatim>\<open>Pager\<close>.
\<close>

definition upd_obj :: "ptr \<Rightarrow> (mmobj \<Rightarrow> mmobj) \<Rightarrow> kstate \<Rightarrow> kstate" where
  "upd_obj obj f s = s\<lparr>mmobjs := (mmobjs s)(obj := map_option f (mmobjs s obj))\<rparr>"

definition anon_create :: "kext \<Rightarrow> kstate \<Rightarrow> (ptr \<times> kstate) res" where
  "anon_create X s =
     bindE (deref (anon_slab X s)) (\<lambda>anon_obj.
       Inr (anon_obj, s\<lparr>mmobjs := (mmobjs s)(anon_obj \<mapsto>
              (mmobj_init X Anon_ops)\<lparr>mmo_refcount := 1, mmo_nrespages := 0\<rparr>)\<rparr>))"

definition anon_ref :: "ptr \<Rightarrow> kstate \<Rightarrow> kstate res" where
  "anon_ref obj s =
     bindE (deref (mmobjs s obj)) (\<lambda>ob.
       if \<not> (0 < mmo_refcount ob \<and> mmo_ops ob = Anon_ops) then Inl KASSERT_failed
       else Inr (upd_obj obj (\<lambda>x. x\<lparr>mmo_refcount := mmo_refcount x + 1\<rparr>) s))"

definition shadow_create :: "kext \<Rightarrow> kstate \<Rightarrow> (ptr \<times> kstate) res" where
  "shadow_create X s =
     bindE (deref (shadow_slab X s)) (\<lambda>shadow_obj.
       Inr (shadow_obj, s\<lparr>mmobjs := (mmobjs s)(shadow_obj \<mapsto>
              (mmobj_init X Shadow_ops)\<lparr>mmo_refcount := 1\<rparr>)\<rparr>))"

definition shadow_ref :: "ptr \<Rightarrow> kstate \<Rightarrow> kstate res" where
  "shadow_ref obj s =
     bindE (deref (mmobjs s obj)) (\<lambda>ob.
       if \<not> (0 < mmo_refcount ob \<and> mmo_ops ob = Shadow_ops) then Inl KASSERT_failed
       else Inr (upd_obj obj (\<lambda>x. x\<lparr>mmo_refcount := mmo_refcount x + 1\<rparr>) s))"

definition mmobj_ref :: "kext \<Rightarrow> ptr \<Rightarrow> kstate \<Rightarrow> kstate res" where
  "mmobj_ref X obj s =
     bindE (deref (mmobjs s obj)) (\<lambda>ob.
       case mmo_ops ob of
         Anon_ops \<Rightarrow> anon_ref obj s
       | Shadow_ops \<Rightarrow> shadow_ref obj s
       | Other_ops \<Rightarrow> o_ref X obj s)"

text \<open>
  What \<^verbatim>\<open>mmobj_init\<close> is documented to do: it sets the operation table and
  leaves an object with no pages, no areas and nothing shadowed.
\<close>

definition init_ok :: "kext \<Rightarrow> bool" where
  "init_ok X \<longleftrightarrow> (\<forall>ops. mmo_ops (mmobj_init X ops) = ops \<and> mmo_nrespages (mmobj_init X ops) = 0 \<and>
     mmo_respages (mmobj_init X ops) = [] \<and> mmo_shadowed (mmobj_init X ops) = None \<and>
     mmo_vmas (mmobj_init X ops) = [])"

lemma upd_obj_sel [simp]:
  "mmobjs (upd_obj obj f s) = (mmobjs s)(obj := map_option f (mmobjs s obj))"
  "pframes (upd_obj obj f s) = pframes s" "alloc_list (upd_obj obj f s) = alloc_list s"
  "pinned_list (upd_obj obj f s) = pinned_list s" "nallocated (upd_obj obj f s) = nallocated s"
  "npinned (upd_obj obj f s) = npinned s" "pframe_hash (upd_obj obj f s) = pframe_hash s"
  "vmmaps (upd_obj obj f s) = vmmaps s" "vmareas (upd_obj obj f s) = vmareas s"
  "pagetabs (upd_obj obj f s) = pagetabs s" "procs (upd_obj obj f s) = procs s"
  "curproc (upd_obj obj f s) = curproc s" "threads (upd_obj obj f s) = threads s"
  "queues (upd_obj obj f s) = queues s" "curthr (upd_obj obj f s) = curthr s"
  by (simp_all add: upd_obj_def)

lemma mmobj_ref_live:
  assumes "mmobjs s obj = Some ob" and "0 < mmo_refcount ob" and "mmo_ops ob \<noteq> Other_ops"
  shows "mmobj_ref X obj s = Inr (upd_obj obj (\<lambda>x. x\<lparr>mmo_refcount := mmo_refcount x + 1\<rparr>) s)"
  using assms by (cases "mmo_ops ob") (simp_all add: mmobj_ref_def anon_ref_def shadow_ref_def)

end
