(* ===== verification/Pframe.thy ===== *)
theory Pframe
  imports Mmobj
begin

text \<open>
  The page frames of \<^verbatim>\<open>kernel/mm/pframe.c\<close>: the hash table of resident
  pages, the lists of allocated and pinned frames, and the life of a frame from
  \<^verbatim>\<open>pframe_alloc\<close> to \<^verbatim>\<open>pframe_free\<close>.

  The page frame code and the memory objects call each other through operation
  tables.  Here a routine takes the entry points it calls as arguments:
  \<open>put\<close>, \<open>fillpage\<close>, \<open>dirtypage\<close>,
  \<open>cleanpage\<close> are \<^verbatim>\<open>o->mmo_ops->put\<close> and so on.  The theory
  \<^verbatim>\<open>Pager\<close> ties the knot.

  A page is busy only while one of these entry points runs.  A routine that finds
  a page busy would sleep until another thread is done with it; the model stops
  there with \<open>Must_sleep\<close>.
\<close>

section \<open>Operations\<close>

type_synonym obj_put = "ptr \<Rightarrow> kstate \<Rightarrow> kstate res"
type_synonym obj_page_op = "ptr \<Rightarrow> ptr \<Rightarrow> kstate \<Rightarrow> (int \<times> kstate) res"
type_synonym page_result = "(int \<times> ptr option \<times> kstate) res"

definition hash_page :: "kconsts \<Rightarrow> ptr \<Rightarrow> u32 \<Rightarrow> nat" where
  "hash_page K obj pagenum = unat (word_of_nat obj + pagenum) mod PF_HASH_SIZE K"

definition pframe_is_pinned :: "pframe \<Rightarrow> bool" where
  "pframe_is_pinned pf \<longleftrightarrow> pf_pincount pf \<noteq> 0"

definition pframe_is_free :: "pframe \<Rightarrow> bool" where
  "pframe_is_free pf \<longleftrightarrow> pf_obj pf = None"

definition upd_pf :: "ptr \<Rightarrow> (pframe \<Rightarrow> pframe) \<Rightarrow> kstate \<Rightarrow> kstate" where
  "upd_pf p f s = s\<lparr>pframes := (pframes s)(p := map_option f (pframes s p))\<rparr>"

text \<open>\<^verbatim>\<open>list_remove(&pf->pf_link)\<close>: the frame leaves the one list that holds it.\<close>

definition unlink_pf :: "ptr \<Rightarrow> kstate \<Rightarrow> kstate" where
  "unlink_pf p s = s\<lparr>alloc_list := remove1 p (alloc_list s), pinned_list := remove1 p (pinned_list s)\<rparr>"

definition pframe_init :: "kconsts \<Rightarrow> kstate \<Rightarrow> kstate" where
  "pframe_init K s =
     sched_queue_init Allocq
       (s\<lparr>npinned := 0, pinned_list := [], nallocated := 0, alloc_list := [],
          pframe_hash := (\<lambda>i. if i < PF_HASH_SIZE K then [] else pframe_hash s i)\<rparr>)"

fun resident_loop :: "kstate \<Rightarrow> ptr \<Rightarrow> u32 \<Rightarrow> ptr list \<Rightarrow> ptr option res" where
  "resident_loop s obj pagenum [] = Inr None"
| "resident_loop s obj pagenum (p # hashchain) =
     bindE (deref (pframes s p)) (\<lambda>pf.
       if pf_obj pf = Some obj \<and> pagenum = pf_pagenum pf then Inr (Some p)
       else resident_loop s obj pagenum hashchain)"

definition pframe_get_resident :: "kconsts \<Rightarrow> ptr \<Rightarrow> u32 \<Rightarrow> kstate \<Rightarrow> (ptr option \<times> kstate) res" where
  "pframe_get_resident K obj pagenum s =
     bindE (resident_loop s obj pagenum (pframe_hash s (hash_page K obj pagenum))) (\<lambda>r.
       case r of
         None \<Rightarrow> Inr (None, s)
       | Some p \<Rightarrow>
           bindE (deref (pframes s p)) (\<lambda>pf.
             if \<not> pframe_is_pinned pf
             then let s1 = unlink_pf p s in Inr (Some p, s1\<lparr>alloc_list := alloc_list s1 @ [p]\<rparr>)
             else Inr (Some p, s)))"

definition pframe_alloc :: "kconsts \<Rightarrow> kext \<Rightarrow> ptr \<Rightarrow> u32 \<Rightarrow> kstate \<Rightarrow> (ptr option \<times> kstate) res" where
  "pframe_alloc K X obj pagenum s =
     (case pframe_slab X s of
        None \<Rightarrow> Inr (None, s)
      | Some p \<Rightarrow>
          (case page_alloc X s of
             None \<Rightarrow> Inr (None, s)
           | Some (addr, bytes) \<Rightarrow>
               let s1 = s\<lparr>nallocated := nallocated s + 1, alloc_list := alloc_list s @ [p],
                          pframes := (pframes s)(p \<mapsto> \<lparr>pf_obj = Some obj, pf_pagenum = pagenum, pf_busy = False,
                            pf_dirty = False, pf_pincount = 0, pf_addr = addr, pf_data = bytes\<rparr>)\<rparr>;
                   s2 = sched_queue_init (Pfq p) s1;
                   h = hash_page K obj pagenum;
                   s3 = s2\<lparr>pframe_hash := (pframe_hash s2)(h := p # pframe_hash s2 h)\<rparr>
               in bindE (mmobj_ref X obj s3) (\<lambda>s4.
                    Inr (Some p, upd_obj obj (\<lambda>x. x\<lparr>mmo_nrespages := mmo_nrespages x + 1,
                                                 mmo_respages := p # mmo_respages x\<rparr>) s4))))"

definition pframe_pin :: "ptr \<Rightarrow> kstate \<Rightarrow> kstate res" where
  "pframe_pin p s =
     bindE (deref (pframes s p)) (\<lambda>pf.
       if pframe_is_free pf then Inl KASSERT_failed
       else if \<not> pf_pincount pf \<ge> 0 then Inl KASSERT_failed
       else
         let s1 = (if \<not> pframe_is_pinned pf
                   then let s0 = unlink_pf p s in
                        s0\<lparr>pinned_list := pinned_list s0 @ [p], npinned := npinned s0 + 1,
                           nallocated := nallocated s0 - 1\<rparr>
                   else s)
         in Inr (upd_pf p (\<lambda>x. x\<lparr>pf_pincount := pf_pincount x + 1\<rparr>) s1))"

definition pframe_unpin :: "ptr \<Rightarrow> kstate \<Rightarrow> kstate res" where
  "pframe_unpin p s =
     bindE (deref (pframes s p)) (\<lambda>pf.
       if pframe_is_free pf then Inl KASSERT_failed
       else if \<not> pf_pincount pf > 0 then Inl KASSERT_failed
       else
         let s1 = upd_pf p (\<lambda>x. x\<lparr>pf_pincount := pf_pincount x - 1\<rparr>) s
         in Inr (if pf_pincount pf - 1 = 0
                 then let s2 = unlink_pf p s1 in
                      s2\<lparr>alloc_list := alloc_list s2 @ [p], npinned := npinned s2 - 1,
                         nallocated := nallocated s2 + 1\<rparr>
                 else s1))"

text \<open>The loop of \<^verbatim>\<open>pframe_remove_from_pts\<close> over the areas linked to the bottom object.\<close>

fun remove_from_pts_loop :: "kconsts \<Rightarrow> kext \<Rightarrow> u32 \<Rightarrow> ptr list \<Rightarrow> kstate \<Rightarrow> kstate res" where
  "remove_from_pts_loop K X pagenum [] s = Inr s"
| "remove_from_pts_loop K X pagenum (v # vs) s =
     bindE (deref (vmareas s v)) (\<lambda>vma.
       if vma_off vma \<le> pagenum \<and> pagenum < vma_off vma + (vma_end vma - vma_start vma) then
         bindE (deref (vma_vmmap vma)) (\<lambda>m.
         bindE (deref (vmmaps s m)) (\<lambda>vmap.
           case vmm_proc vmap of
             None \<Rightarrow> remove_from_pts_loop K X pagenum vs s
           | Some pr \<Rightarrow>
               bindE (deref (procs s pr)) (\<lambda>p.
                 remove_from_pts_loop K X pagenum vs
                   (pt_unmap X (p_pagedir p) (PN_TO_ADDR K (vma_start vma + pagenum - vma_off vma)) s))))
       else remove_from_pts_loop K X pagenum vs s)"

definition pframe_remove_from_pts :: "kconsts \<Rightarrow> kext \<Rightarrow> ptr \<Rightarrow> kstate \<Rightarrow> kstate res" where
  "pframe_remove_from_pts K X p s =
     bindE (deref (pframes s p)) (\<lambda>pf.
     bindE (deref (pf_obj pf)) (\<lambda>obj.
     bindE (mmobj_bottom_obj X s obj) (\<lambda>b.
     bindE (deref (mmobjs s b)) (\<lambda>bottom.
       remove_from_pts_loop K X (pf_pagenum pf) (mmo_vmas bottom) s))))"

text \<open>
  \<^verbatim>\<open>pframe_free\<close> reads \<^verbatim>\<open>pf->pf_olink\<close> after it has given the frame
  back to the slab allocator; the model takes the frame out of the object's
  list as that read of freed memory does while nobody has reused it.
\<close>

definition pframe_free :: "kconsts \<Rightarrow> kext \<Rightarrow> obj_put \<Rightarrow> ptr \<Rightarrow> kstate \<Rightarrow> kstate res" where
  "pframe_free K X put p s =
     bindE (deref (pframes s p)) (\<lambda>pf.
       if pframe_is_pinned pf then Inl KASSERT_failed
       else if pframe_is_free pf then Inl KASSERT_failed
       else if pf_busy pf then Inl KASSERT_failed
       else
         bindE (deref (pf_obj pf)) (\<lambda>obj.
         bindE (pframe_remove_from_pts K X p s) (\<lambda>s1.
           let h = hash_page K obj (pf_pagenum pf);
               s2 = s1\<lparr>pframe_hash := (pframe_hash s1)(h := remove1 p (pframe_hash s1 h)),
                       nallocated := nallocated s1 - 1\<rparr>;
               s3 = unlink_pf p s2;
               s4 = s3\<lparr>pframes := (pframes s3)(p := None)\<rparr>
           in bindE (deref (mmobjs s4 obj)) (\<lambda>_.
                put obj (upd_obj obj (\<lambda>x. x\<lparr>mmo_nrespages := mmo_nrespages x - 1,
                                       mmo_respages := remove1 p (mmo_respages x)\<rparr>) s4)))))"

definition pframe_fill :: "kconsts \<Rightarrow> obj_page_op \<Rightarrow> ptr \<Rightarrow> kstate \<Rightarrow> (int \<times> kstate) res" where
  "pframe_fill K fillpage p s =
     bindE (deref (pframes s p)) (\<lambda>pf.
     bindE (deref (pf_obj pf)) (\<lambda>obj.
     bindE (fillpage obj p (upd_pf p (\<lambda>x. x\<lparr>pf_busy := True\<rparr>) s)) (\<lambda>(ret, s1).
     bindE (sched_broadcast_on K (Pfq p) (upd_pf p (\<lambda>x. x\<lparr>pf_busy := False\<rparr>) s1)) (\<lambda>s2.
       Inr (ret, s2)))))"

definition pframe_get ::
  "kconsts \<Rightarrow> kext \<Rightarrow> obj_page_op \<Rightarrow> obj_put \<Rightarrow> ptr \<Rightarrow> u32 \<Rightarrow> kstate \<Rightarrow> page_result" where
  "pframe_get K X fillpage put obj pagenum s =
     bindE (pframe_get_resident K obj pagenum s) (\<lambda>(r, s1).
       case r of
         Some p \<Rightarrow>
           bindE (deref (pframes s1 p)) (\<lambda>pf.
             if pf_busy pf then Inl Must_sleep else Inr (0, Some p, s1))
       | None \<Rightarrow>
           bindE (pframe_alloc K X obj pagenum s1) (\<lambda>(a, s2).
           bindE (deref a) (\<lambda>p.
           bindE (pframe_fill K fillpage p s2) (\<lambda>(retval, s3).
             if retval \<noteq> 0 then
               bindE (pframe_free K X put p s3) (\<lambda>s4. Inr (- errno K EFAULT, None, s4))
             else
               bindE (deref (pframes s3 p)) (\<lambda>pf.
                 if pf_busy pf then Inl KASSERT_failed else Inr (retval, Some p, s3))))))"

definition pframe_dirty :: "kconsts \<Rightarrow> obj_page_op \<Rightarrow> ptr \<Rightarrow> kstate \<Rightarrow> (int \<times> kstate) res" where
  "pframe_dirty K dirtypage p s =
     bindE (deref (pframes s p)) (\<lambda>pf.
       if pf_busy pf then Inl KASSERT_failed
       else
         bindE (deref (pf_obj pf)) (\<lambda>obj.
         bindE (dirtypage obj p (upd_pf p (\<lambda>x. x\<lparr>pf_busy := True\<rparr>) s)) (\<lambda>(ret, s1).
           let s2 = (if ret = 0 then upd_pf p (\<lambda>x. x\<lparr>pf_dirty := True\<rparr>) s1 else s1)
           in bindE (sched_broadcast_on K (Pfq p) (upd_pf p (\<lambda>x. x\<lparr>pf_busy := False\<rparr>) s2)) (\<lambda>s3.
                Inr (ret, s3)))))"

definition pframe_clean :: "kconsts \<Rightarrow> kext \<Rightarrow> obj_page_op \<Rightarrow> ptr \<Rightarrow> kstate \<Rightarrow> (int \<times> kstate) res" where
  "pframe_clean K X cleanpage p s =
     bindE (deref (pframes s p)) (\<lambda>pf.
       if \<not> pf_dirty pf then Inl KASSERT_failed
       else if \<not> pf_pincount pf = 0 then Inl KASSERT_failed
       else
         bindE (pframe_remove_from_pts K X p (upd_pf p (\<lambda>x. x\<lparr>pf_dirty := False\<rparr>) s)) (\<lambda>s1.
         bindE (deref (pf_obj pf)) (\<lambda>obj.
         bindE (cleanpage obj p (upd_pf p (\<lambda>x. x\<lparr>pf_busy := True\<rparr>) s1)) (\<lambda>(ret, s2).
           let s3 = (if ret < 0 then upd_pf p (\<lambda>x. x\<lparr>pf_dirty := True\<rparr>) s2 else s2)
           in bindE (sched_broadcast_on K (Pfq p) (upd_pf p (\<lambda>x. x\<lparr>pf_busy := False\<rparr>) s3)) (\<lambda>s4.
                Inr (ret, s4))))))"

definition pframe_migrate ::
  "kconsts \<Rightarrow> kext \<Rightarrow> obj_page_op \<Rightarrow> obj_put \<Rightarrow> ptr \<Rightarrow> ptr \<Rightarrow> kstate \<Rightarrow> kstate res" where
  "pframe_migrate K X cleanpage put p dest s =
     bindE (deref (pframes s p)) (\<lambda>pf.
       if pf_busy pf then Inl KASSERT_failed
       else
         bindE (pframe_get_resident K dest (pf_pagenum pf) s) (\<lambda>(r, s1).
           if r \<noteq> None then
             bindE (pframe_unpin p s1) (\<lambda>s2.
             bindE (pframe_clean K X cleanpage p s2) (\<lambda>(_, s3).
               pframe_free K X put p s3))
           else
             bindE (deref (pf_obj pf)) (\<lambda>src.
             bindE (deref (mmobjs s1 src)) (\<lambda>_.
               let h = hash_page K src (pf_pagenum pf);
                   s2 = upd_pf p (\<lambda>x. x\<lparr>pf_obj := Some dest\<rparr>) s1;
                   s3 = s2\<lparr>pframe_hash := (pframe_hash s2)(h := remove1 p (pframe_hash s2 h))\<rparr>;
                   s4 = upd_obj src (\<lambda>x. x\<lparr>mmo_respages := remove1 p (mmo_respages x),
                                          mmo_nrespages := mmo_nrespages x - 1\<rparr>) s3
               in bindE (put src s4) (\<lambda>s5.
                    let h' = hash_page K dest (pf_pagenum pf);
                        s6 = s5\<lparr>pframe_hash := (pframe_hash s5)(h' := p # pframe_hash s5 h')\<rparr>
                    in bindE (deref (mmobjs s6 dest)) (\<lambda>_.
                         mmobj_ref X dest
                           (upd_obj dest (\<lambda>x. x\<lparr>mmo_respages := p # mmo_respages x,
                                               mmo_nrespages := mmo_nrespages x + 1\<rparr>) s6)))))))"

section \<open>The invariant of the page frames\<close>

text \<open>
  Three parts.  Every frame is on the list its pin count calls for and the
  counters count; every frame is in the hash chain of its identity, and no two
  frames have the same identity; every object lists its resident pages and
  holds a reference for each of them and at least one more.
\<close>

definition link_inv :: "kstate \<Rightarrow> bool" where
  "link_inv s \<longleftrightarrow> distinct (alloc_list s) \<and> distinct (pinned_list s) \<and>
     nallocated s = int (length (alloc_list s)) \<and> npinned s = int (length (pinned_list s)) \<and>
     (\<forall>p. p \<in> set (alloc_list s) \<longleftrightarrow> (\<exists>pf. pframes s p = Some pf \<and> pf_pincount pf = 0)) \<and>
     (\<forall>p. p \<in> set (pinned_list s) \<longleftrightarrow> (\<exists>pf. pframes s p = Some pf \<and> pf_pincount pf > 0)) \<and>
     (\<forall>p pf. pframes s p = Some pf \<longrightarrow> pf_pincount pf \<ge> 0)"

definition same_page :: "pframe \<Rightarrow> pframe \<Rightarrow> bool" where
  "same_page pf pf' \<longleftrightarrow> pf_obj pf = pf_obj pf' \<and> pf_pagenum pf = pf_pagenum pf'"

definition hash_inv :: "kconsts \<Rightarrow> kstate \<Rightarrow> bool" where
  "hash_inv K s \<longleftrightarrow>
     (\<forall>i. distinct (pframe_hash s i)) \<and>
     (\<forall>i p. p \<in> set (pframe_hash s i) \<longleftrightarrow>
        (\<exists>pf obj. pframes s p = Some pf \<and> pf_obj pf = Some obj \<and> hash_page K obj (pf_pagenum pf) = i)) \<and>
     (\<forall>p p' pf pf'. pframes s p = Some pf \<longrightarrow> pframes s p' = Some pf' \<longrightarrow> same_page pf pf' \<longrightarrow> p = p')"

definition obj_ok :: "kstate \<Rightarrow> ptr \<Rightarrow> mmobj \<Rightarrow> bool" where
  "obj_ok s obj ob \<longleftrightarrow>
     distinct (mmo_respages ob) \<and> mmo_nrespages ob = int (length (mmo_respages ob)) \<and>
     (\<forall>p. p \<in> set (mmo_respages ob) \<longleftrightarrow> (\<exists>pf. pframes s p = Some pf \<and> pf_obj pf = Some obj)) \<and>
     (mmo_ops ob \<noteq> Other_ops \<longrightarrow> mmo_nrespages ob < mmo_refcount ob)"

definition res_inv :: "kstate \<Rightarrow> bool" where
  "res_inv s \<longleftrightarrow>
     (\<forall>p pf. pframes s p = Some pf \<longrightarrow> (\<exists>obj ob. pf_obj pf = Some obj \<and> mmobjs s obj = Some ob)) \<and>
     (\<forall>obj ob. mmobjs s obj = Some ob \<longrightarrow> obj_ok s obj ob)"

lemma res_inv_page:
  assumes "res_inv s" "pframes s p = Some pf"
  obtains obj ob where "pf_obj pf = Some obj" "mmobjs s obj = Some ob"
  using assms unfolding res_inv_def by blast

lemma res_inv_obj: "res_inv s \<Longrightarrow> mmobjs s obj = Some ob \<Longrightarrow> obj_ok s obj ob"
  by (simp add: res_inv_def)

definition pf_inv :: "kconsts \<Rightarrow> kstate \<Rightarrow> bool" where
  "pf_inv K s \<longleftrightarrow> link_inv s \<and> hash_inv K s \<and> res_inv s"

text \<open>The contents of the cache: the frame of a page, if it is resident.\<close>

definition page_of :: "kconsts \<Rightarrow> kstate \<Rightarrow> ptr \<Rightarrow> u32 \<Rightarrow> ptr option" where
  "page_of K s obj pagenum =
     List.find (\<lambda>p. case pframes s p of Some pf \<Rightarrow> pf_obj pf = Some obj \<and> pf_pagenum pf = pagenum | None \<Rightarrow> False)
       (pframe_hash s (hash_page K obj pagenum))"

lemma page_of_iff:
  assumes "hash_inv K s"
  shows "page_of K s obj pn = Some p \<longleftrightarrow>
    (\<exists>pf. pframes s p = Some pf \<and> pf_obj pf = Some obj \<and> pf_pagenum pf = pn)"
proof
  assume "page_of K s obj pn = Some p"
  then show "\<exists>pf. pframes s p = Some pf \<and> pf_obj pf = Some obj \<and> pf_pagenum pf = pn"
    by (auto simp: page_of_def find_Some_iff split: option.splits)
next
  let ?P = "\<lambda>p. case pframes s p of Some pf \<Rightarrow> pf_obj pf = Some obj \<and> pf_pagenum pf = pn | None \<Rightarrow> False"
  assume "\<exists>pf. pframes s p = Some pf \<and> pf_obj pf = Some obj \<and> pf_pagenum pf = pn"
  then obtain pf where pf: "pframes s p = Some pf" "pf_obj pf = Some obj" "pf_pagenum pf = pn" by blast
  have mem: "p \<in> set (pframe_hash s (hash_page K obj pn))"
    using assms pf by (auto simp: hash_inv_def)
  have "page_of K s obj pn \<noteq> None"
    unfolding page_of_def find_None_iff using mem pf by auto
  then obtain q where q: "page_of K s obj pn = Some q" by blast
  then obtain pf' where "pframes s q = Some pf'" "pf_obj pf' = Some obj" "pf_pagenum pf' = pn"
    by (auto simp: page_of_def find_Some_iff split: option.splits)
  with pf assms have "q = p" by (auto simp: hash_inv_def same_page_def)
  with q show "page_of K s obj pn = Some p" by simp
qed

lemma page_of_None:
  assumes "hash_inv K s"
  shows "page_of K s obj pn = None \<longleftrightarrow>
    (\<forall>p pf. pframes s p = Some pf \<longrightarrow> \<not> (pf_obj pf = Some obj \<and> pf_pagenum pf = pn))"
  using page_of_iff [OF assms] by (metis not_None_eq)

lemma pf_invD: "pf_inv K s \<Longrightarrow> link_inv s" "pf_inv K s \<Longrightarrow> hash_inv K s" "pf_inv K s \<Longrightarrow> res_inv s"
  by (simp_all add: pf_inv_def)

lemma resident_loop_find:
  assumes "\<forall>p\<in>set ps. pframes s p \<noteq> None"
  shows "resident_loop s obj pn ps =
    Inr (List.find (\<lambda>p. case pframes s p of Some pf \<Rightarrow> pf_obj pf = Some obj \<and> pf_pagenum pf = pn | None \<Rightarrow> False) ps)"
  using assms by (induction ps) auto

text \<open>A page that is asked for moves to the end of the list from which pages are reclaimed.\<close>

definition touch :: "ptr option \<Rightarrow> kstate \<Rightarrow> kstate" where
  "touch r s =
     (case r of
        None \<Rightarrow> s
      | Some p \<Rightarrow> (case pframes s p of
            None \<Rightarrow> s
          | Some pf \<Rightarrow> if pf_pincount pf = 0
                       then s\<lparr>alloc_list := remove1 p (alloc_list s) @ [p], pinned_list := remove1 p (pinned_list s)\<rparr>
                       else s))"

lemma pframe_get_resident_eq:
  assumes "hash_inv K s"
  shows "pframe_get_resident K obj pn s = Inr (page_of K s obj pn, touch (page_of K s obj pn) s)"
proof -
  have "\<forall>p\<in>set (pframe_hash s (hash_page K obj pn)). pframes s p \<noteq> None"
    using assms by (auto simp: hash_inv_def)
  from resident_loop_find [OF this, of obj pn]
  have "resident_loop s obj pn (pframe_hash s (hash_page K obj pn)) = Inr (page_of K s obj pn)"
    by (simp add: page_of_def)
  moreover have "pframes s p \<noteq> None" if "page_of K s obj pn = Some p" for p
    using that page_of_iff [OF assms] by auto
  ultimately show ?thesis
    by (cases "page_of K s obj pn")
      (auto simp: pframe_get_resident_def touch_def pframe_is_pinned_def unlink_pf_def Let_def)
qed

lemma touch_sel [simp]:
  "pframes (touch r s) = pframes s" "pframe_hash (touch r s) = pframe_hash s" "mmobjs (touch r s) = mmobjs s"
  "vmmaps (touch r s) = vmmaps s" "vmareas (touch r s) = vmareas s" "procs (touch r s) = procs s"
  "queues (touch r s) = queues s" "threads (touch r s) = threads s" "pagetabs (touch r s) = pagetabs s"
  "curproc (touch r s) = curproc s" "curthr (touch r s) = curthr s" "nallocated (touch r s) = nallocated s"
  "npinned (touch r s) = npinned s"
  by (simp_all add: touch_def split: option.splits)

lemma hash_inv_cong: "pframes s' = pframes s \<Longrightarrow> pframe_hash s' = pframe_hash s \<Longrightarrow> hash_inv K s' = hash_inv K s"
  by (simp add: hash_inv_def)

lemma res_inv_cong: "pframes s' = pframes s \<Longrightarrow> mmobjs s' = mmobjs s \<Longrightarrow> res_inv s' = res_inv s"
  by (simp add: res_inv_def obj_ok_def)

lemma page_of_cong: "pframes s' = pframes s \<Longrightarrow> pframe_hash s' = pframe_hash s \<Longrightarrow> page_of K s' = page_of K s"
  by (rule ext)+ (simp add: page_of_def)

lemma page_of_touch [simp]: "page_of K (touch r s) = page_of K s"
  by (rule page_of_cong) simp_all

lemma link_inv_touch:
  assumes "link_inv s"
  shows "link_inv (touch r s)"
proof (cases "\<exists>p pf. r = Some p \<and> pframes s p = Some pf \<and> pf_pincount pf = 0")
  case True
  then obtain p pf where r: "r = Some p" "pframes s p = Some pf" "pf_pincount pf = 0" by blast
  with assms have "p \<in> set (alloc_list s)" "p \<notin> set (pinned_list s)" by (auto simp: link_inv_def)
  with assms r show ?thesis by (auto simp: link_inv_def touch_def remove1_idem set_remove1_eq)
next
  case False
  then have "touch r s = s" by (auto simp: touch_def split: option.splits)
  with assms show ?thesis by simp
qed

lemma pf_inv_touch [simp]: "pf_inv K s \<Longrightarrow> pf_inv K (touch r s)"
  using link_inv_touch hash_inv_cong [of "touch r s" s K] res_inv_cong [of "touch r s" s]
  by (simp add: pf_inv_def)

section \<open>Updates that keep the identity of the pages\<close>

definition ident :: "kstate \<Rightarrow> ptr \<Rightarrow> (ptr option \<times> u32) option" where
  "ident s p = map_option (\<lambda>pf. (pf_obj pf, pf_pagenum pf)) (pframes s p)"

lemma identD:
  assumes "ident s' = ident s" and "pframes s' p = Some pf'"
  shows "\<exists>pf. pframes s p = Some pf \<and> pf_obj pf = pf_obj pf' \<and> pf_pagenum pf = pf_pagenum pf'"
proof -
  from assms(1) have "ident s' p = ident s p" by simp
  with assms(2) show ?thesis by (cases "pframes s p") (auto simp: ident_def)
qed

lemma hash_inv_ident_imp:
  assumes "ident s' = ident s" and "pframe_hash s' = pframe_hash s" and "hash_inv K s"
  shows "hash_inv K s'"
proof -
  note d = identD [OF assms(1)] identD [OF assms(1) [symmetric]]
  have "(\<exists>pf obj. pframes s p = Some pf \<and> pf_obj pf = Some obj \<and> hash_page K obj (pf_pagenum pf) = i) \<longleftrightarrow>
        (\<exists>pf obj. pframes s' p = Some pf \<and> pf_obj pf = Some obj \<and> hash_page K obj (pf_pagenum pf) = i)" for i p
    by (metis d)
  then have "p \<in> set (pframe_hash s' i) \<longleftrightarrow>
        (\<exists>pf obj. pframes s' p = Some pf \<and> pf_obj pf = Some obj \<and> hash_page K obj (pf_pagenum pf) = i)" for i p
    using assms(2,3) by (simp add: hash_inv_def)
  moreover have "p = p'" if "pframes s' p = Some pf" "pframes s' p' = Some pf'" "same_page pf pf'" for p p' pf pf'
    using d(1) [OF that(1)] d(1) [OF that(2)] that(3) assms(3) unfolding hash_inv_def same_page_def by metis
  ultimately show ?thesis using assms(2,3) by (simp add: hash_inv_def)
qed

lemma res_inv_ident_imp:
  assumes "ident s' = ident s" and "mmobjs s' = mmobjs s" and "res_inv s"
  shows "res_inv s'"
proof -
  note d = identD [OF assms(1)] identD [OF assms(1) [symmetric]]
  have "\<exists>obj ob. pf_obj pf = Some obj \<and> mmobjs s' obj = Some ob" if "pframes s' p = Some pf" for p pf
    using d(1) [OF that] assms(2,3) unfolding res_inv_def by metis
  moreover have "(\<exists>pf. pframes s' p = Some pf \<and> pf_obj pf = Some obj) \<longleftrightarrow>
      (\<exists>pf. pframes s p = Some pf \<and> pf_obj pf = Some obj)" for p obj by (metis d)
  then have "obj_ok s' obj ob = obj_ok s obj ob" for obj ob by (simp add: obj_ok_def)
  ultimately show ?thesis using assms(2,3) by (simp add: res_inv_def)
qed

lemma upd_pf_sel [simp]:
  "pframes (upd_pf p f s) = (pframes s)(p := map_option f (pframes s p))"
  "mmobjs (upd_pf p f s) = mmobjs s" "alloc_list (upd_pf p f s) = alloc_list s"
  "pinned_list (upd_pf p f s) = pinned_list s" "nallocated (upd_pf p f s) = nallocated s"
  "npinned (upd_pf p f s) = npinned s" "pframe_hash (upd_pf p f s) = pframe_hash s"
  "vmmaps (upd_pf p f s) = vmmaps s" "vmareas (upd_pf p f s) = vmareas s"
  "pagetabs (upd_pf p f s) = pagetabs s" "procs (upd_pf p f s) = procs s"
  "curproc (upd_pf p f s) = curproc s" "threads (upd_pf p f s) = threads s"
  "queues (upd_pf p f s) = queues s" "curthr (upd_pf p f s) = curthr s"
  by (simp_all add: upd_pf_def)

lemma unlink_pf_sel [simp]:
  "pframes (unlink_pf p s) = pframes s"
  "mmobjs (unlink_pf p s) = mmobjs s" "alloc_list (unlink_pf p s) = remove1 p (alloc_list s)"
  "pinned_list (unlink_pf p s) = remove1 p (pinned_list s)" "nallocated (unlink_pf p s) = nallocated s"
  "npinned (unlink_pf p s) = npinned s" "pframe_hash (unlink_pf p s) = pframe_hash s"
  "vmmaps (unlink_pf p s) = vmmaps s" "vmareas (unlink_pf p s) = vmareas s"
  "pagetabs (unlink_pf p s) = pagetabs s" "procs (unlink_pf p s) = procs s"
  "curproc (unlink_pf p s) = curproc s" "threads (unlink_pf p s) = threads s"
  "queues (unlink_pf p s) = queues s" "curthr (unlink_pf p s) = curthr s"
  by (simp_all add: unlink_pf_def)

text \<open>Flags and contents of a frame are no concern of the invariant.\<close>

lemma ident_upd_pf:
  assumes "\<And>x. pf_obj (f x) = pf_obj x" "\<And>x. pf_pagenum (f x) = pf_pagenum x"
  shows "ident (upd_pf p f s) = ident s"
  by (rule ext) (simp add: ident_def assms option.map_comp o_def)

lemma pf_inv_upd_pf:
  assumes inv: "pf_inv K s" and f: "\<And>x. pf_obj (f x) = pf_obj x" "\<And>x. pf_pagenum (f x) = pf_pagenum x"
    "\<And>x. pf_pincount (f x) = pf_pincount x"
  shows "pf_inv K (upd_pf p f s)"
proof -
  have "link_inv (upd_pf p f s)"
    using pf_invD(1) [OF inv] by (auto simp: link_inv_def f)
  with inv hash_inv_ident_imp [OF ident_upd_pf [of f p s]] res_inv_ident_imp [OF ident_upd_pf [of f p s]] f
  show ?thesis by (simp add: pf_inv_def)
qed

section \<open>Pinning\<close>

text \<open>The state after a frame got a new pin count and, if need be, changed lists.\<close>

lemma pframe_pin_unpinned:
  assumes inv: "pf_inv K s" and p: "pframes s p = Some pf" "pf_pincount pf = 0"
  shows "\<exists>s'. pframe_pin p s = Inr s' \<and> pf_inv K s' \<and>
    pframes s' = (pframes s)(p \<mapsto> pf\<lparr>pf_pincount := 1\<rparr>) \<and> mmobjs s' = mmobjs s \<and>
    pframe_hash s' = pframe_hash s \<and> queues s' = queues s \<and> pinned_list s' = pinned_list s @ [p] \<and>
    alloc_list s' = remove1 p (alloc_list s) \<and>
    s' = s\<lparr>pframes := pframes s', alloc_list := alloc_list s', pinned_list := pinned_list s',
           nallocated := nallocated s', npinned := npinned s'\<rparr>"
proof -
  have ob: "pf_obj pf \<noteq> None" using res_inv_page [OF pf_invD(3) [OF inv] p(1)] by auto
  let ?s' = "upd_pf p (\<lambda>x. x\<lparr>pf_pincount := pf_pincount x + 1\<rparr>)
     ((unlink_pf p s)\<lparr>pinned_list := pinned_list (unlink_pf p s) @ [p], npinned := npinned (unlink_pf p s) + 1,
                      nallocated := nallocated (unlink_pf p s) - 1\<rparr>)"
  have np: "p \<notin> set (pinned_list s)" and al: "p \<in> set (alloc_list s)"
    using pf_invD(1) [OF inv] p by (auto simp: link_inv_def)
  have "pframe_pin p s = Inr ?s'"
    using p ob by (simp add: pframe_pin_def pframe_is_free_def pframe_is_pinned_def Let_def)
  moreover have id: "ident ?s' = ident s"
    by (rule ext) (simp add: ident_def option.map_comp o_def)
  have "link_inv ?s'"
    using pf_invD(1) [OF inv] p np al by (auto simp: link_inv_def remove1_idem set_remove1_eq)
  then have "pf_inv K ?s'"
    using hash_inv_ident_imp [OF id _ pf_invD(2) [OF inv]] res_inv_ident_imp [OF id _ pf_invD(3) [OF inv]]
    by (simp add: pf_inv_def)
  moreover have "?s' = s\<lparr>pframes := pframes ?s', alloc_list := alloc_list ?s', pinned_list := pinned_list ?s',
           nallocated := nallocated ?s', npinned := npinned ?s'\<rparr>"
    by (simp add: upd_pf_def unlink_pf_def)
  ultimately show ?thesis using p np by (intro exI [of _ ?s']) (simp add: remove1_idem)
qed

lemma pframe_unpin_last:
  assumes inv: "pf_inv K s" and p: "pframes s p = Some pf" "pf_pincount pf = 1"
  shows "\<exists>s'. pframe_unpin p s = Inr s' \<and> pf_inv K s' \<and>
    pframes s' = (pframes s)(p \<mapsto> pf\<lparr>pf_pincount := 0\<rparr>) \<and> mmobjs s' = mmobjs s \<and>
    pframe_hash s' = pframe_hash s \<and> queues s' = queues s \<and> alloc_list s' = alloc_list s @ [p] \<and>
    pinned_list s' = remove1 p (pinned_list s) \<and>
    s' = s\<lparr>pframes := pframes s', alloc_list := alloc_list s', pinned_list := pinned_list s',
           nallocated := nallocated s', npinned := npinned s'\<rparr>"
proof -
  have ob: "pf_obj pf \<noteq> None" using res_inv_page [OF pf_invD(3) [OF inv] p(1)] by auto
  let ?s1 = "unlink_pf p (upd_pf p (\<lambda>x. x\<lparr>pf_pincount := pf_pincount x - 1\<rparr>) s)"
  let ?s' = "?s1\<lparr>alloc_list := alloc_list ?s1 @ [p], npinned := npinned ?s1 - 1, nallocated := nallocated ?s1 + 1\<rparr>"
  have np: "p \<notin> set (alloc_list s)" and al: "p \<in> set (pinned_list s)"
    using pf_invD(1) [OF inv] p by (auto simp: link_inv_def)
  have "pframe_unpin p s = Inr ?s'"
    using p ob by (simp add: pframe_unpin_def pframe_is_free_def Let_def)
  moreover have id: "ident ?s' = ident s"
    by (rule ext) (simp add: ident_def option.map_comp o_def)
  have "link_inv ?s'"
    using pf_invD(1) [OF inv] p np al by (auto simp: link_inv_def remove1_idem set_remove1_eq)
  then have "pf_inv K ?s'"
    using hash_inv_ident_imp [OF id _ pf_invD(2) [OF inv]] res_inv_ident_imp [OF id _ pf_invD(3) [OF inv]]
    by (simp add: pf_inv_def)
  moreover have "?s' = s\<lparr>pframes := pframes ?s', alloc_list := alloc_list ?s', pinned_list := pinned_list ?s',
           nallocated := nallocated ?s', npinned := npinned ?s'\<rparr>"
    by (simp add: upd_pf_def unlink_pf_def)
  ultimately show ?thesis using p np by (intro exI [of _ ?s']) (simp add: remove1_idem)
qed

section \<open>Allocating a frame\<close>

definition new_frame :: "ptr \<Rightarrow> u32 \<Rightarrow> ptr \<Rightarrow> page \<Rightarrow> pframe" where
  "new_frame obj pn addr bytes = \<lparr>pf_obj = Some obj, pf_pagenum = pn, pf_busy = False,
     pf_dirty = False, pf_pincount = 0, pf_addr = addr, pf_data = bytes\<rparr>"

definition alloc_state :: "kconsts \<Rightarrow> ptr \<Rightarrow> u32 \<Rightarrow> ptr \<Rightarrow> ptr \<Rightarrow> page \<Rightarrow> kstate \<Rightarrow> kstate" where
  "alloc_state K obj pn p addr bytes s =
     s\<lparr>nallocated := nallocated s + 1, alloc_list := alloc_list s @ [p],
       pframes := (pframes s)(p \<mapsto> new_frame obj pn addr bytes),
       queues := (queues s)(Pfq p := empty_queue),
       pframe_hash := (pframe_hash s)(hash_page K obj pn := p # pframe_hash s (hash_page K obj pn)),
       mmobjs := (mmobjs s)(obj := map_option (\<lambda>x. x\<lparr>mmo_refcount := mmo_refcount x + 1,
         mmo_nrespages := mmo_nrespages x + 1, mmo_respages := p # mmo_respages x\<rparr>) (mmobjs s obj))\<rparr>"

lemma pframe_alloc_ok:
  assumes "pframe_slab X s = Some p" "page_alloc X s = Some (addr, bytes)"
    and "mmobjs s obj = Some ob" "0 < mmo_refcount ob" "mmo_ops ob \<noteq> Other_ops"
  shows "pframe_alloc K X obj pn s = Inr (Some p, alloc_state K obj pn p addr bytes s)"
  using assms
  by (simp add: pframe_alloc_def Let_def mmobj_ref_live [of _ obj ob] sched_queue_init_def upd_obj_def
      alloc_state_def new_frame_def)

lemma alloc_state_sel [simp]:
  "pframes (alloc_state K obj pn p a b s) = (pframes s)(p \<mapsto> new_frame obj pn a b)"
  "mmobjs (alloc_state K obj pn p a b s) = (mmobjs s)(obj := map_option (\<lambda>x. x\<lparr>mmo_refcount := mmo_refcount x + 1,
     mmo_nrespages := mmo_nrespages x + 1, mmo_respages := p # mmo_respages x\<rparr>) (mmobjs s obj))"
  "vmmaps (alloc_state K obj pn p a b s) = vmmaps s" "vmareas (alloc_state K obj pn p a b s) = vmareas s"
  "procs (alloc_state K obj pn p a b s) = procs s" "threads (alloc_state K obj pn p a b s) = threads s"
  "pagetabs (alloc_state K obj pn p a b s) = pagetabs s" "curproc (alloc_state K obj pn p a b s) = curproc s"
  "curthr (alloc_state K obj pn p a b s) = curthr s"
  "queues (alloc_state K obj pn p a b s) = (queues s)(Pfq p := empty_queue)"
  "pframe_hash (alloc_state K obj pn p a b s) =
     (pframe_hash s)(hash_page K obj pn := p # pframe_hash s (hash_page K obj pn))"
  by (simp_all add: alloc_state_def)

lemma new_frame_sel [simp]:
  "pf_obj (new_frame obj pn a b) = Some obj" "pf_pagenum (new_frame obj pn a b) = pn"
  "pf_pincount (new_frame obj pn a b) = 0" "pf_busy (new_frame obj pn a b) = False"
  "pf_data (new_frame obj pn a b) = b"
  by (simp_all add: new_frame_def)

lemma link_inv_alloc:
  assumes "link_inv s" and "pframes s p = None"
  shows "link_inv (alloc_state K obj pn p a b s)"
  using assms by (auto simp: link_inv_def alloc_state_def)

lemma hash_inv_alloc:
  assumes inv: "hash_inv K s" and "pframes s p = None" and "page_of K s obj pn = None"
  shows "hash_inv K (alloc_state K obj pn p a b s)"
proof -
  have new: "p \<notin> set (pframe_hash s i)" for i using inv assms(2) by (auto simp: hash_inv_def)
  have fresh: "\<not> same_page (new_frame obj pn a b) pf" if "pframes s q = Some pf" for q pf
    using page_of_None [OF inv, of obj pn] assms(3) that unfolding same_page_def new_frame_sel by metis
  have fresh': "\<not> same_page pf (new_frame obj pn a b)" if "pframes s q = Some pf" for q pf
    using page_of_None [OF inv, of obj pn] assms(3) that unfolding same_page_def new_frame_sel by metis
  have "distinct (pframe_hash (alloc_state K obj pn p a b s) i)" for i
    using inv new by (simp add: hash_inv_def)
  moreover have "q \<in> set (pframe_hash (alloc_state K obj pn p a b s) i) \<longleftrightarrow>
     (\<exists>pf ob. pframes (alloc_state K obj pn p a b s) q = Some pf \<and> pf_obj pf = Some ob \<and>
        hash_page K ob (pf_pagenum pf) = i)" for q i
    using inv new assms(2) by (auto simp: hash_inv_def)
  moreover have "q = q'"
    if "pframes (alloc_state K obj pn p a b s) q = Some pf" "pframes (alloc_state K obj pn p a b s) q' = Some pf'"
      "same_page pf pf'" for q q' pf pf'
    using that fresh fresh' inv by (auto simp: hash_inv_def split: if_splits)
  ultimately show ?thesis unfolding hash_inv_def by blast
qed

lemma res_inv_alloc:
  assumes inv: "res_inv s" and p: "pframes s p = None" and obj: "mmobjs s obj = Some ob"
  shows "res_inv (alloc_state K obj pn p a b s)" (is "res_inv ?s")
proof -
  have "\<exists>obj' ob'. pf_obj pf = Some obj' \<and> mmobjs ?s obj' = Some ob'" if "pframes ?s q = Some pf" for q pf
  proof (cases "q = p")
    case False
    with that obtain obj' ob' where "pf_obj pf = Some obj'" "mmobjs s obj' = Some ob'"
      using res_inv_page [OF inv, of q pf] by auto
    then show ?thesis by (intro exI [of _ obj']) auto
  qed (use that obj in auto)
  moreover have "obj_ok ?s obj' ob'" if "mmobjs ?s obj' = Some ob'" for obj' ob'
  proof (cases "obj' = obj")
    case True
    then show ?thesis using that obj p res_inv_obj [OF inv obj] by (auto simp: obj_ok_def)
  next
    case False
    then show ?thesis using that p res_inv_obj [OF inv, of obj' ob'] by (auto simp: obj_ok_def)
  qed
  ultimately show ?thesis unfolding res_inv_def by blast
qed

lemma pf_inv_alloc:
  assumes "pf_inv K s" and "pframes s p = None" and "page_of K s obj pn = None" and "mmobjs s obj = Some ob"
  shows "pf_inv K (alloc_state K obj pn p a b s)"
  using link_inv_alloc [of s p K obj pn a b] hash_inv_alloc [of K s p obj pn a b]
    res_inv_alloc [of s p obj ob K pn a b] assms
  by (simp add: pf_inv_def)

section \<open>Freeing a frame\<close>

text \<open>The page table routines change nothing but page tables.\<close>

definition pt_frame :: "kext \<Rightarrow> bool" where
  "pt_frame X \<longleftrightarrow>
     (\<forall>pd v s. \<exists>pt. pt_unmap X pd v s = s\<lparr>pagetabs := pt\<rparr>) \<and>
     (\<forall>pd lo hi s. \<exists>pt. pt_unmap_range X pd lo hi s = s\<lparr>pagetabs := pt\<rparr>) \<and>
     (\<forall>pd v a f g s. \<exists>pt. pt_map X pd v a f g s = s\<lparr>pagetabs := pt\<rparr>)"

text \<open>
  Areas linked to a bottom object belong to an address space, and the process of
  that address space, if it has one, exists.
\<close>

definition area_linked :: "kstate \<Rightarrow> ptr \<Rightarrow> bool" where
  "area_linked s v \<longleftrightarrow>
     (\<exists>vma m vm. vmareas s v = Some vma \<and> vma_vmmap vma = Some m \<and> vmmaps s m = Some vm \<and>
        (\<forall>pr. vmm_proc vm = Some pr \<longrightarrow> procs s pr \<noteq> None))"

definition bottom_of :: "ptr \<Rightarrow> mmobj \<Rightarrow> ptr option" where
  "bottom_of obj ob = (if mmo_shadowed ob = None then Some obj else mmo_bottom ob)"

definition areas_linked :: "kstate \<Rightarrow> bool" where
  "areas_linked s \<longleftrightarrow>
     (\<forall>obj ob. mmobjs s obj = Some ob \<longrightarrow>
        (\<exists>b bottom. bottom_of obj ob = Some b \<and> mmobjs s b = Some bottom \<and>
           (\<forall>v\<in>set (mmo_vmas bottom). area_linked s v)))"

text \<open>
  What \<^verbatim>\<open>mmobj_bottom_obj\<close> is documented to return: the object itself when it
  shadows nothing, else the bottom object recorded in it.
\<close>

definition bottom_ok :: "kext \<Rightarrow> bool" where
  "bottom_ok X \<longleftrightarrow>
     (\<forall>s obj ob. mmobjs s obj = Some ob \<longrightarrow> mmobj_bottom_obj X s obj = deref (bottom_of obj ob))"

lemma pagetabs_same [simp]: "(s :: kstate)\<lparr>pagetabs := pagetabs s\<rparr> = s"
  by (cases s) simp

lemma remove_from_pts_loop_frame:
  assumes "pt_frame X" and "\<forall>v\<in>set vs. area_linked s v"
  shows "\<exists>pt. remove_from_pts_loop K X pn vs s = Inr (s\<lparr>pagetabs := pt\<rparr>)"
  using assms(2)
proof (induction vs arbitrary: s)
  case Nil
  have "remove_from_pts_loop K X pn [] s = Inr (s\<lparr>pagetabs := pagetabs s\<rparr>)" by simp
  then show ?case by blast
next
  case (Cons v vs)
  have step: "\<exists>pt'. remove_from_pts_loop K X pn vs (s\<lparr>pagetabs := pt\<rparr>) = Inr (s\<lparr>pagetabs := pt'\<rparr>)" for pt
    using Cons.IH [of "s\<lparr>pagetabs := pt\<rparr>"] Cons.prems by (auto simp: area_linked_def)
  have stay: "\<exists>pt'. remove_from_pts_loop K X pn vs s = Inr (s\<lparr>pagetabs := pt'\<rparr>)"
    using step [of "pagetabs s"] by simp
  have un': "\<exists>pt'. remove_from_pts_loop K X pn vs (pt_unmap X pd a s) = Inr (s\<lparr>pagetabs := pt'\<rparr>)" for pd a
  proof -
    from assms(1) obtain pt where "pt_unmap X pd a s = s\<lparr>pagetabs := pt\<rparr>"
      unfolding pt_frame_def by blast
    with step [of pt] show ?thesis by simp
  qed
  from Cons.prems obtain vma m vm where "vmareas s v = Some vma" "vma_vmmap vma = Some m" "vmmaps s m = Some vm"
      "\<forall>pr. vmm_proc vm = Some pr \<longrightarrow> procs s pr \<noteq> None"
    by (auto simp: area_linked_def)
  with stay un' show ?case by (cases "vmm_proc vm") auto
qed

lemma pframe_remove_from_pts_frame:
  assumes "pt_frame X" and "bottom_ok X" and "areas_linked s" and "pframes s p = Some pf" and "pf_obj pf = Some obj"
    and "mmobjs s obj = Some ob"
  shows "\<exists>pt. pframe_remove_from_pts K X p s = Inr (s\<lparr>pagetabs := pt\<rparr>)"
proof -
  obtain b bottom where "bottom_of obj ob = Some b" "mmobjs s b = Some bottom"
      "\<forall>v\<in>set (mmo_vmas bottom). area_linked s v"
    using assms(3,6) unfolding areas_linked_def by blast
  with remove_from_pts_loop_frame [OF assms(1) this(3), of K "pf_pagenum pf"] assms(2,4-6) show ?thesis
    by (simp add: pframe_remove_from_pts_def bottom_ok_def)
qed

text \<open>The state in which \<^verbatim>\<open>pframe_free\<close> drops the page's reference to its object.\<close>

definition uncached :: "kconsts \<Rightarrow> ptr \<Rightarrow> ptr \<Rightarrow> u32 \<Rightarrow> kstate \<Rightarrow> kstate" where
  "uncached K p obj pn s =
     s\<lparr>pframe_hash := (pframe_hash s)(hash_page K obj pn := remove1 p (pframe_hash s (hash_page K obj pn))),
       nallocated := nallocated s - 1, alloc_list := remove1 p (alloc_list s),
       pinned_list := remove1 p (pinned_list s), pframes := (pframes s)(p := None),
       mmobjs := (mmobjs s)(obj := map_option (\<lambda>x. x\<lparr>mmo_nrespages := mmo_nrespages x - 1,
         mmo_respages := remove1 p (mmo_respages x)\<rparr>) (mmobjs s obj))\<rparr>"

lemma pframe_free_puts:
  assumes "pt_frame X" and "bottom_ok X" and "areas_linked s" and p: "pframes s p = Some pf" "pf_obj pf = Some obj"
    and "mmobjs s obj = Some ob" and "pf_pincount pf = 0" and "\<not> pf_busy pf"
  shows "\<exists>pt. pframe_free K X put p s = put obj (uncached K p obj (pf_pagenum pf) (s\<lparr>pagetabs := pt\<rparr>))"
proof -
  obtain pt where "pframe_remove_from_pts K X p s = Inr (s\<lparr>pagetabs := pt\<rparr>)"
    using pframe_remove_from_pts_frame [OF assms(1-6)] by blast
  with assms show ?thesis
    by (auto simp: pframe_free_def pframe_is_pinned_def pframe_is_free_def Let_def uncached_def upd_obj_def
        unlink_pf_def intro!: exI [of _ pt])
qed

lemma pf_inv_pagetabs [simp]: "pf_inv K (s\<lparr>pagetabs := pt\<rparr>) = pf_inv K s"
  by (simp add: pf_inv_def link_inv_def hash_inv_def res_inv_def obj_ok_def)

lemma uncached_sel [simp]:
  "pframes (uncached K p obj pn s) = (pframes s)(p := None)"
  "mmobjs (uncached K p obj pn s) = (mmobjs s)(obj := map_option (\<lambda>x. x\<lparr>mmo_nrespages := mmo_nrespages x - 1,
         mmo_respages := remove1 p (mmo_respages x)\<rparr>) (mmobjs s obj))"
  "vmmaps (uncached K p obj pn s) = vmmaps s" "vmareas (uncached K p obj pn s) = vmareas s"
  "procs (uncached K p obj pn s) = procs s" "threads (uncached K p obj pn s) = threads s"
  "queues (uncached K p obj pn s) = queues s" "pagetabs (uncached K p obj pn s) = pagetabs s"
  "curproc (uncached K p obj pn s) = curproc s" "curthr (uncached K p obj pn s) = curthr s"
  by (simp_all add: uncached_def)

lemma link_inv_uncached:
  assumes "link_inv s" and "pframes s p = Some pf" and "pf_pincount pf = 0"
  shows "link_inv (uncached K p obj pn s)"
proof -
  have "p \<in> set (alloc_list s)" "p \<notin> set (pinned_list s)" using assms by (auto simp: link_inv_def)
  with assms show ?thesis by (auto simp: link_inv_def uncached_def remove1_idem set_remove1_eq)
qed

lemma hash_inv_uncached:
  assumes inv: "hash_inv K s" and p: "pframes s p = Some pf" "pf_obj pf = Some obj"
  shows "hash_inv K (uncached K p obj (pf_pagenum pf) s)" (is "hash_inv K ?s")
proof -
  have mem: "q \<in> set (pframe_hash s i) \<longleftrightarrow>
     (\<exists>pf ob. pframes s q = Some pf \<and> pf_obj pf = Some ob \<and> hash_page K ob (pf_pagenum pf) = i)" for q i
    using inv by (simp add: hash_inv_def)
  have dis: "distinct (pframe_hash s i)" for i using inv by (simp add: hash_inv_def)
  have "q \<in> set (pframe_hash ?s i) \<longleftrightarrow> q \<noteq> p \<and> q \<in> set (pframe_hash s i)" for q i
    using p mem [of p i] dis by (auto simp: uncached_def set_remove1_eq)
  then have "q \<in> set (pframe_hash ?s i) \<longleftrightarrow>
     (\<exists>pf ob. pframes ?s q = Some pf \<and> pf_obj pf = Some ob \<and> hash_page K ob (pf_pagenum pf) = i)" for q i
    using mem by auto
  moreover have "distinct (pframe_hash ?s i)" for i using dis by (simp add: uncached_def)
  moreover have "q = q'" if "pframes ?s q = Some pf" "pframes ?s q' = Some pf'" "same_page pf pf'" for q q' pf pf'
    using that inv by (auto simp: hash_inv_def split: if_splits)
  ultimately show ?thesis unfolding hash_inv_def by blast
qed

lemma res_inv_uncached:
  assumes inv: "res_inv s" and p: "pframes s p = Some pf" "pf_obj pf = Some obj"
  shows "res_inv (uncached K p obj pn s)" (is "res_inv ?s")
proof -
  have "\<exists>obj' ob'. pf_obj pf = Some obj' \<and> mmobjs ?s obj' = Some ob'" if "pframes ?s q = Some pf" for q pf
  proof -
    from that have "pframes s q = Some pf" by (simp split: if_splits)
    then obtain obj' ob' where "pf_obj pf = Some obj'" "mmobjs s obj' = Some ob'" by (rule res_inv_page [OF inv])
    then show ?thesis by (intro exI [of _ obj']) auto
  qed
  moreover have "obj_ok ?s obj' ob'" if o': "mmobjs ?s obj' = Some ob'" for obj' ob'
  proof (cases "obj' = obj")
    case True
    with o' obtain ob where ob: "mmobjs s obj = Some ob" "ob' = ob\<lparr>mmo_nrespages := mmo_nrespages ob - 1,
         mmo_respages := remove1 p (mmo_respages ob)\<rparr>" by auto
    have "p \<in> set (mmo_respages ob)" using res_inv_obj [OF inv ob(1)] p by (auto simp: obj_ok_def)
    then show ?thesis using ob True res_inv_obj [OF inv ob(1)] by (auto simp: obj_ok_def set_remove1_eq)
  next
    case False
    with o' have "mmobjs s obj' = Some ob'" by simp
    from res_inv_obj [OF inv this] False p show ?thesis by (auto simp: obj_ok_def)
  qed
  ultimately show ?thesis unfolding res_inv_def by blast
qed

lemma pf_inv_uncached:
  assumes "pf_inv K s" and "pframes s p = Some pf" and "pf_obj pf = Some obj" and "pf_pincount pf = 0"
  shows "pf_inv K (uncached K p obj (pf_pagenum pf) s)"
  using link_inv_uncached [of s p pf K obj] hash_inv_uncached [of K s p pf obj]
    res_inv_uncached [of s p pf obj K] assms
  by (simp add: pf_inv_def)

section \<open>The shape of the objects\<close>

text \<open>What stays when pages come and go and references are counted.\<close>

definition shape :: "kstate \<Rightarrow> ptr \<Rightarrow> (mmobj_ops \<times> ptr option \<times> ptr option \<times> ptr list) option" where
  "shape s obj = map_option (\<lambda>ob. (mmo_ops ob, mmo_shadowed ob, mmo_bottom ob, mmo_vmas ob)) (mmobjs s obj)"

lemma shapeD:
  assumes "shape s' = shape s" and "mmobjs s' obj = Some ob'"
  shows "\<exists>ob. mmobjs s obj = Some ob \<and> mmo_ops ob = mmo_ops ob' \<and> mmo_shadowed ob = mmo_shadowed ob' \<and>
    mmo_bottom ob = mmo_bottom ob' \<and> mmo_vmas ob = mmo_vmas ob'"
proof -
  from assms(1) have "shape s' obj = shape s obj" by simp
  with assms(2) show ?thesis by (cases "mmobjs s obj") (auto simp: shape_def)
qed

lemma areas_linked_shape:
  assumes sh: "shape s' = shape s" and fr: "vmareas s' = vmareas s" "vmmaps s' = vmmaps s" "procs s' = procs s"
    and lk: "areas_linked s"
  shows "areas_linked s'"
  unfolding areas_linked_def
proof (intro allI impI)
  fix obj ob'
  assume "mmobjs s' obj = Some ob'"
  from shapeD [OF sh this] obtain ob where ob: "mmobjs s obj = Some ob" "bottom_of obj ob' = bottom_of obj ob"
    by (auto simp: bottom_of_def)
  then obtain b bt where b: "bottom_of obj ob = Some b" "mmobjs s b = Some bt"
      "\<forall>v\<in>set (mmo_vmas bt). area_linked s v"
    using lk unfolding areas_linked_def by blast
  have "area_linked s' v = area_linked s v" for v by (simp add: area_linked_def fr)
  with shapeD [OF sh [symmetric] b(2)] b ob
  show "\<exists>b bottom. bottom_of obj ob' = Some b \<and> mmobjs s' b = Some bottom \<and>
      (\<forall>v\<in>set (mmo_vmas bottom). area_linked s' v)"
    by auto
qed

section \<open>What the page frame code leaves alone\<close>

definition mem_rest where
  "mem_rest s = ((threads s, queues s, curthr s, curproc s, ipl s, intr_on s, km_holder s),
     (procs s, proc_list s, next_pid s, proc_initproc s, vmmaps s, vmareas s),
     (files s, vnodes s, vfs_root_vn s, kmem_ptr s, kmem_regs s))"

lemma mem_restD:
  assumes "mem_rest s' = mem_rest s"
  shows "threads s' = threads s" "queues s' = queues s" "curthr s' = curthr s" "curproc s' = curproc s"
    "procs s' = procs s" "vmmaps s' = vmmaps s" "vmareas s' = vmareas s" "proc_list s' = proc_list s"
    "files s' = files s" "vnodes s' = vnodes s"
  using assms by (simp_all add: mem_rest_def)

lemma mem_rest_upd [simp]:
  "mem_rest (s\<lparr>mmobjs := a\<rparr>) = mem_rest s" "mem_rest (s\<lparr>pframes := b\<rparr>) = mem_rest s"
  "mem_rest (s\<lparr>alloc_list := c\<rparr>) = mem_rest s" "mem_rest (s\<lparr>pinned_list := c\<rparr>) = mem_rest s"
  "mem_rest (s\<lparr>nallocated := d\<rparr>) = mem_rest s" "mem_rest (s\<lparr>npinned := d\<rparr>) = mem_rest s"
  "mem_rest (s\<lparr>pframe_hash := e\<rparr>) = mem_rest s" "mem_rest (s\<lparr>pagetabs := f\<rparr>) = mem_rest s"
  "mem_rest (upd_obj obj g s) = mem_rest s" "mem_rest (upd_pf p h s) = mem_rest s"
  "mem_rest (unlink_pf p s) = mem_rest s" "mem_rest (uncached K p obj pn s) = mem_rest s"
  by (simp_all add: mem_rest_def upd_obj_def upd_pf_def unlink_pf_def uncached_def)

lemma mem_rest_touch [simp]: "mem_rest (touch r s) = mem_rest s"
  by (simp add: touch_def split: option.splits)

end
