(* ===== verification/Pager.thy ===== *)
theory Pager
  imports Pframe
begin

text \<open>
  The entry points of anonymous and shadow objects,
  \<^verbatim>\<open>kernel/vm/anon.c\<close> and \<^verbatim>\<open>kernel/vm/shadow.c\<close>, and the calls
  through the operation tables that connect them with the page frame code.

  Two recursions run through the tables.  Dropping a reference frees pages, each
  of which drops a reference of the same object, and drops a reference of the
  shadowed object; looking up a page of a shadow object may fill it, which looks
  up a page of the bottom object.  Both take fuel, and so do the loops that
  walk a chain of shadow objects.
\<close>

section \<open>Dropping a reference\<close>

text \<open>\<^verbatim>\<open>list_iterate_begin(&o->mmo_respages, ...)\<close> in both \<^verbatim>\<open>put\<close> routines.\<close>

fun uncache_loop :: "(ptr \<Rightarrow> kstate \<Rightarrow> kstate res) \<Rightarrow> ptr list \<Rightarrow> kstate \<Rightarrow> kstate res" where
  "uncache_loop free [] s = Inr s"
| "uncache_loop free (p # ps) s =
     bindE (pframe_unpin p s) (\<lambda>s1. bindE (free p s1) (\<lambda>s2. uncache_loop free ps s2))"

definition anon_put :: "kconsts \<Rightarrow> kext \<Rightarrow> obj_put \<Rightarrow> ptr \<Rightarrow> kstate \<Rightarrow> kstate res" where
  "anon_put K X put obj s =
     bindE (deref (mmobjs s obj)) (\<lambda>ob.
       if \<not> (0 < mmo_refcount ob \<and> mmo_ops ob = Anon_ops) then Inl KASSERT_failed
       else if mmo_refcount ob - 1 = mmo_nrespages ob then
         bindE (uncache_loop (pframe_free K X put) (mmo_respages ob) s) (\<lambda>s1.
           Inr (s1\<lparr>mmobjs := (mmobjs s1)(obj := None)\<rparr>))
       else Inr (upd_obj obj (\<lambda>x. x\<lparr>mmo_refcount := mmo_refcount x - 1\<rparr>) s))"

text \<open>
  After freeing the object \<^verbatim>\<open>shadow_put\<close> falls through to
  \<^verbatim>\<open>o->mmo_refcount--\<close>, a write to freed memory that no live object sees.
\<close>

definition shadow_put :: "kconsts \<Rightarrow> kext \<Rightarrow> obj_put \<Rightarrow> ptr \<Rightarrow> kstate \<Rightarrow> kstate res" where
  "shadow_put K X put obj s =
     bindE (deref (mmobjs s obj)) (\<lambda>ob.
       if \<not> (0 < mmo_refcount ob \<and> mmo_ops ob = Shadow_ops) then Inl KASSERT_failed
       else if mmo_refcount ob - 1 = mmo_nrespages ob then
         bindE (uncache_loop (pframe_free K X put) (mmo_respages ob) s) (\<lambda>s1.
         bindE (deref (mmobjs s1 obj)) (\<lambda>ob1.
         bindE (deref (mmo_shadowed ob1)) (\<lambda>sh.
         bindE (put sh s1) (\<lambda>s2.
           Inr (s2\<lparr>mmobjs := (mmobjs s2)(obj := None)\<rparr>)))))
       else Inr (upd_obj obj (\<lambda>x. x\<lparr>mmo_refcount := mmo_refcount x - 1\<rparr>) s))"

primrec mmobj_put :: "nat \<Rightarrow> kconsts \<Rightarrow> kext \<Rightarrow> ptr \<Rightarrow> kstate \<Rightarrow> kstate res" where
  "mmobj_put 0 K X obj s = Inl Never_returns"
| "mmobj_put (Suc n) K X obj s =
     bindE (deref (mmobjs s obj)) (\<lambda>ob.
       case mmo_ops ob of
         Anon_ops \<Rightarrow> anon_put K X (mmobj_put n K X) obj s
       | Shadow_ops \<Rightarrow> shadow_put K X (mmobj_put n K X) obj s
       | Other_ops \<Rightarrow> o_put X obj s)"

section \<open>Looking up and filling pages\<close>

type_synonym obj_lookup = "ptr \<Rightarrow> u32 \<Rightarrow> bool \<Rightarrow> kstate \<Rightarrow> page_result"

definition anon_lookuppage :: "(ptr \<Rightarrow> u32 \<Rightarrow> kstate \<Rightarrow> page_result) \<Rightarrow> obj_lookup" where
  "anon_lookuppage get obj pagenum forwrite s = get obj pagenum s"

definition anon_fillpage :: "kconsts \<Rightarrow> obj_page_op" where
  "anon_fillpage K obj p s =
     bindE (deref (pframes s p)) (\<lambda>pf.
       if \<not> pf_busy pf then Inl KASSERT_failed
       else if pframe_is_pinned pf then Inl KASSERT_failed
       else
         bindE (pframe_pin p
                  (upd_pf p (\<lambda>x. x\<lparr>pf_data := (\<lambda>i. if i < PAGE_SIZE K then 0 else pf_data x i)\<rparr>) s)) (\<lambda>s1.
           Inr (0, s1)))"

definition anon_dirtypage :: obj_page_op where
  "anon_dirtypage obj p s = Inr (- 1, s)"

definition anon_cleanpage :: obj_page_op where
  "anon_cleanpage obj p s = Inr (- 1, s)"

primrec lookup_walk :: "nat \<Rightarrow> kconsts \<Rightarrow> u32 \<Rightarrow> ptr \<Rightarrow> kstate \<Rightarrow> (ptr option \<times> ptr \<times> kstate) res" where
  "lookup_walk 0 K pagenum curr_obj s = Inl Never_returns"
| "lookup_walk (Suc n) K pagenum curr_obj s =
     bindE (deref (mmobjs s curr_obj)) (\<lambda>ob.
       case mmo_shadowed ob of
         None \<Rightarrow> Inr (None, curr_obj, s)
       | Some sh \<Rightarrow>
           bindE (pframe_get_resident K curr_obj pagenum s) (\<lambda>(curr_pf, s1).
             if curr_pf \<noteq> None then Inr (curr_pf, sh, s1)
             else lookup_walk n K pagenum sh s1))"

definition shadow_lookuppage ::
  "nat \<Rightarrow> kconsts \<Rightarrow> (ptr \<Rightarrow> u32 \<Rightarrow> kstate \<Rightarrow> page_result) \<Rightarrow> obj_lookup \<Rightarrow> obj_lookup" where
  "shadow_lookuppage n K get lookup obj pagenum forwrite s =
     (if forwrite then get obj pagenum s
      else
        bindE (lookup_walk n K pagenum obj s) (\<lambda>(curr_pf, curr_obj, s1).
          case curr_pf of
            None \<Rightarrow> lookup curr_obj pagenum forwrite s1
          | Some p \<Rightarrow>
              bindE (deref (pframes s1 p)) (\<lambda>pf.
                if \<not> (pagenum = pf_pagenum pf \<and> \<not> pf_busy pf) then Inl KASSERT_failed
                else Inr (0, Some p, s1))))"

primrec fill_walk ::
  "nat \<Rightarrow> kconsts \<Rightarrow> ptr option \<Rightarrow> u32 \<Rightarrow> ptr option \<Rightarrow> kstate \<Rightarrow> (ptr option \<times> ptr option \<times> kstate) res" where
  "fill_walk 0 K bottom pagenum curr_obj s = Inl Never_returns"
| "fill_walk (Suc n) K bottom pagenum curr_obj s =
     (if bottom = curr_obj then Inr (None, curr_obj, s)
      else
        bindE (deref curr_obj) (\<lambda>c.
        bindE (pframe_get_resident K c pagenum s) (\<lambda>(curr_pf, s1).
        bindE (deref (mmobjs s1 c)) (\<lambda>ob.
          if curr_pf \<noteq> None then Inr (curr_pf, mmo_shadowed ob, s1)
          else fill_walk n K bottom pagenum (mmo_shadowed ob) s1))))"

text \<open>
  The condition \<^verbatim>\<open>(retval = pframe_lookup(...) < 0)\<close> assigns the truth value of
  the comparison, so the routine returns 1 when the lookup fails.
\<close>

definition shadow_copy :: "kconsts \<Rightarrow> ptr \<Rightarrow> ptr option \<Rightarrow> kstate \<Rightarrow> (int \<times> kstate) res" where
  "shadow_copy K p curr_pf s =
     bindE (pframe_pin p s) (\<lambda>s1.
     bindE (deref curr_pf) (\<lambda>q.
     bindE (deref (pframes s1 q)) (\<lambda>src.
       Inr (0, upd_pf p (\<lambda>x. x\<lparr>pf_data := (\<lambda>i. if i < PAGE_SIZE K then pf_data src i else pf_data x i)\<rparr>) s1))))"

definition shadow_fillpage :: "nat \<Rightarrow> kconsts \<Rightarrow> obj_lookup \<Rightarrow> obj_page_op" where
  "shadow_fillpage n K lookup obj p s =
     bindE (deref (pframes s p)) (\<lambda>pf.
       if \<not> pf_busy pf then Inl KASSERT_failed
       else if pframe_is_pinned pf then Inl KASSERT_failed
       else
         bindE (deref (mmobjs s obj)) (\<lambda>ob.
         bindE (fill_walk n K (mmo_bottom ob) (pf_pagenum pf) (mmo_shadowed ob) s) (\<lambda>(curr_pf, curr_obj, s1).
           if curr_pf = None then
             (case curr_obj of
                None \<Rightarrow> Inl KASSERT_failed
              | Some c \<Rightarrow>
                  bindE (lookup c (pf_pagenum pf) True s1) (\<lambda>(ret, r, s2).
                    if ret < 0 then Inr (1, s2) else shadow_copy K p r s2))
           else shadow_copy K p curr_pf s1)))"

definition shadow_dirtypage :: obj_page_op where
  "shadow_dirtypage obj p s =
     bindE (deref (pframes s p)) (\<lambda>_. Inr (0, upd_pf p (\<lambda>x. x\<lparr>pf_dirty := True\<rparr>) s))"

definition shadow_cleanpage :: obj_page_op where
  "shadow_cleanpage obj p s = Inr (- 1, s)"

section \<open>Calls through the operation table\<close>

definition mmobj_fillpage :: "nat \<Rightarrow> kconsts \<Rightarrow> kext \<Rightarrow> obj_lookup \<Rightarrow> obj_page_op" where
  "mmobj_fillpage n K X lookup obj p s =
     bindE (deref (mmobjs s obj)) (\<lambda>ob.
       case mmo_ops ob of
         Anon_ops \<Rightarrow> anon_fillpage K obj p s
       | Shadow_ops \<Rightarrow> shadow_fillpage n K lookup obj p s
       | Other_ops \<Rightarrow> o_fillpage X obj p s)"

definition mmobj_dirtypage :: "kext \<Rightarrow> obj_page_op" where
  "mmobj_dirtypage X obj p s =
     bindE (deref (mmobjs s obj)) (\<lambda>ob.
       case mmo_ops ob of
         Anon_ops \<Rightarrow> anon_dirtypage obj p s
       | Shadow_ops \<Rightarrow> shadow_dirtypage obj p s
       | Other_ops \<Rightarrow> o_dirtypage X obj p s)"

definition mmobj_cleanpage :: "kext \<Rightarrow> obj_page_op" where
  "mmobj_cleanpage X obj p s =
     bindE (deref (mmobjs s obj)) (\<lambda>ob.
       case mmo_ops ob of
         Anon_ops \<Rightarrow> anon_cleanpage obj p s
       | Shadow_ops \<Rightarrow> shadow_cleanpage obj p s
       | Other_ops \<Rightarrow> o_cleanpage X obj p s)"

primrec pframe_lookup :: "nat \<Rightarrow> kconsts \<Rightarrow> kext \<Rightarrow> obj_lookup" where
  "pframe_lookup 0 K X obj pagenum forwrite s = Inl Never_returns"
| "pframe_lookup (Suc n) K X obj pagenum forwrite s =
     (let get = pframe_get K X (mmobj_fillpage (Suc n) K X (pframe_lookup n K X)) (mmobj_put n K X)
      in bindE (deref (mmobjs s obj)) (\<lambda>ob.
           case mmo_ops ob of
             Anon_ops \<Rightarrow> anon_lookuppage get obj pagenum forwrite s
           | Shadow_ops \<Rightarrow> shadow_lookuppage (Suc n) K get (pframe_lookup n K X) obj pagenum forwrite s
           | Other_ops \<Rightarrow> o_lookuppage X obj pagenum forwrite s))"

section \<open>Cleaning and paging out\<close>

fun clean_scan :: "kstate \<Rightarrow> ptr list \<Rightarrow> ptr option res" where
  "clean_scan s [] = Inr None"
| "clean_scan s (p # ps) =
     bindE (deref (pframes s p)) (\<lambda>pf.
       if pframe_is_pinned pf then Inl KASSERT_failed
       else if pframe_is_free pf then Inl KASSERT_failed
       else if pf_busy pf then Inl Must_sleep
       else if pf_dirty pf then Inr (Some p)
       else clean_scan s ps)"

text \<open>\<^verbatim>\<open>goto list_start\<close> after every page that is cleaned: one unit of fuel each.\<close>

primrec pframe_clean_all :: "nat \<Rightarrow> kconsts \<Rightarrow> kext \<Rightarrow> kstate \<Rightarrow> kstate res" where
  "pframe_clean_all 0 K X s = Inl Never_returns"
| "pframe_clean_all (Suc n) K X s =
     bindE (clean_scan s (alloc_list s)) (\<lambda>r.
       case r of
         None \<Rightarrow> Inr s
       | Some p \<Rightarrow>
           bindE (pframe_clean K X (mmobj_cleanpage X) p s) (\<lambda>(_, s1). pframe_clean_all n K X s1))"

primrec pageout_loop :: "nat \<Rightarrow> nat \<Rightarrow> kconsts \<Rightarrow> kext \<Rightarrow> u32 \<Rightarrow> kstate \<Rightarrow> kstate res" where
  "pageout_loop 0 d K X target s = Inl Never_returns"
| "pageout_loop (Suc n) d K X target s =
     (if target \<le> page_free_count X s \<or> alloc_list s = [] then Inr s
      else
        let p = hd (alloc_list s) in
        bindE (deref (pframes s p)) (\<lambda>pf.
          if pf_busy pf then Inl Must_sleep
          else if pf_dirty pf then
            bindE (pframe_clean K X (mmobj_cleanpage X) p s) (\<lambda>(_, s1). pageout_loop n d K X target s1)
          else
            bindE (pframe_free K X (mmobj_put d K X) p s) (\<lambda>s1. pageout_loop n d K X target s1)))"

text \<open>One round of the daemon, up to the point where it sleeps or is cancelled.\<close>

definition pageoutd_run ::
  "nat \<Rightarrow> nat \<Rightarrow> kconsts \<Rightarrow> kext \<Rightarrow> interrupt list \<Rightarrow> u32 \<Rightarrow> kstate \<Rightarrow> (int option \<times> kstate) res" where
  "pageoutd_run n d K X irqs target s =
     (if \<not> 0 \<le> nallocated s then Inl KASSERT_failed
      else
        bindE (pageout_loop n d K X target s) (\<lambda>s1.
        bindE (sched_broadcast_on K Allocq s1) (\<lambda>s2.
          sched_cancellable_sleep_on K irqs Pageoutq s2)))"

section \<open>Dropping a reference frees an object at the right moment\<close>

declare mmobj_put.simps [simp del] pframe_lookup.simps [simp del]

lemma obj_ok_mem: "obj_ok s obj ob \<Longrightarrow> p \<in> set (mmo_respages ob) \<Longrightarrow> pframes s p = Some pf \<Longrightarrow> pf_obj pf = Some obj"
  by (auto simp: obj_ok_def)

lemma obj_ref_inv:
  assumes "pf_inv K s" and "mmobjs s obj = Some ob" and "mmo_ops ob \<noteq> Other_ops"
  shows "mmo_nrespages ob < mmo_refcount ob" and "0 < mmo_refcount ob"
  using res_inv_obj [OF pf_invD(3) [OF assms(1)] assms(2)] assms(3) by (auto simp: obj_ok_def)

lemma mmobj_put_more:
  assumes "pf_inv K s" and "mmobjs s obj = Some ob" and "mmo_ops ob \<noteq> Other_ops"
    and "mmo_refcount ob - 1 \<noteq> mmo_nrespages ob"
  shows "mmobj_put (Suc n) K X obj s = Inr (upd_obj obj (\<lambda>x. x\<lparr>mmo_refcount := mmo_refcount x - 1\<rparr>) s)"
  using assms obj_ref_inv [OF assms(1-3)]
  by (cases "mmo_ops ob") (simp_all add: mmobj_put.simps anon_put_def shadow_put_def)

lemma pf_inv_decr:
  assumes "pf_inv K s" and "mmobjs s obj = Some ob" and "mmo_nrespages ob < mmo_refcount ob - 1"
  shows "pf_inv K (upd_obj obj (\<lambda>x. x\<lparr>mmo_refcount := mmo_refcount x - 1\<rparr>) s)" (is "pf_inv K ?s")
proof -
  have "obj_ok ?s obj' ob'" if "mmobjs ?s obj' = Some ob'" for obj' ob'
    using that assms res_inv_obj [OF pf_invD(3) [OF assms(1)]]
    by (cases "obj' = obj") (force simp: obj_ok_def)+
  moreover have "\<exists>obj ob. pf_obj pf = Some obj \<and> mmobjs ?s obj = Some ob" if "pframes ?s p = Some pf" for p pf
  proof -
    from that have "pframes s p = Some pf" by simp
    then obtain o1 ob1 where "pf_obj pf = Some o1" "mmobjs s o1 = Some ob1"
      by (rule res_inv_page [OF pf_invD(3) [OF assms(1)]])
    then show ?thesis by (intro exI [of _ o1]) auto
  qed
  ultimately have "res_inv ?s" unfolding res_inv_def by blast
  then show ?thesis using pf_invD [OF assms(1)] hash_inv_cong [of ?s s K] by (simp add: pf_inv_def link_inv_def)
qed

text \<open>
  One round of the loop that uncaches the pages of an object whose last outside
  reference has gone: unpinning and freeing a page drops the reference that
  the page held and nothing else.
\<close>

lemma uncache_one:
  assumes inv: "pf_inv K s" and lk: "areas_linked s" and X: "pt_frame X" "bottom_ok X"
    and ob: "mmobjs s obj = Some ob" "mmo_ops ob \<noteq> Other_ops" "mmo_respages ob = p # ps"
    and rc: "mmo_refcount ob = mmo_nrespages ob + 1"
    and p: "pframes s p = Some pf" "pf_pincount pf = 1" "\<not> pf_busy pf"
  shows "\<exists>s1 s2. pframe_unpin p s = Inr s1 \<and> pframe_free K X (mmobj_put (Suc n) K X) p s1 = Inr s2 \<and>
    pf_inv K s2 \<and> shape s2 = shape s \<and> mem_rest s2 = mem_rest s \<and> pframes s2 = (pframes s)(p := None) \<and>
    mmobjs s2 = (mmobjs s)(obj \<mapsto> ob\<lparr>mmo_refcount := mmo_refcount ob - 1, mmo_nrespages := mmo_nrespages ob - 1,
                                   mmo_respages := ps\<rparr>)"
proof -
  have po: "pf_obj pf = Some obj"
    using obj_ok_mem [OF res_inv_obj [OF pf_invD(3) [OF inv] ob(1)] _ p(1)] ob(3) by simp
  obtain s1 where s1: "pframe_unpin p s = Inr s1" "pf_inv K s1"
      "pframes s1 = (pframes s)(p \<mapsto> pf\<lparr>pf_pincount := 0\<rparr>)" "mmobjs s1 = mmobjs s"
    and fr1: "s1 = s\<lparr>pframes := pframes s1, alloc_list := alloc_list s1, pinned_list := pinned_list s1,
           nallocated := nallocated s1, npinned := npinned s1\<rparr>"
    using pframe_unpin_last [OF inv p(1,2)] by blast
  have mr1: "mem_rest s1 = mem_rest s" by (subst fr1) simp
  have lk1: "areas_linked s1"
    by (rule areas_linked_shape [OF _ _ _ _ lk]) (use s1 mem_restD [OF mr1] in \<open>auto simp: shape_def\<close>)
  let ?pf = "pf\<lparr>pf_pincount := 0\<rparr>"
  have p1: "pframes s1 p = Some ?pf" "pf_obj ?pf = Some obj" "mmobjs s1 obj = Some ob" "pf_pincount ?pf = 0"
      "\<not> pf_busy ?pf"
    using s1 po ob p by simp_all
  obtain pt where fr: "pframe_free K X (mmobj_put (Suc n) K X) p s1 =
      mmobj_put (Suc n) K X obj (uncached K p obj (pf_pagenum ?pf) (s1\<lparr>pagetabs := pt\<rparr>))"
    using pframe_free_puts [OF X lk1 p1] by blast
  let ?s3 = "uncached K p obj (pf_pagenum ?pf) (s1\<lparr>pagetabs := pt\<rparr>)"
  let ?ob3 = "ob\<lparr>mmo_nrespages := mmo_nrespages ob - 1, mmo_respages := ps\<rparr>"
  have inv3: "pf_inv K ?s3" by (rule pf_inv_uncached) (use s1 p1 in simp_all)
  have ob3: "mmobjs ?s3 obj = Some ?ob3" using s1(4) ob by simp
  have put: "mmobj_put (Suc n) K X obj ?s3 = Inr (upd_obj obj (\<lambda>x. x\<lparr>mmo_refcount := mmo_refcount x - 1\<rparr>) ?s3)"
    (is "_ = Inr ?s2")
    by (rule mmobj_put_more [OF inv3 ob3]) (use ob rc in simp_all)
  have "pf_inv K ?s2" by (rule pf_inv_decr [OF inv3 ob3]) (use rc in simp)
  moreover have "shape ?s2 = shape s" using s1(4) ob by (intro ext) (simp add: shape_def)
  moreover have "mmobjs ?s2 = (mmobjs s)(obj \<mapsto> ob\<lparr>mmo_refcount := mmo_refcount ob - 1,
      mmo_nrespages := mmo_nrespages ob - 1, mmo_respages := ps\<rparr>)"
    using s1(4) ob by (cases ob) simp
  moreover have "pframes ?s2 = (pframes s)(p := None)" using s1(3) by simp
  moreover have "mem_rest ?s2 = mem_rest s" using mr1 by simp
  ultimately show ?thesis using s1(1) fr put by auto
qed

lemma uncache_loop_all:
  assumes "pf_inv K s" "areas_linked s" and X: "pt_frame X" "bottom_ok X"
    and "mmobjs s obj = Some ob" "mmo_ops ob \<noteq> Other_ops" "mmo_respages ob = ps"
    and "mmo_refcount ob = mmo_nrespages ob + 1"
    and "\<forall>p\<in>set ps. \<exists>pf. pframes s p = Some pf \<and> pf_pincount pf = 1 \<and> \<not> pf_busy pf"
  shows "\<exists>s'. uncache_loop (pframe_free K X (mmobj_put (Suc n) K X)) ps s = Inr s' \<and> pf_inv K s' \<and>
    shape s' = shape s \<and> mem_rest s' = mem_rest s \<and>
    pframes s' = (\<lambda>p. if p \<in> set ps then None else pframes s p) \<and>
    mmobjs s' = (mmobjs s)(obj \<mapsto> ob\<lparr>mmo_refcount := 1, mmo_nrespages := 0, mmo_respages := []\<rparr>)"
  using assms(1,2,5-)
proof (induction ps arbitrary: s ob)
  case Nil
  have "mmo_nrespages ob = 0"
    using res_inv_obj [OF pf_invD(3) [OF Nil.prems(1)] Nil.prems(3)] Nil.prems by (auto simp: obj_ok_def)
  with Nil.prems have "ob\<lparr>mmo_refcount := 1, mmo_nrespages := 0, mmo_respages := []\<rparr> = ob" by (cases ob) simp
  with Nil.prems show ?case by auto
next
  case (Cons p ps)
  obtain pf where pf: "pframes s p = Some pf" "pf_pincount pf = 1" "\<not> pf_busy pf" using Cons.prems(7) by auto
  let ?ob = "ob\<lparr>mmo_refcount := mmo_refcount ob - 1, mmo_nrespages := mmo_nrespages ob - 1, mmo_respages := ps\<rparr>"
  obtain s1 s2 where s2: "pframe_unpin p s = Inr s1" "pframe_free K X (mmobj_put (Suc n) K X) p s1 = Inr s2"
      "pf_inv K s2" "shape s2 = shape s" "mem_rest s2 = mem_rest s" "pframes s2 = (pframes s)(p := None)"
      "mmobjs s2 = (mmobjs s)(obj \<mapsto> ?ob)"
    using uncache_one [OF Cons.prems(1,2) X Cons.prems(3-6) pf, of n] by blast
  have lk2: "areas_linked s2"
    by (rule areas_linked_shape [OF s2(4) _ _ _ Cons.prems(2)]) (use mem_restD [OF s2(5)] in simp_all)
  have "p \<notin> set ps" using res_inv_obj [OF pf_invD(3) [OF Cons.prems(1)] Cons.prems(3)] Cons.prems(5)
    by (auto simp: obj_ok_def)
  then have pin: "\<forall>q\<in>set ps. \<exists>pf. pframes s2 q = Some pf \<and> pf_pincount pf = 1 \<and> \<not> pf_busy pf"
    using Cons.prems(7) s2(6) by auto
  have ob2: "mmobjs s2 obj = Some ?ob" "mmo_ops ?ob \<noteq> Other_ops" "mmo_respages ?ob = ps"
      "mmo_refcount ?ob = mmo_nrespages ?ob + 1"
    using s2(7) Cons.prems by simp_all
  obtain s' where s': "uncache_loop (pframe_free K X (mmobj_put (Suc n) K X)) ps s2 = Inr s'" "pf_inv K s'"
    "shape s' = shape s2" "mem_rest s' = mem_rest s2"
    "pframes s' = (\<lambda>p. if p \<in> set ps then None else pframes s2 p)"
    "mmobjs s' = (mmobjs s2)(obj \<mapsto> ?ob\<lparr>mmo_refcount := 1, mmo_nrespages := 0, mmo_respages := []\<rparr>)"
    using Cons.IH [OF s2(3) lk2 ob2 pin] by blast
  have "pframes s' = (\<lambda>q. if q \<in> set (p # ps) then None else pframes s q)"
    using s'(5) s2(6) by auto
  then show ?case using s' s2 by (intro exI [of _ s']) simp
qed

lemma pf_inv_drop_obj:
  assumes inv: "pf_inv K s" and ob: "mmobjs s obj = Some ob" "mmo_respages ob = []"
  shows "pf_inv K (s\<lparr>mmobjs := (mmobjs s)(obj := None)\<rparr>)" (is "pf_inv K ?s")
proof -
  have none: "pf_obj pf \<noteq> Some obj" if "pframes s p = Some pf" for p pf
    using res_inv_obj [OF pf_invD(3) [OF inv] ob(1)] ob(2) that by (auto simp: obj_ok_def)
  have "\<exists>obj ob. pf_obj pf = Some obj \<and> mmobjs ?s obj = Some ob" if "pframes ?s p = Some pf" for p pf
  proof -
    from that have p: "pframes s p = Some pf" by simp
    then obtain o1 ob1 where "pf_obj pf = Some o1" "mmobjs s o1 = Some ob1"
      by (rule res_inv_page [OF pf_invD(3) [OF inv]])
    with none [OF p] show ?thesis by (intro exI [of _ o1]) auto
  qed
  moreover have "obj_ok ?s obj' ob'" if "mmobjs ?s obj' = Some ob'" for obj' ob'
    using that res_inv_obj [OF pf_invD(3) [OF inv], of obj' ob'] by (auto simp: obj_ok_def split: if_splits)
  ultimately have "res_inv ?s" unfolding res_inv_def by blast
  then show ?thesis using pf_invD [OF inv] hash_inv_cong [of ?s s K] by (simp add: pf_inv_def link_inv_def)
qed

lemma anon_put_last_ref:
  assumes inv: "pf_inv K s" and lk: "areas_linked s" and X: "pt_frame X" "bottom_ok X"
    and ob: "mmobjs s obj = Some ob" "mmo_ops ob = Anon_ops" "mmo_refcount ob = mmo_nrespages ob + 1"
    and pin: "\<forall>p\<in>set (mmo_respages ob). \<exists>pf. pframes s p = Some pf \<and> pf_pincount pf = 1 \<and> \<not> pf_busy pf"
  shows "\<exists>s'. mmobj_put (Suc (Suc n)) K X obj s = Inr s' \<and> pf_inv K s' \<and> mem_rest s' = mem_rest s \<and>
    mmobjs s' = (mmobjs s)(obj := None) \<and>
    pframes s' = (\<lambda>p. if p \<in> set (mmo_respages ob) then None else pframes s p)"
proof -
  have no: "mmo_ops ob \<noteq> Other_ops" using ob(2) by simp
  obtain s1 where s1: "uncache_loop (pframe_free K X (mmobj_put (Suc n) K X)) (mmo_respages ob) s = Inr s1"
      "pf_inv K s1" "mem_rest s1 = mem_rest s"
      "pframes s1 = (\<lambda>p. if p \<in> set (mmo_respages ob) then None else pframes s p)"
      "mmobjs s1 = (mmobjs s)(obj \<mapsto> ob\<lparr>mmo_refcount := 1, mmo_nrespages := 0, mmo_respages := []\<rparr>)"
    using uncache_loop_all [OF inv lk X ob(1) no refl ob(3) pin, of n] by blast
  have "pf_inv K (s1\<lparr>mmobjs := (mmobjs s1)(obj := None)\<rparr>)"
    by (rule pf_inv_drop_obj [OF s1(2), of _ "ob\<lparr>mmo_refcount := 1, mmo_nrespages := 0, mmo_respages := []\<rparr>"])
      (use s1(5) in simp_all)
  moreover have "mmobj_put (Suc (Suc n)) K X obj s = Inr (s1\<lparr>mmobjs := (mmobjs s1)(obj := None)\<rparr>)"
    using ob s1(1) obj_ref_inv [OF inv ob(1) no] by (simp add: mmobj_put.simps(2) [of "Suc n"] anon_put_def)
  ultimately show ?thesis using s1 by auto
qed

lemma shadow_put_last_ref:
  assumes inv: "pf_inv K s" and lk: "areas_linked s" and X: "pt_frame X" "bottom_ok X"
    and ob: "mmobjs s obj = Some ob" "mmo_ops ob = Shadow_ops" "mmo_refcount ob = mmo_nrespages ob + 1"
    and sh: "mmo_shadowed ob = Some sh"
    and pin: "\<forall>p\<in>set (mmo_respages ob). \<exists>pf. pframes s p = Some pf \<and> pf_pincount pf = 1 \<and> \<not> pf_busy pf"
  shows "\<exists>s1. pf_inv K s1 \<and> mem_rest s1 = mem_rest s \<and> shape s1 = shape s \<and>
    pframes s1 = (\<lambda>p. if p \<in> set (mmo_respages ob) then None else pframes s p) \<and>
    mmobjs s1 = (mmobjs s)(obj \<mapsto> ob\<lparr>mmo_refcount := 1, mmo_nrespages := 0, mmo_respages := []\<rparr>) \<and>
    mmobj_put (Suc (Suc n)) K X obj s =
      bindE (mmobj_put (Suc n) K X sh s1) (\<lambda>s2. Inr (s2\<lparr>mmobjs := (mmobjs s2)(obj := None)\<rparr>))"
proof -
  have no: "mmo_ops ob \<noteq> Other_ops" using ob(2) by simp
  obtain s1 where s1: "uncache_loop (pframe_free K X (mmobj_put (Suc n) K X)) (mmo_respages ob) s = Inr s1"
      "pf_inv K s1" "mem_rest s1 = mem_rest s" "shape s1 = shape s"
      "pframes s1 = (\<lambda>p. if p \<in> set (mmo_respages ob) then None else pframes s p)"
      "mmobjs s1 = (mmobjs s)(obj \<mapsto> ob\<lparr>mmo_refcount := 1, mmo_nrespages := 0, mmo_respages := []\<rparr>)"
    using uncache_loop_all [OF inv lk X ob(1) no refl ob(3) pin, of n] by blast
  have "mmobj_put (Suc (Suc n)) K X obj s =
      bindE (mmobj_put (Suc n) K X sh s1) (\<lambda>s2. Inr (s2\<lparr>mmobjs := (mmobjs s2)(obj := None)\<rparr>))"
    using ob sh s1(1,6) obj_ref_inv [OF inv ob(1) no] by (simp add: mmobj_put.simps(2) [of "Suc n"] shadow_put_def)
  with s1 show ?thesis by blast
qed

section \<open>Chains of shadow objects\<close>

text \<open>
  A chain starts at an object and follows \<^verbatim>\<open>mmo_shadowed\<close> down to an object
  that shadows nothing; every shadow object on the way records the bottom.
\<close>

fun chain :: "kstate \<Rightarrow> ptr list \<Rightarrow> bool" where
  "chain s [] = False"
| "chain s [obj] =
     (case mmobjs s obj of
        None \<Rightarrow> False
      | Some ob \<Rightarrow> mmo_ops ob \<noteq> Shadow_ops \<and> mmo_shadowed ob = None)"
| "chain s (obj # o' # os) =
     ((case mmobjs s obj of
         None \<Rightarrow> False
       | Some ob \<Rightarrow> mmo_ops ob = Shadow_ops \<and> mmo_shadowed ob = Some o' \<and> mmo_bottom ob = Some (last (o' # os)))
      \<and> chain s (o' # os))"

text \<open>
  What a program sees of page \<open>pn\<close> through a chain: the contents of the
  first resident frame; failing that the bottom object provides the page, zeros
  for an anonymous object and \<open>disk\<close> for an object that belongs to a
  file.
\<close>

definition frame_data :: "kstate \<Rightarrow> ptr \<Rightarrow> page" where
  "frame_data s p = (case pframes s p of Some pf \<Rightarrow> pf_data pf | None \<Rightarrow> (\<lambda>_. 0))"

fun seen :: "kconsts \<Rightarrow> (ptr \<Rightarrow> u32 \<Rightarrow> page) \<Rightarrow> kstate \<Rightarrow> ptr list \<Rightarrow> u32 \<Rightarrow> page" where
  "seen K disk s [] pn = (\<lambda>_. 0)"
| "seen K disk s (obj # os) pn =
     (case page_of K s obj pn of
        Some p \<Rightarrow> frame_data s p
      | None \<Rightarrow>
          (if os \<noteq> [] then seen K disk s os pn
           else (case mmobjs s obj of
                   Some ob \<Rightarrow> if mmo_ops ob = Other_ops then disk obj pn else (\<lambda>_. 0)
                 | None \<Rightarrow> (\<lambda>_. 0))))"

definition page_eq :: "kconsts \<Rightarrow> page \<Rightarrow> page \<Rightarrow> bool" where
  "page_eq K d d' \<longleftrightarrow> (\<forall>i. i < PAGE_SIZE K \<longrightarrow> d i = d' i)"

lemma page_eq_refl [simp]: "page_eq K d d"
  by (simp add: page_eq_def)

lemma page_eq_trans: "page_eq K a b \<Longrightarrow> page_eq K b c \<Longrightarrow> page_eq K a c"
  by (simp add: page_eq_def)

lemma page_eq_sym: "page_eq K a b \<Longrightarrow> page_eq K b a"
  by (simp add: page_eq_def)

lemma chain_append: "chain s (xs @ obj # os) \<Longrightarrow> chain s (obj # os)"
proof (induction xs)
  case (Cons x xs)
  then show ?case by (cases xs) auto
qed simp

lemma chain_unique: "chain s (obj # os) \<Longrightarrow> chain s (obj # os') \<Longrightarrow> os' = os"
proof (induction os arbitrary: obj os')
  case Nil
  then show ?case by (cases os') (auto split: option.splits)
next
  case (Cons o1 os)
  from Cons.prems obtain os1 where "os' = o1 # os1" by (cases os') (auto split: option.splits)
  with Cons.IH [of o1 os1] Cons.prems show ?case by simp
qed

lemma chain_shape:
  assumes "shape s' = shape s"
  shows "chain s' os = chain s os"
proof -
  have eq: "map_option (\<lambda>ob. (mmo_ops ob, mmo_shadowed ob, mmo_bottom ob)) (mmobjs s' obj) =
      map_option (\<lambda>ob. (mmo_ops ob, mmo_shadowed ob, mmo_bottom ob)) (mmobjs s obj)" for obj
    using fun_cong [OF assms, of obj]
    by (cases "mmobjs s obj"; cases "mmobjs s' obj") (auto simp: shape_def)
  show ?thesis
  proof (induction os rule: induct_list012)
    case (2 obj)
    then show ?case using eq [of obj] by (auto split: option.splits)
  next
    case (3 obj o' os)
    then show ?case using eq [of obj] by (auto split: option.splits)
  qed simp
qed

lemma chain_distinct: "chain s os \<Longrightarrow> distinct os"
proof (induction os)
  case (Cons obj os)
  have "obj \<notin> set os"
  proof
    assume "obj \<in> set os"
    then obtain xs ys where os: "os = xs @ obj # ys" by (auto simp: in_set_conv_decomp)
    have "chain s (obj # ys)" using chain_append [of s "obj # xs" obj ys] Cons.prems os by simp
    from chain_unique [OF this Cons.prems] os show False by (metis length_append length_Cons not_add_less2 lessI add_Suc_right)
  qed
  moreover have "distinct os" using Cons by (cases os) auto
  ultimately show ?case by simp
qed simp

section \<open>Looking up a page\<close>

fun first_res :: "kconsts \<Rightarrow> kstate \<Rightarrow> ptr list \<Rightarrow> u32 \<Rightarrow> ptr option" where
  "first_res K s [] pn = None"
| "first_res K s (obj # os) pn = (case page_of K s obj pn of Some p \<Rightarrow> Some p | None \<Rightarrow> first_res K s os pn)"

lemma first_res_cong: "(\<And>obj. obj \<in> set os \<Longrightarrow> page_of K s' obj pn = page_of K s obj pn) \<Longrightarrow>
    first_res K s' os pn = first_res K s os pn"
  by (induction os) (auto split: option.splits)

lemma first_res_Some: "first_res K s os pn = Some p \<Longrightarrow> \<exists>obj\<in>set os. page_of K s obj pn = Some p"
  by (induction os) (auto split: option.splits)

lemma first_res_butlast: "first_res K s (butlast os) pn = Some q \<Longrightarrow> first_res K s os pn = Some q"
  by (induction os) (auto split: option.splits if_splits)

lemma seen_first_res:
  assumes "chain s os"
  shows "seen K disk s os pn =
    (case first_res K s (butlast os) pn of Some p \<Rightarrow> frame_data s p | None \<Rightarrow> seen K disk s [last os] pn)"
  using assms by (induction os rule: induct_list012) (auto split: option.splits)

lemma touch_None [simp]: "touch None s = s"
  by (simp add: touch_def)

lemma lookup_walk_eq:
  assumes "hash_inv K s" "chain s os" "length os \<le> n"
  shows "\<exists>c. lookup_walk n K pn (hd os) s =
      Inr (first_res K s (butlast os) pn, c, touch (first_res K s (butlast os) pn) s) \<and>
    (first_res K s (butlast os) pn = None \<longrightarrow> c = last os)"
  using assms(2,3)
proof (induction os arbitrary: n rule: induct_list012)
  case (2 obj)
  then show ?case by (cases n) (auto split: option.splits)
next
  case (3 obj o' os)
  then obtain m where n: "n = Suc m" by (cases n) auto
  from "3.prems" obtain ob where ob: "mmobjs s obj = Some ob" "mmo_shadowed ob = Some o'"
    and ch: "chain s (o' # os)" by (auto split: option.splits)
  note gr = pframe_get_resident_eq [OF assms(1), of obj pn]
  show ?case
  proof (cases "page_of K s obj pn")
    case None
    with "3.IH"(2) [OF ch, of m] "3.prems" n ob gr show ?thesis by simp
  next
    case (Some p)
    with n ob gr show ?thesis by simp
  qed
qed simp

lemma fill_walk_eq:
  assumes "hash_inv K s" "chain s os" "length os \<le> n"
  shows "\<exists>c. fill_walk n K (Some (last os)) pn (Some (hd os)) s =
      Inr (first_res K s (butlast os) pn, c, touch (first_res K s (butlast os) pn) s) \<and>
    (first_res K s (butlast os) pn = None \<longrightarrow> c = Some (last os))"
  using assms(2,3)
proof (induction os arbitrary: n rule: induct_list012)
  case (2 obj)
  then show ?case by (cases n) auto
next
  case (3 obj o' os)
  then obtain m where n: "n = Suc m" by (cases n) auto
  from "3.prems" obtain ob where ob: "mmobjs s obj = Some ob" "mmo_shadowed ob = Some o'"
    and ch: "chain s (o' # os)" by (auto split: option.splits)
  have ne: "last (o' # os) \<noteq> obj"
    using chain_distinct [OF "3.prems"(1)] last_in_set [of "o' # os"] by auto
  note gr = pframe_get_resident_eq [OF assms(1), of obj pn]
  show ?case
  proof (cases "page_of K s obj pn")
    case None
    with "3.IH"(2) [OF ch, of m] "3.prems" n ob gr ne show ?thesis by (auto split: if_splits)
  next
    case (Some p)
    with n ob gr ne show ?thesis by auto
  qed
qed simp

text \<open>The states that a lookup is started in: nobody waits for a page, the allocators have memory.\<close>

definition no_waiters :: "kstate \<Rightarrow> bool" where
  "no_waiters s \<longleftrightarrow> (\<forall>p. queues s (Pfq p) = empty_queue)"

definition alloc_ok :: "kext \<Rightarrow> bool" where
  "alloc_ok X \<longleftrightarrow> (\<forall>s. finite (dom (pframes s)) \<longrightarrow>
     (\<exists>p a b. pframe_slab X s = Some p \<and> pframes s p = None \<and> page_alloc X s = Some (a, b)))"

lemma link_inv_finite:
  assumes "link_inv s"
  shows "finite (dom (pframes s))"
proof -
  have "dom (pframes s) \<subseteq> set (alloc_list s) \<union> set (pinned_list s)"
    using assms unfolding link_inv_def by (fastforce simp: dom_def order_le_less)
  then show ?thesis by (rule finite_subset) simp
qed

lemma sched_broadcast_on_none:
  assumes "queues s q = empty_queue"
  shows "sched_broadcast_on K q s = Inr s"
  using assms by (simp add: sched_broadcast_on_def empty_queue_def sched_wakeup_on_def ktqueue_dequeue_def)

definition base_page :: "(ptr \<Rightarrow> u32 \<Rightarrow> page) \<Rightarrow> ptr \<Rightarrow> mmobj \<Rightarrow> u32 \<Rightarrow> page" where
  "base_page disk obj ob pn = (if mmo_ops ob = Other_ops then disk obj pn else (\<lambda>_. 0))"

text \<open>
  The outcome of a successful lookup in a bottom object: the page is resident in
  frame \<open>q\<close>, either as it was before or freshly filled with what the
  object provides, and nothing else has changed.
\<close>

definition served ::
  "kconsts \<Rightarrow> (ptr \<Rightarrow> u32 \<Rightarrow> page) \<Rightarrow> kstate \<Rightarrow> ptr \<Rightarrow> mmobj \<Rightarrow> u32 \<Rightarrow> ptr \<Rightarrow> pframe \<Rightarrow> kstate \<Rightarrow> bool" where
  "served K disk s obj ob pn q pf s' \<longleftrightarrow>
     pf_inv K s' \<and> shape s' = shape s \<and> mem_rest s' = mem_rest s \<and> pframes s' = (pframes s)(q \<mapsto> pf) \<and>
     pf_obj pf = Some obj \<and> pf_pagenum pf = pn \<and> \<not> pf_busy pf \<and>
     (pframes s q = Some pf \<or>
      pframes s q = None \<and> page_of K s obj pn = None \<and> page_eq K (pf_data pf) (base_page disk obj ob pn))"

definition settled :: "kconsts \<Rightarrow> kstate \<Rightarrow> ptr \<Rightarrow> u32 \<Rightarrow> bool" where
  "settled K s obj pn \<longleftrightarrow>
     (\<forall>p pf. page_of K s obj pn = Some p \<longrightarrow> pframes s p = Some pf \<longrightarrow> \<not> pf_busy pf)"

lemma pframe_get_resident_served:
  assumes inv: "pf_inv K s" and r: "page_of K s obj pn = Some p" and st: "settled K s obj pn"
  shows "\<exists>pf. pframe_get K X fill put obj pn s = Inr (0, Some p, touch (Some p) s) \<and>
    served K disk s obj ob pn p pf (touch (Some p) s)"
proof -
  obtain pf where pf: "pframes s p = Some pf" "pf_obj pf = Some obj" "pf_pagenum pf = pn"
    using r page_of_iff [OF pf_invD(2) [OF inv]] by blast
  have "\<not> pf_busy pf" using st r pf by (auto simp: settled_def)
  moreover have "shape (touch (Some p) s) = shape s" by (intro ext) (simp add: shape_def)
  moreover have "(pframes s)(p \<mapsto> pf) = pframes s" using pf(1) by auto
  ultimately show ?thesis
    using pf inv r pframe_get_resident_eq [OF pf_invD(2) [OF inv], of obj pn]
    by (auto simp: pframe_get_def served_def)
qed

lemma pframe_fill_eq:
  assumes "pframes s p = Some fr" "pf_obj fr = Some obj"
    and "fillpage obj p (upd_pf p (\<lambda>x. x\<lparr>pf_busy := True\<rparr>) s) = Inr (r, s1)" and "queues s1 (Pfq p) = empty_queue"
  shows "pframe_fill K fillpage p s = Inr (r, upd_pf p (\<lambda>x. x\<lparr>pf_busy := False\<rparr>) s1)"
  using assms by (simp add: pframe_fill_def sched_broadcast_on_none)

lemma alloc_state_rest:
  assumes "no_waiters s"
  shows "mem_rest (alloc_state K obj pn p a b s) = mem_rest s"
proof -
  have "(queues s)(Pfq p := empty_queue) = queues s" using assms by (auto simp: no_waiters_def)
  then show ?thesis by (simp add: mem_rest_def alloc_state_def)
qed

lemma shape_alloc_state [simp]: "shape (alloc_state K obj pn p a b s) = shape s"
  by (intro ext) (simp add: shape_def option.map_comp o_def)

lemma shape_upd_pf [simp]: "shape (upd_pf p f s) = shape s"
  by (intro ext) (simp add: shape_def)

lemma shape_cong: "mmobjs s' = mmobjs s \<Longrightarrow> shape s' = shape s"
  by (intro ext) (simp add: shape_def)

text \<open>The part of \<^verbatim>\<open>pframe_get\<close> for a page that is not resident, up to filling it.\<close>

lemma pframe_get_new:
  assumes inv: "pf_inv K s" and X: "alloc_ok X" and ob: "mmobjs s obj = Some ob" "mmo_ops ob \<noteq> Other_ops"
    and nr: "page_of K s obj pn = None"
  obtains p a b where "pframes s p = None" "pf_inv K (alloc_state K obj pn p a b s)"
    "\<And>fill put s1. pframe_fill K fill p (alloc_state K obj pn p a b s) = Inr (0, s1) \<Longrightarrow>
       \<exists>fr. pframes s1 p = Some fr \<and> \<not> pf_busy fr \<Longrightarrow>
       pframe_get K X fill put obj pn s = Inr (0, Some p, s1)"
proof -
  obtain p a b where p: "pframe_slab X s = Some p" "pframes s p = None" "page_alloc X s = Some (a, b)"
    using X link_inv_finite [OF pf_invD(1) [OF inv]] by (auto simp: alloc_ok_def)
  have al: "pframe_alloc K X obj pn s = Inr (Some p, alloc_state K obj pn p a b s)"
    by (rule pframe_alloc_ok [OF p(1,3) ob(1) obj_ref_inv(2) [OF inv ob] ob(2)])
  show thesis
    by (rule that [OF p(2) pf_inv_alloc [OF inv p(2) nr ob(1), of a b]])
      (use al nr pframe_get_resident_eq [OF pf_invD(2) [OF inv], of obj pn] in \<open>auto simp: pframe_get_def\<close>)
qed

lemma anon_fill:
  assumes inv: "pf_inv K s" and p: "pframes s p = Some fr" "pf_obj fr = Some obj" "pf_pincount fr = 0"
    and ob: "mmobjs s obj = Some ob" "mmo_ops ob = Anon_ops" and w: "no_waiters s"
  shows "\<exists>s1. pframe_fill K (mmobj_fillpage n K X lk) p s = Inr (0, s1) \<and> pf_inv K s1 \<and> shape s1 = shape s \<and>
    mem_rest s1 = mem_rest s \<and>
    pframes s1 = (pframes s)(p \<mapsto> fr\<lparr>pf_busy := False, pf_pincount := 1,
      pf_data := (\<lambda>i. if i < PAGE_SIZE K then 0 else pf_data fr i)\<rparr>)"
proof -
  let ?sb = "upd_pf p (\<lambda>x. x\<lparr>pf_busy := True\<rparr>) s"
  let ?z = "\<lambda>x. x\<lparr>pf_data := (\<lambda>i. if i < PAGE_SIZE K then 0 else pf_data x i)\<rparr>"
  let ?fr = "?z (fr\<lparr>pf_busy := True\<rparr>)"
  have "pf_inv K (upd_pf p ?z ?sb)" by (intro pf_inv_upd_pf inv) simp_all
  moreover have "pframes (upd_pf p ?z ?sb) p = Some ?fr" "pf_pincount ?fr = 0" using p by simp_all
  ultimately obtain s2 where s2: "pframe_pin p (upd_pf p ?z ?sb) = Inr s2" "pf_inv K s2"
      "pframes s2 = (pframes (upd_pf p ?z ?sb))(p \<mapsto> ?fr\<lparr>pf_pincount := 1\<rparr>)"
      "mmobjs s2 = mmobjs (upd_pf p ?z ?sb)" "queues s2 = queues (upd_pf p ?z ?sb)"
    and fr2: "s2 = (upd_pf p ?z ?sb)\<lparr>pframes := pframes s2, alloc_list := alloc_list s2,
      pinned_list := pinned_list s2, nallocated := nallocated s2, npinned := npinned s2\<rparr>"
    using pframe_pin_unpinned by blast
  have mr: "mem_rest s2 = mem_rest s" by (subst fr2) simp
  have "mmobj_fillpage n K X lk obj p ?sb = Inr (0, s2)"
    using ob p s2(1) by (simp add: mmobj_fillpage_def anon_fillpage_def pframe_is_pinned_def)
  moreover have "queues s2 (Pfq p) = empty_queue" using w s2(5) by (simp add: no_waiters_def)
  ultimately have "pframe_fill K (mmobj_fillpage n K X lk) p s =
      Inr (0, upd_pf p (\<lambda>x. x\<lparr>pf_busy := False\<rparr>) s2)" (is "_ = Inr (0, ?s3)")
    by (rule pframe_fill_eq [OF p(1,2)])
  moreover have "pf_inv K ?s3" by (intro pf_inv_upd_pf s2(2)) simp_all
  moreover have "shape ?s3 = shape s" using s2(4) by (intro ext) (simp add: shape_def)
  moreover have "pframes ?s3 = (pframes s)(p \<mapsto> fr\<lparr>pf_busy := False, pf_pincount := 1,
      pf_data := (\<lambda>i. if i < PAGE_SIZE K then 0 else pf_data fr i)\<rparr>)"
    using s2(3) p by (cases fr) (simp cong: if_cong)
  ultimately show ?thesis using mr by auto
qed

lemma anon_served:
  assumes inv: "pf_inv K s" and w: "no_waiters s" and X: "alloc_ok X" and ob: "mmobjs s obj = Some ob"
    "mmo_ops ob = Anon_ops" and st: "settled K s obj pn"
  shows "\<exists>q pf s'. pframe_lookup (Suc n) K X obj pn fw s = Inr (0, Some q, s') \<and> served K disk s obj ob pn q pf s'"
proof -
  let ?fill = "mmobj_fillpage (Suc n) K X (pframe_lookup n K X)" and ?put = "mmobj_put n K X"
  have eq: "pframe_lookup (Suc n) K X obj pn fw s = pframe_get K X ?fill ?put obj pn s"
    using ob by (simp add: pframe_lookup.simps(2) anon_lookuppage_def Let_def)
  show ?thesis
  proof (cases "page_of K s obj pn")
    case (Some p)
    from pframe_get_resident_served [OF inv Some st] eq show ?thesis by metis
  next
    case None
    have no: "mmo_ops ob \<noteq> Other_ops" using ob by simp
    obtain p a b where p: "pframes s p = None" "pf_inv K (alloc_state K obj pn p a b s)"
      and get: "\<And>fill put s1. pframe_fill K fill p (alloc_state K obj pn p a b s) = Inr (0, s1) \<Longrightarrow>
         \<exists>fr. pframes s1 p = Some fr \<and> \<not> pf_busy fr \<Longrightarrow> pframe_get K X fill put obj pn s = Inr (0, Some p, s1)"
      using pframe_get_new [OF inv X ob(1) no None] by metis
    let ?s2 = "alloc_state K obj pn p a b s" and ?fr = "new_frame obj pn a b"
    let ?pf = "?fr\<lparr>pf_busy := False, pf_pincount := 1, pf_data := (\<lambda>i. if i < PAGE_SIZE K then 0 else b i)\<rparr>"
    let ?ob2 = "ob\<lparr>mmo_refcount := mmo_refcount ob + 1, mmo_nrespages := mmo_nrespages ob + 1,
      mmo_respages := p # mmo_respages ob\<rparr>"
    have "no_waiters ?s2" using w by (simp add: no_waiters_def)
    then obtain s3 where s3: "pframe_fill K ?fill p ?s2 = Inr (0, s3)" "pf_inv K s3" "shape s3 = shape ?s2"
        "mem_rest s3 = mem_rest ?s2" "pframes s3 = (pframes ?s2)(p \<mapsto> ?pf)"
      using anon_fill [OF p(2), of p ?fr obj ?ob2 "Suc n" X "pframe_lookup n K X"] ob
      by (auto cong: if_cong)
    have "pframe_get K X ?fill ?put obj pn s = Inr (0, Some p, s3)"
      by (rule get [OF s3(1)]) (use s3(5) in simp)
    moreover have "served K disk s obj ob pn p ?pf s3"
      using s3 p None ob alloc_state_rest [OF w, of K obj pn p a b]
      by (simp add: served_def base_page_def page_eq_def)
    ultimately show ?thesis using eq by auto
  qed
qed

section \<open>Copy on write\<close>

text \<open>
  What the lookup entry point of a file's object is documented to do: make the
  page resident, with the contents that the file has on disk if it was not
  resident before, and return it.
\<close>

definition file_ok :: "kconsts \<Rightarrow> kext \<Rightarrow> (ptr \<Rightarrow> u32 \<Rightarrow> page) \<Rightarrow> bool" where
  "file_ok K X disk \<longleftrightarrow>
     (\<forall>s obj ob pn fw. pf_inv K s \<longrightarrow> no_waiters s \<longrightarrow> mmobjs s obj = Some ob \<longrightarrow> mmo_ops ob = Other_ops \<longrightarrow>
        settled K s obj pn \<longrightarrow>
        (\<exists>q pf s'. o_lookuppage X obj pn fw s = Inr (0, Some q, s') \<and> served K disk s obj ob pn q pf s'))"

lemma bottom_served:
  assumes "pf_inv K s" and "no_waiters s" and X: "alloc_ok X" "file_ok K X disk"
    and ob: "mmobjs s obj = Some ob" "mmo_ops ob \<noteq> Shadow_ops" and "settled K s obj pn"
  shows "\<exists>q pf s'. pframe_lookup (Suc n) K X obj pn fw s = Inr (0, Some q, s') \<and> served K disk s obj ob pn q pf s'"
proof (cases "mmo_ops ob = Anon_ops")
  case True
  then show ?thesis using anon_served assms by blast
next
  case False
  then have o: "mmo_ops ob = Other_ops" using ob(2) by (cases "mmo_ops ob") auto
  then have "\<exists>q pf s'. o_lookuppage X obj pn fw s = Inr (0, Some q, s') \<and> served K disk s obj ob pn q pf s'"
    using assms by (simp add: file_ok_def)
  moreover have "pframe_lookup (Suc n) K X obj pn fw s = o_lookuppage X obj pn fw s"
    using ob o by (simp add: pframe_lookup.simps(2) Let_def)
  ultimately show ?thesis by simp
qed

lemma shadow_copy_eq:
  assumes inv: "pf_inv K s" and p: "pframes s p = Some fr" "pf_pincount fr = 0"
    and q: "q \<noteq> p" "pframes s q = Some src"
  shows "\<exists>s1. shadow_copy K p (Some q) s = Inr (0, s1) \<and> pf_inv K s1 \<and> shape s1 = shape s \<and>
    mem_rest s1 = mem_rest s \<and>
    pframes s1 = (pframes s)(p \<mapsto> fr\<lparr>pf_pincount := 1,
      pf_data := (\<lambda>i. if i < PAGE_SIZE K then pf_data src i else pf_data fr i)\<rparr>)"
proof -
  obtain s2 where s2: "pframe_pin p s = Inr s2" "pf_inv K s2"
      "pframes s2 = (pframes s)(p \<mapsto> fr\<lparr>pf_pincount := 1\<rparr>)" "mmobjs s2 = mmobjs s"
    and fr2: "s2 = s\<lparr>pframes := pframes s2, alloc_list := alloc_list s2,
      pinned_list := pinned_list s2, nallocated := nallocated s2, npinned := npinned s2\<rparr>"
    using pframe_pin_unpinned [OF inv p] by blast
  let ?f = "\<lambda>x. x\<lparr>pf_data := (\<lambda>i. if i < PAGE_SIZE K then pf_data src i else pf_data x i)\<rparr>"
  have "shadow_copy K p (Some q) s = Inr (0, upd_pf p ?f s2)"
    using s2 q by (simp add: shadow_copy_def)
  moreover have "pf_inv K (upd_pf p ?f s2)" by (intro pf_inv_upd_pf s2(2)) simp_all
  moreover have "mem_rest s2 = mem_rest s" by (subst fr2) simp
  moreover have "pframes (upd_pf p ?f s2) = (pframes s)(p \<mapsto> fr\<lparr>pf_pincount := 1,
      pf_data := (\<lambda>i. if i < PAGE_SIZE K then pf_data src i else pf_data fr i)\<rparr>)"
    using s2(3) by (cases fr) (simp cong: if_cong)
  moreover have "shape s2 = shape s" by (rule shape_cong [OF s2(4)])
  ultimately show ?thesis by auto
qed

text \<open>
  Filling a page of a shadow object: the frame gets the contents seen through the
  rest of the chain.  At most one other page becomes resident, a page of the
  bottom object.
\<close>

definition bottom_added :: "kconsts \<Rightarrow> (ptr \<Rightarrow> u32 \<Rightarrow> page) \<Rightarrow> kstate \<Rightarrow> ptr \<Rightarrow> u32 \<Rightarrow> (ptr \<Rightarrow> pframe option) \<Rightarrow> bool" where
  "bottom_added K disk s b pn M \<longleftrightarrow>
     M = pframes s \<or>
     (\<exists>q pf. M = (pframes s)(q \<mapsto> pf) \<and> pframes s q = None \<and> pf_obj pf = Some b \<and> pf_pagenum pf = pn \<and>
        \<not> pf_busy pf \<and> page_eq K (pf_data pf) (seen K disk s [b] pn))"

lemma served_added:
  assumes "served K disk s b ob pn q pf s'" and "mmobjs s b = Some ob" and inv: "pf_inv K s"
  shows "bottom_added K disk s b pn (pframes s')" and "page_eq K (pf_data pf) (seen K disk s [b] pn)"
proof -
  have e: "page_eq K (pf_data pf) (seen K disk s [b] pn)"
  proof (cases "pframes s q = Some pf")
    case True
    with assms(1) have "page_of K s b pn = Some q"
      using page_of_iff [OF pf_invD(2) [OF inv], of b pn q] by (auto simp: served_def)
    then show ?thesis using True by (simp add: frame_data_def)
  next
    case False
    then show ?thesis using assms(1,2) by (auto simp: served_def base_page_def)
  qed
  then show "page_eq K (pf_data pf) (seen K disk s [b] pn)" .
  show "bottom_added K disk s b pn (pframes s')"
  proof (cases "pframes s q = Some pf")
    case True
    then have "(pframes s)(q \<mapsto> pf) = pframes s" by auto
    then show ?thesis using assms(1) by (simp add: served_def bottom_added_def)
  next
    case False
    then have "pframes s' = (pframes s)(q \<mapsto> pf)" "pframes s q = None" "pf_obj pf = Some b" "pf_pagenum pf = pn"
        "\<not> pf_busy pf" using assms(1) by (auto simp: served_def)
    then show ?thesis using e unfolding bottom_added_def by blast
  qed
qed

lemma page_of_ident:
  assumes inv: "hash_inv K s" and id: "ident s' = ident s" and h: "pframe_hash s' = pframe_hash s"
  shows "page_of K s' obj pn = page_of K s obj pn"
proof -
  have inv': "hash_inv K s'" by (rule hash_inv_ident_imp [OF id h inv])
  have "page_of K s' obj pn = Some p \<longleftrightarrow> page_of K s obj pn = Some p" for p
    unfolding page_of_iff [OF inv] page_of_iff [OF inv'] using identD [OF id] identD [OF id [symmetric]] by metis
  then show ?thesis by (metis not_None_eq)
qed

lemma page_of_busy [simp]:
  assumes "hash_inv K s"
  shows "page_of K (upd_pf p (\<lambda>x. x\<lparr>pf_busy := v\<rparr>) s) obj pn = page_of K s obj pn"
  by (rule page_of_ident [OF assms]) (simp_all add: ident_upd_pf)

lemma frame_data_busy [simp]: "frame_data (upd_pf p (\<lambda>x. x\<lparr>pf_busy := v\<rparr>) s) q = frame_data s q"
  by (auto simp: frame_data_def split: option.splits)

lemma seen_busy:
  assumes "hash_inv K s"
  shows "seen K disk (upd_pf p (\<lambda>x. x\<lparr>pf_busy := v\<rparr>) s) os pn = seen K disk s os pn"
  using assms by (induction os) (auto split: option.splits)

text \<open>
  Filling a page of a shadow object ends with copying a frame \<open>q\<close>, found
  with \<open>M\<close> being the frames other than \<open>p\<close>.
\<close>

definition copied :: "kconsts \<Rightarrow> pframe \<Rightarrow> page \<Rightarrow> pframe" where
  "copied K fr d = fr\<lparr>pf_busy := False, pf_pincount := 1, pf_data := (\<lambda>i. if i < PAGE_SIZE K then d i else pf_data fr i)\<rparr>"

lemma copied_sel [simp]:
  "pf_obj (copied K fr d) = pf_obj fr" "pf_pagenum (copied K fr d) = pf_pagenum fr"
  "pf_busy (copied K fr d) = False" "page_eq K (pf_data (copied K fr d)) d"
  by (simp_all add: copied_def page_eq_def)

lemma shadow_fill_finish:
  assumes w: "no_waiters s" and p: "pframes s p = Some fr" "pf_obj fr = Some obj" "pf_pincount fr = 0"
    and fp: "mmobj_fillpage n K X lookup obj p (upd_pf p (\<lambda>x. x\<lparr>pf_busy := True\<rparr>) s) = shadow_copy K p (Some q) u"
    and u: "pf_inv K u" "shape u = shape s" "mem_rest u = mem_rest s"
      "pframes u = M(p \<mapsto> fr\<lparr>pf_busy := True\<rparr>)" "q \<noteq> p" "M q = Some src"
  shows "\<exists>s1. pframe_fill K (mmobj_fillpage n K X lookup) p s = Inr (0, s1) \<and> pf_inv K s1 \<and>
      shape s1 = shape s \<and> mem_rest s1 = mem_rest s \<and> pframes s1 = M(p \<mapsto> copied K fr (pf_data src))"
proof -
  let ?fb = "fr\<lparr>pf_busy := True\<rparr>"
  have up: "pframes u p = Some ?fb" "pf_pincount ?fb = 0" "pframes u q = Some src" using u p by simp_all
  obtain s2 where s2: "shadow_copy K p (Some q) u = Inr (0, s2)" "pf_inv K s2" "shape s2 = shape u"
      "mem_rest s2 = mem_rest u" "pframes s2 = (pframes u)(p \<mapsto> ?fb\<lparr>pf_pincount := 1,
         pf_data := (\<lambda>i. if i < PAGE_SIZE K then pf_data src i else pf_data ?fb i)\<rparr>)"
    using shadow_copy_eq [OF u(1) up(1,2) u(5) up(3)] by blast
  have qe: "queues s2 (Pfq p) = empty_queue"
    using w mem_restD(2) [of s2 s] s2(4) u(3) by (simp add: no_waiters_def)
  have "pframe_fill K (mmobj_fillpage n K X lookup) p s = Inr (0, upd_pf p (\<lambda>x. x\<lparr>pf_busy := False\<rparr>) s2)"
    using pframe_fill_eq [where fillpage = "mmobj_fillpage n K X lookup", OF p(1,2) _ qe] fp s2(1) by simp
  moreover have "pf_inv K (upd_pf p (\<lambda>x. x\<lparr>pf_busy := False\<rparr>) s2)" by (intro pf_inv_upd_pf s2(2)) simp_all
  moreover have "pframes (upd_pf p (\<lambda>x. x\<lparr>pf_busy := False\<rparr>) s2) = M(p \<mapsto> copied K fr (pf_data src))"
    using s2(5) u(4) by (cases fr) (simp add: copied_def cong: if_cong)
  ultimately show ?thesis using s2 u by auto
qed

text \<open>The walk down the chain while the frame to be filled is busy.\<close>

lemma shadow_fill_walk:
  fixes p :: ptr and pn :: u32
  assumes inv: "pf_inv K s" and ch: "chain s (obj # os)" "os \<noteq> []" and n: "length os \<le> n"
  defines "sb \<equiv> upd_pf p (\<lambda>x. x\<lparr>pf_busy := True\<rparr>) s" and "r \<equiv> first_res K s (butlast os) pn"
  obtains ob c where "mmobjs s obj = Some ob" "mmo_ops ob = Shadow_ops"
    "fill_walk n K (mmo_bottom ob) pn (mmo_shadowed ob) sb = Inr (r, c, touch r sb)"
    "r = None \<longrightarrow> c = Some (last os)" "chain s os" "obj \<notin> set os" "pf_inv K sb"
proof -
  have invb: "pf_inv K sb" unfolding sb_def by (intro pf_inv_upd_pf inv) simp_all
  obtain o' os' where os: "os = o' # os'" using ch(2) by (cases os) auto
  obtain ob where ob: "mmobjs s obj = Some ob" "mmo_ops ob = Shadow_ops" "mmo_shadowed ob = Some o'"
      "mmo_bottom ob = Some (last os)" and cho: "chain s os"
    using ch os by (auto split: option.splits)
  have chb: "chain sb os" using cho chain_shape [of sb s os] by (simp add: sb_def)
  have "first_res K sb (butlast os) pn = r"
    unfolding sb_def r_def by (rule first_res_cong) (simp add: pf_invD(2) [OF inv])
  with fill_walk_eq [OF pf_invD(2) [OF invb] chb n, of pn] os obtain c where
      "fill_walk n K (Some (last os)) pn (Some o') sb = Inr (r, c, touch r sb)" "r = None \<longrightarrow> c = Some (last os)"
    by auto
  with ob cho invb chain_distinct [OF ch(1)] show thesis by (intro that [of ob c]) auto
qed

lemma shadow_fill_resident:
  assumes inv: "pf_inv K s" and w: "no_waiters s"
    and p: "pframes s p = Some fr" "pf_obj fr = Some obj" "pf_pagenum fr = pn" "pf_pincount fr = 0"
    and ch: "chain s (obj # os)" "os \<noteq> []" and n: "length os \<le> n"
    and r: "first_res K s (butlast os) pn = Some q"
  shows "\<exists>s1 d. pframe_fill K (mmobj_fillpage n K X lookup) p s = Inr (0, s1) \<and> pf_inv K s1 \<and>
    shape s1 = shape s \<and> mem_rest s1 = mem_rest s \<and> page_eq K d (seen K disk s os pn) \<and>
    pframes s1 = (pframes s)(p \<mapsto> copied K fr d)"
proof -
  let ?sb = "upd_pf p (\<lambda>x. x\<lparr>pf_busy := True\<rparr>) s"
  obtain ob c where ob: "mmobjs s obj = Some ob" "mmo_ops ob = Shadow_ops"
    and wk: "fill_walk n K (mmo_bottom ob) pn (mmo_shadowed ob) ?sb = Inr (Some q, c, touch (Some q) ?sb)"
    and cho: "chain s os" and dist: "obj \<notin> set os" and invb: "pf_inv K ?sb"
    using shadow_fill_walk [OF inv ch n, of pn p] r by metis
  obtain o1 src where q: "o1 \<in> set (butlast os)" "pframes s q = Some src" "pf_obj src = Some o1"
    using first_res_Some [OF r] page_of_iff [OF pf_invD(2) [OF inv]] by metis
  have ne: "q \<noteq> p" using q p dist in_set_butlastD [OF q(1)] by auto
  have fp: "mmobj_fillpage n K X lookup obj p ?sb = shadow_copy K p (Some q) (touch (Some q) ?sb)"
    using ob p wk by (simp add: mmobj_fillpage_def shadow_fillpage_def pframe_is_pinned_def)
  have u: "pf_inv K (touch (Some q) ?sb)" "shape (touch (Some q) ?sb) = shape s"
      "mem_rest (touch (Some q) ?sb) = mem_rest s"
      "pframes (touch (Some q) ?sb) = (pframes s)(p \<mapsto> fr\<lparr>pf_busy := True\<rparr>)"
    using invb p shape_cong [of "touch (Some q) ?sb" s] by simp_all
  have "page_eq K (pf_data src) (seen K disk s os pn)"
    using seen_first_res [OF cho, of K disk pn] r q by (simp add: frame_data_def)
  with shadow_fill_finish [OF w p(1,2,4) fp u ne q(2)] show ?thesis by blast
qed

lemma shadow_fill_bottom:
  assumes inv: "pf_inv K s" and w: "no_waiters s"
    and p: "pframes s p = Some fr" "pf_obj fr = Some obj" "pf_pagenum fr = pn" "pf_pincount fr = 0"
    and ch: "chain s (obj # os)" "os \<noteq> []" and n: "length os \<le> n"
    and r: "first_res K s (butlast os) pn = None"
    and st: "settled K s (last os) pn" and bob: "mmobjs s (last os) = Some bob"
    and lk: "\<And>u. pf_inv K u \<Longrightarrow> no_waiters u \<Longrightarrow> mmobjs u = mmobjs s \<Longrightarrow> settled K u (last os) pn \<Longrightarrow>
       \<exists>q pf u'. lookup (last os) pn True u = Inr (0, Some q, u') \<and> served K disk u (last os) bob pn q pf u'"
  shows "\<exists>s1 d M. pframe_fill K (mmobj_fillpage n K X lookup) p s = Inr (0, s1) \<and> pf_inv K s1 \<and>
    shape s1 = shape s \<and> mem_rest s1 = mem_rest s \<and> page_eq K d (seen K disk s os pn) \<and>
    bottom_added K disk s (last os) pn M \<and> pframes s1 = M(p \<mapsto> copied K fr d)"
proof -
  let ?sb = "upd_pf p (\<lambda>x. x\<lparr>pf_busy := True\<rparr>) s"
  have hs: "hash_inv K s" using pf_invD(2) [OF inv] .
  obtain ob where ob: "mmobjs s obj = Some ob" "mmo_ops ob = Shadow_ops"
    and wk: "fill_walk n K (mmo_bottom ob) pn (mmo_shadowed ob) ?sb = Inr (None, Some (last os), ?sb)"
    and cho: "chain s os" and dist: "obj \<notin> set os" and invb: "pf_inv K ?sb"
    using shadow_fill_walk [OF inv ch n, of pn p] r touch_None by metis
  have ne: "last os \<noteq> obj" using dist last_in_set [OF ch(2)] by auto
  then have "no_waiters ?sb" "settled K ?sb (last os) pn"
    using w st hs p by (auto simp: no_waiters_def settled_def page_of_iff split: if_splits)
  then obtain q pf u where lq: "lookup (last os) pn True ?sb = Inr (0, Some q, u)"
      and sv: "served K disk ?sb (last os) bob pn q pf u"
    using lk [OF invb] by auto
  have qp: "q \<noteq> p" using ne sv p by (auto simp: served_def)
  have fp: "mmobj_fillpage n K X lookup obj p ?sb = shadow_copy K p (Some q) u"
    using ob p wk lq by (simp add: mmobj_fillpage_def shadow_fillpage_def pframe_is_pinned_def)
  have u: "pf_inv K u" "shape u = shape s" "mem_rest u = mem_rest s"
      "pframes u = ((pframes s)(q \<mapsto> pf))(p \<mapsto> fr\<lparr>pf_busy := True\<rparr>)" "((pframes s)(q \<mapsto> pf)) q = Some pf"
    using sv p qp by (simp_all add: served_def fun_upd_twist)
  have e: "page_eq K (pf_data pf) (seen K disk s [last os] pn)"
    using served_added(2) [OF sv _ invb, unfolded seen_busy [OF hs]] bob by (simp del: seen.simps)
  have "page_eq K (pf_data pf) (seen K disk s os pn)"
    using seen_first_res [OF cho, of K disk pn] r e by simp
  moreover have "bottom_added K disk s (last os) pn ((pframes s)(q \<mapsto> pf))"
  proof (cases "pframes s q = None")
    case False
    then have "pframes s q = Some pf" using sv qp by (auto simp: served_def)
    then have "(pframes s)(q \<mapsto> pf) = pframes s" by auto
    then show ?thesis by (simp add: bottom_added_def)
  qed (use sv e in \<open>unfold bottom_added_def served_def, blast\<close>)
  ultimately show ?thesis using shadow_fill_finish [OF w p(1,2,4) fp u(1-4) qp u(5)] by blast
qed

text \<open>
  A state grew faithfully when the frames that existed are as they were and every
  new frame holds what was seen at its place before.  Then nothing that is seen
  through any chain has changed.
\<close>

definition grew :: "kconsts \<Rightarrow> (ptr \<Rightarrow> u32 \<Rightarrow> page) \<Rightarrow> kstate \<Rightarrow> kstate \<Rightarrow> bool" where
  "grew K disk s s' \<longleftrightarrow>
     pf_inv K s' \<and> shape s' = shape s \<and> mem_rest s' = mem_rest s \<and>
     (\<forall>r fr. pframes s r = Some fr \<longrightarrow> pframes s' r = Some fr) \<and>
     (\<forall>r fr. pframes s r = None \<longrightarrow> pframes s' r = Some fr \<longrightarrow>
        (\<exists>o'. pf_obj fr = Some o' \<and>
           (\<forall>os. chain s (o' # os) \<longrightarrow> page_eq K (pf_data fr) (seen K disk s (o' # os) (pf_pagenum fr)))))"

lemma shape_ops:
  assumes "shape s' = shape s"
  shows "map_option mmo_ops (mmobjs s' obj) = map_option mmo_ops (mmobjs s obj)"
  using fun_cong [OF assms, of obj]
  by (cases "mmobjs s obj"; cases "mmobjs s' obj") (auto simp: shape_def)

lemma seen_grew:
  assumes inv: "pf_inv K s" and g: "grew K disk s s'" and ch: "chain s os"
  shows "page_eq K (seen K disk s' os pn) (seen K disk s os pn)"
  using ch
proof (induction os)
  case (Cons obj os)
  have h: "hash_inv K s" "hash_inv K s'" using inv g pf_invD(2) by (auto simp: grew_def)
  show ?case
  proof (cases "page_of K s obj pn")
    case (Some p)
    then obtain fr where fr: "pframes s p = Some fr" "pf_obj fr = Some obj" "pf_pagenum fr = pn"
      using page_of_iff [OF h(1)] by blast
    with g have fr': "pframes s' p = Some fr" by (auto simp: grew_def)
    with fr have "page_of K s' obj pn = Some p" using page_of_iff [OF h(2)] by blast
    with Some fr fr' show ?thesis by (simp add: frame_data_def)
  next
    case None
    show ?thesis
    proof (cases "page_of K s' obj pn")
      case (Some p)
      then obtain fr where fr: "pframes s' p = Some fr" "pf_obj fr = Some obj" "pf_pagenum fr = pn"
        using page_of_iff [OF h(2)] by blast
      moreover have "pframes s p = None"
      proof (rule ccontr)
        assume "pframes s p \<noteq> None"
        then have "pframes s p = Some fr" using g fr(1) by (auto simp: grew_def)
        with fr None page_of_iff [OF h(1), of obj pn p] show False by simp
      qed
      ultimately have "page_eq K (pf_data fr) (seen K disk s (obj # os) pn)"
        using g Cons.prems unfolding grew_def by (metis option.inject)
      with Some fr show ?thesis by (simp add: frame_data_def)
    next
      case none: None
      have "map_option mmo_ops (mmobjs s' obj) = map_option mmo_ops (mmobjs s obj)"
        using g by (intro shape_ops) (simp add: grew_def)
      then show ?thesis using none None Cons
        by (cases os; cases "mmobjs s obj"; cases "mmobjs s' obj") auto
    qed
  qed
qed simp

lemma chain_bottom: "chain s os \<Longrightarrow> chain s [last os]"
  by (induction os rule: induct_list012) auto

lemma chain_bottom_unique: "chain s os \<Longrightarrow> chain s (last os # os') \<Longrightarrow> os' = []"
  using chain_bottom [of s os] chain_unique [of s "last os" "[]" os'] by simp

lemma served_grew:
  assumes inv: "pf_inv K s" and sv: "served K disk s b ob pn q pf s'" and ob: "mmobjs s b = Some ob"
    and ch: "chain s [b]"
  shows "grew K disk s s'"
proof -
  have e: "page_eq K (pf_data pf) (seen K disk s [b] pn)" using served_added(2) [OF sv ob inv] .
  have "pf_inv K s'" "shape s' = shape s" "mem_rest s' = mem_rest s" "pframes s' = (pframes s)(q \<mapsto> pf)"
    "pf_obj pf = Some b" "pf_pagenum pf = pn" "pframes s q = Some pf \<or> pframes s q = None"
    using sv by (auto simp: served_def)
  moreover have "os = []" if "chain s (b # os)" for os using chain_unique [OF ch that] .
  ultimately show ?thesis using e unfolding grew_def by (auto simp del: seen.simps chain.simps)
qed

lemma touch_grew: "pf_inv K s \<Longrightarrow> grew K disk s (touch r s)"
  by (simp add: grew_def shape_cong [of "touch r s" s])

lemma page_of_alloc:
  assumes "hash_inv K s" "hash_inv K (alloc_state K obj pn p a b s)" "pframes s p = None" "o' \<noteq> obj"
  shows "page_of K (alloc_state K obj pn p a b s) o' pn' = page_of K s o' pn'"
proof -
  have "page_of K (alloc_state K obj pn p a b s) o' pn' = Some r \<longleftrightarrow> page_of K s o' pn' = Some r" for r
    using assms(3,4) by (auto simp: page_of_iff [OF assms(1)] page_of_iff [OF assms(2)])
  then show ?thesis by (metis not_None_eq)
qed

lemma seen_alloc:
  assumes inv: "hash_inv K s" "hash_inv K (alloc_state K obj pn p a b s)" and p: "pframes s p = None"
    and o: "obj \<notin> set os"
  shows "seen K disk (alloc_state K obj pn p a b s) os pn' = seen K disk s os pn'"
proof -
  have "frame_data (alloc_state K obj pn p a b s) r = frame_data s r" if "page_of K s o' pn' = Some r" for o' r
    using that p page_of_iff [OF inv(1)] by (auto simp: frame_data_def)
  then show ?thesis using o page_of_alloc [OF inv p]
    by (induction os) (auto split: option.splits)
qed

lemma seen_not_resident:
  "page_of K s obj pn = None \<Longrightarrow> os \<noteq> [] \<Longrightarrow> seen K disk s (obj # os) pn = seen K disk s os pn"
  by simp

lemma fill_grew:
  assumes inv: "pf_inv K s" and s2: "s2 = alloc_state K obj pn p a b s" and inv2: "pf_inv K s2"
    and w: "no_waiters s" and p: "pframes s p = None" and nr: "page_of K s obj pn = None"
    and ch: "chain s (obj # os)" "os \<noteq> []"
    and s1: "pf_inv K s1" "shape s1 = shape s2" "mem_rest s1 = mem_rest s2"
      "page_eq K d (seen K disk s2 os pn)" "bottom_added K disk s2 (last os) pn M"
      "pframes s1 = M(p \<mapsto> copied K (new_frame obj pn a b) d)"
  shows "grew K disk s s1" and "page_eq K d (seen K disk s (obj # os) pn)"
proof -
  have dist: "obj \<notin> set os" using chain_distinct [OF ch(1)] by simp
  have sa: "seen K disk s2 xs n = seen K disk s xs n" if "set xs \<subseteq> set os" for xs n
    unfolding s2 by (rule seen_alloc [OF pf_invD(2) [OF inv] pf_invD(2) [OF inv2 [unfolded s2]] p]) (use that dist in auto)
  show e: "page_eq K d (seen K disk s (obj # os) pn)"
    unfolding seen_not_resident [OF nr ch(2)] using s1(4) sa by simp
  have cho: "chain s os" using ch by (cases os) auto
  have old: "pframes s1 r = Some fr" if "pframes s r = Some fr" for r fr
    using that s1(5,6) p by (auto simp: bottom_added_def s2)
  have new: "\<exists>o'. pf_obj fr = Some o' \<and>
      (\<forall>xs. chain s (o' # xs) \<longrightarrow> page_eq K (pf_data fr) (seen K disk s (o' # xs) (pf_pagenum fr)))"
    if r: "pframes s r = None" "pframes s1 r = Some fr" for r fr
  proof (cases "r = p")
    case True
    then have fr: "fr = copied K (new_frame obj pn a b) d" using r s1(6) by simp
    have "page_eq K (pf_data fr) (seen K disk s (obj # xs) pn)" if "chain s (obj # xs)" for xs
      using chain_unique [OF ch(1) that] e page_eq_trans fr by (metis copied_sel(4))
    then show ?thesis using fr by simp
  next
    case False
    then have "pframes s2 r = None" "M r = Some fr" using r s1(6) by (simp_all add: s2)
    then have fr: "pf_obj fr = Some (last os)" "pf_pagenum fr = pn" "page_eq K (pf_data fr) (seen K disk s2 [last os] pn)"
      using s1(5) by (auto simp: bottom_added_def split: if_splits simp del: seen.simps)
    moreover have "seen K disk s2 [last os] pn = seen K disk s [last os] pn"
      by (rule sa) (use ch(2) in simp)
    ultimately show ?thesis using chain_bottom_unique [OF cho] by (auto simp del: seen.simps)
  qed
  show "grew K disk s s1"
    unfolding grew_def using s1(1-3) old new alloc_state_rest [OF w, of K obj pn p a b] by (simp add: s2)
qed

lemma shadow_write_new:
  assumes inv: "pf_inv K s" and w: "no_waiters s" and X: "alloc_ok X" "file_ok K X disk"
    and ch: "chain s (obj # os)" "os \<noteq> []" and n: "length os \<le> n"
    and st: "settled K s (last os) pn" and nr: "page_of K s obj pn = None"
  shows "\<exists>p fr s'. pframe_get K X (mmobj_fillpage (Suc n) K X (pframe_lookup n K X)) put obj pn s = Inr (0, Some p, s') \<and>
    grew K disk s s' \<and> pframes s' p = Some fr \<and> \<not> pf_busy fr \<and> pf_obj fr = Some obj \<and> pf_pagenum fr = pn \<and>
    page_eq K (pf_data fr) (seen K disk s (obj # os) pn)"
proof -
  obtain m where m: "n = Suc m" using n ch(2) by (cases n) auto
  obtain ob where ob: "mmobjs s obj = Some ob" "mmo_ops ob \<noteq> Other_ops"
    using ch by (cases os) (auto split: option.splits)
  obtain p a b where p: "pframes s p = None" "pf_inv K (alloc_state K obj pn p a b s)"
    and get: "\<And>fill put s1. pframe_fill K fill p (alloc_state K obj pn p a b s) = Inr (0, s1) \<Longrightarrow>
       \<exists>fr. pframes s1 p = Some fr \<and> \<not> pf_busy fr \<Longrightarrow> pframe_get K X fill put obj pn s = Inr (0, Some p, s1)"
    using pframe_get_new [OF inv X(1) ob nr] by metis
  let ?s2 = "alloc_state K obj pn p a b s" and ?fr = "new_frame obj pn a b"
  have w2: "no_waiters ?s2" using w by (simp add: no_waiters_def)
  have ch2: "chain ?s2 (obj # os)" using ch chain_shape [of ?s2 s "obj # os"] by simp
  have cho: "chain ?s2 os" using ch2 ch(2) by (cases os) auto
  have bl: "last os \<noteq> obj" using chain_distinct [OF ch(1)] last_in_set [OF ch(2)] by auto
  obtain bob where bob: "mmobjs ?s2 (last os) = Some bob" "mmo_ops bob \<noteq> Shadow_ops"
    using chain_bottom [OF cho] by (auto split: option.splits)
  have st2: "settled K ?s2 (last os) pn"
    using st bl page_of_alloc [OF pf_invD(2) [OF inv] pf_invD(2) [OF p(2)] p(1) bl, of pn]
      page_of_iff [OF pf_invD(2) [OF inv], of "last os" pn] p(1)
    by (auto simp: settled_def)
  have pfr: "pframes ?s2 p = Some ?fr" "pf_obj ?fr = Some obj" "pf_pagenum ?fr = pn" "pf_pincount ?fr = 0" by simp_all
  have n': "length os \<le> Suc n" using n by simp
  let ?fill = "mmobj_fillpage (Suc n) K X (pframe_lookup n K X)"
  have lk: "\<exists>q pf u'. pframe_lookup n K X (last os) pn True u = Inr (0, Some q, u') \<and>
      served K disk u (last os) bob pn q pf u'"
    if "pf_inv K u" "no_waiters u" "mmobjs u = mmobjs ?s2" "settled K u (last os) pn" for u
    unfolding m by (rule bottom_served [OF that(1,2) X _ bob(2) that(4)]) (use that(3) bob(1) in simp)
  have "\<exists>s1 d M. pframe_fill K ?fill p ?s2 = Inr (0, s1) \<and> pf_inv K s1 \<and>
    shape s1 = shape ?s2 \<and> mem_rest s1 = mem_rest ?s2 \<and> page_eq K d (seen K disk ?s2 os pn) \<and>
    bottom_added K disk ?s2 (last os) pn M \<and> pframes s1 = M(p \<mapsto> copied K ?fr d)"
  proof (cases "first_res K ?s2 (butlast os) pn")
    case None
    show ?thesis by (rule shadow_fill_bottom [OF p(2) w2 pfr ch2 ch(2) n' None st2 bob(1)]) (rule lk)
  next
    case (Some q)
    have "bottom_added K disk ?s2 (last os) pn (pframes ?s2)" by (simp add: bottom_added_def)
    with shadow_fill_resident [OF p(2) w2 pfr ch2 ch(2) n' Some] show ?thesis by blast
  qed
  then obtain s1 d M where s1: "pframe_fill K ?fill p ?s2 = Inr (0, s1)" "pf_inv K s1" "shape s1 = shape ?s2"
      "mem_rest s1 = mem_rest ?s2" "page_eq K d (seen K disk ?s2 os pn)" "bottom_added K disk ?s2 (last os) pn M"
      "pframes s1 = M(p \<mapsto> copied K ?fr d)" by blast
  note g = fill_grew [OF inv refl p(2) w p(1) nr ch s1(2-7)]
  have "pframe_get K X ?fill put obj pn s = Inr (0, Some p, s1)" by (rule get [OF s1(1)]) (use s1(7) in simp)
  moreover have "page_eq K (pf_data (copied K ?fr d)) (seen K disk s (obj # os) pn)"
    using page_eq_trans [OF copied_sel(4) g(2)] .
  ultimately show ?thesis using g(1) s1(7) by (auto simp del: seen.simps)
qed

text \<open>The outcome of a lookup through a chain, whatever kind of object it starts at.\<close>

definition found ::
  "kconsts \<Rightarrow> (ptr \<Rightarrow> u32 \<Rightarrow> page) \<Rightarrow> kstate \<Rightarrow> ptr list \<Rightarrow> u32 \<Rightarrow> ptr \<Rightarrow> pframe \<Rightarrow> kstate \<Rightarrow> bool" where
  "found K disk s os pn p fr s' \<longleftrightarrow>
     grew K disk s s' \<and> pframes s' p = Some fr \<and> \<not> pf_busy fr \<and> pf_pagenum fr = pn \<and>
     page_eq K (pf_data fr) (seen K disk s os pn)"

lemma served_found:
  assumes "pf_inv K s" and "served K disk s b ob pn q pf s'" and "mmobjs s b = Some ob" and "chain s [b]"
  shows "found K disk s [b] pn q pf s'"
  using served_added(2) [OF assms(2,3,1)] served_grew [OF assms] assms(2)
  by (simp add: found_def served_def del: seen.simps)

lemma resident_found:
  assumes inv: "pf_inv K s" and ch: "chain s os" and r: "first_res K s os pn = Some q"
    and st: "\<forall>o'\<in>set os. settled K s o' pn"
  shows "\<exists>fr. pframes s q = Some fr \<and> found K disk s os pn q fr (touch (Some q) s)"
proof -
  obtain o1 fr where q: "o1 \<in> set os" "page_of K s o1 pn = Some q" "pframes s q = Some fr" "pf_pagenum fr = pn"
    using first_res_Some [OF r] page_of_iff [OF pf_invD(2) [OF inv]] by metis
  have "seen K disk s os pn = frame_data s q"
    using r by (induction os) (auto split: option.splits)
  moreover have "\<not> pf_busy fr" using st q by (auto simp: settled_def)
  ultimately show ?thesis using q touch_grew [OF inv] by (simp add: found_def frame_data_def)
qed

lemma shadow_write_lookup:
  assumes inv: "pf_inv K s" and w: "no_waiters s" and X: "alloc_ok X" "file_ok K X disk"
    and ch: "chain s (obj # os)" "os \<noteq> []" and n: "length os \<le> n"
    and st: "settled K s obj pn" "settled K s (last os) pn"
  shows "\<exists>p fr s'. pframe_get K X (mmobj_fillpage (Suc n) K X (pframe_lookup n K X)) put obj pn s = Inr (0, Some p, s') \<and>
    found K disk s (obj # os) pn p fr s' \<and> pf_obj fr = Some obj"
proof (cases "page_of K s obj pn")
  case None
  from shadow_write_new [OF inv w X ch n st(2) None, where put = put] show ?thesis unfolding found_def by blast
next
  case (Some q)
  obtain pf where get: "pframe_get K X (mmobj_fillpage (Suc n) K X (pframe_lookup n K X)) put obj pn s =
        Inr (0, Some q, touch (Some q) s)"
      and sv: "served K disk s obj undefined pn q pf (touch (Some q) s)"
    using pframe_get_resident_served [OF inv Some st(1)] by metis
  then have "pframes s q = Some pf" using Some by (auto simp: served_def)
  then show ?thesis using get sv Some touch_grew [OF inv]
    by (auto simp: found_def served_def frame_data_def)
qed

lemma shadow_read_lookup:
  assumes inv: "pf_inv K s" and w: "no_waiters s" and X: "alloc_ok X" "file_ok K X disk"
    and ch: "chain s (obj # os)" "os \<noteq> []" and n: "length (obj # os) \<le> Suc n"
    and st: "\<forall>o'\<in>set (obj # os). settled K s o' pn"
  shows "\<exists>p fr s'. shadow_lookuppage (Suc n) K get (pframe_lookup n K X) obj pn False s = Inr (0, Some p, s') \<and>
    found K disk s (obj # os) pn p fr s'"
proof (cases "first_res K s (butlast (obj # os)) pn")
  case (Some q)
  have "first_res K s (obj # os) pn = Some q" using first_res_butlast [OF Some] .
  from resident_found [OF inv ch(1) this st] obtain fr where fr: "pframes s q = Some fr"
      "found K disk s (obj # os) pn q fr (touch (Some q) s)" by blast
  moreover obtain c where "lookup_walk (Suc n) K pn obj s = Inr (Some q, c, touch (Some q) s)"
    using lookup_walk_eq [OF pf_invD(2) [OF inv] ch(1) n, of pn] Some by auto
  ultimately show ?thesis
    by (auto simp: shadow_lookuppage_def found_def simp del: seen.simps lookup_walk.simps)
next
  case None
  have cho: "chain s os" using ch by (cases os) auto
  obtain k where k: "n = Suc k" using n ch(2) by (cases n; cases os) auto
  obtain bob where bob: "mmobjs s (last os) = Some bob" "mmo_ops bob \<noteq> Shadow_ops"
    using chain_bottom [OF cho] by (auto split: option.splits)
  have wk: "lookup_walk (Suc n) K pn obj s = Inr (None, last os, s)"
    using lookup_walk_eq [OF pf_invD(2) [OF inv] ch(1) n, of pn] None ch(2) by auto
  obtain q pf s' where q: "pframe_lookup n K X (last os) pn False s = Inr (0, Some q, s')"
      "served K disk s (last os) bob pn q pf s'"
    using bottom_served [OF inv w X bob, of pn k False] st ch(2) k by auto
  have "found K disk s (obj # os) pn q pf s'"
    using served_found [OF inv q(2) bob(1) chain_bottom [OF cho]] seen_first_res [OF ch(1), of K disk pn] None ch(2)
    by (simp add: found_def del: seen.simps)
  then show ?thesis using wk q(1) by (auto simp: shadow_lookuppage_def simp del: lookup_walk.simps)
qed

lemma page_lookup:
  assumes inv: "pf_inv K s" and w: "no_waiters s" and X: "alloc_ok X" "file_ok K X disk"
    and ch: "chain s (obj # os)" and n: "length (obj # os) \<le> n"
    and st: "\<forall>o'\<in>set (obj # os). settled K s o' pn"
  shows "\<exists>p fr s'. pframe_lookup n K X obj pn fw s = Inr (0, Some p, s') \<and>
    found K disk s (obj # os) pn p fr s' \<and> (fw \<longrightarrow> pf_obj fr = Some obj)"
proof -
  obtain m where m: "n = Suc m" using n by (cases n) auto
  obtain ob where ob: "mmobjs s obj = Some ob" using ch by (cases os) (auto split: option.splits)
  show ?thesis
  proof (cases "os = []")
    case True
    then have no: "mmo_ops ob \<noteq> Shadow_ops" using ch ob by simp
    obtain q pf s' where q: "pframe_lookup n K X obj pn fw s = Inr (0, Some q, s')" "served K disk s obj ob pn q pf s'"
      using bottom_served [OF inv w X ob no, of pn m fw] st m by auto
    with served_found [OF inv q(2) ob] ch True show ?thesis by (auto simp: served_def)
  next
    case False
    then have sh: "mmo_ops ob = Shadow_ops" using ch ob by (cases os) (auto split: option.splits)
    have "length os \<le> m" "settled K s obj pn" "settled K s (last os) pn" using n m st False by auto
    with shadow_write_lookup [OF inv w X ch False] shadow_read_lookup [OF inv w X ch False n [unfolded m] st] ob sh
    show ?thesis by (cases fw) (auto simp: m pframe_lookup.simps(2) Let_def shadow_lookuppage_def)
  qed
qed

section \<open>Concrete instances for the examples\<close>

text \<open>
  An allocator that always finds the least free address, page tables that are
  maps, and a file object whose pages on disk are given by \<open>demo_disk\<close>.
\<close>

definition free_frame :: "kstate \<Rightarrow> ptr" where
  "free_frame s = (LEAST p. pframes s p = None)"

definition demo_disk :: "ptr \<Rightarrow> u32 \<Rightarrow> page" where
  "demo_disk obj pn = (\<lambda>i. ucast (pn + i))"

definition file_lookup :: "kconsts \<Rightarrow> obj_lookup" where
  "file_lookup K obj pn fw s =
     (case page_of K s obj pn of
        Some p \<Rightarrow> Inr (0, Some p, touch (Some p) s)
      | None \<Rightarrow> Inr (0, Some (free_frame s), alloc_state K obj pn (free_frame s) 4096 (demo_disk obj pn) s))"

definition demo_init :: "mmobj_ops \<Rightarrow> mmobj" where
  "demo_init ops = \<lparr>mmo_ops = ops, mmo_refcount = 0, mmo_nrespages = 0, mmo_respages = [],
     mmo_shadowed = None, mmo_bottom = None, mmo_vmas = []\<rparr>"

text \<open>A slab with ten cells.\<close>

definition free_cell :: "ptr \<Rightarrow> (ptr \<Rightarrow> 'a option) \<Rightarrow> ptr option" where
  "free_cell lo m = List.find (\<lambda>p. m p = None) [lo..<lo + 10]"

lemma free_cell_free: "free_cell lo m = Some p \<Longrightarrow> m p = None"
  by (auto simp: free_cell_def find_Some_iff)

lemma free_cell_full:
  assumes "free_cell lo m = None" "finite (dom m)"
  shows "10 \<le> card (dom m)"
proof -
  have "set [lo..<lo + 10] \<subseteq> dom m" using assms(1) by (auto simp: free_cell_def find_None_iff)
  from card_mono [OF assms(2) this] show ?thesis by simp
qed

definition demo_ext :: kext where
  "demo_ext = \<lparr>vmmap_slab = (\<lambda>s. free_cell 100 (vmmaps s)), vmarea_slab = (\<lambda>s. free_cell 200 (vmareas s)),
     anon_slab = (\<lambda>s. free_cell 300 (mmobjs s)), shadow_slab = (\<lambda>s. free_cell 300 (mmobjs s)),
     pframe_slab = (\<lambda>s. Some (free_frame s)), page_alloc = (\<lambda>s. Some (4096, \<lambda>_. 0)), page_free_count = (\<lambda>s. 0),
     mmobj_init = demo_init,
     mmobj_bottom_obj = (\<lambda>s obj. bindE (deref (mmobjs s obj)) (\<lambda>ob. deref (bottom_of obj ob))),
     o_ref = (\<lambda>obj s. Inr s), o_put = (\<lambda>obj s. Inr s), o_lookuppage = file_lookup i386,
     o_fillpage = (\<lambda>obj p s. Inr (0, s)), o_dirtypage = (\<lambda>obj p s. Inr (0, s)), o_cleanpage = (\<lambda>obj p s. Inr (0, s)),
     vn_mmap = (\<lambda>file v s. Inr (0, None, s)),
     pt_map = (\<lambda>pd v a f g s. s\<lparr>pagetabs := (pagetabs s)(the pd := (pagetabs s (the pd))(v \<mapsto>
        \<lparr>pte_frame = a, pte_pdflags = f, pte_ptflags = g\<rparr>))\<rparr>),
     pt_unmap = (\<lambda>pd v s. s\<lparr>pagetabs := (pagetabs s)(the pd := (pagetabs s (the pd))(v := None))\<rparr>),
     pt_unmap_range = (\<lambda>pd lo hi s. s\<lparr>pagetabs := (pagetabs s)(the pd :=
        (\<lambda>v. if lo \<le> v \<and> v < hi then None else pagetabs s (the pd) v))\<rparr>)\<rparr>"

lemma free_frame_free: "finite (dom (pframes s)) \<Longrightarrow> pframes s (free_frame s) = None"
  unfolding free_frame_def
  by (rule LeastI_ex) (metis domIff ex_new_if_finite infinite_UNIV_nat)

lemma demo_alloc_ok: "alloc_ok demo_ext"
  by (simp add: alloc_ok_def demo_ext_def free_frame_free)

lemma demo_pt_frame: "pt_frame demo_ext"
  unfolding pt_frame_def demo_ext_def by auto

lemma demo_bottom_ok: "bottom_ok demo_ext"
  by (simp add: bottom_ok_def demo_ext_def)

lemma demo_file_ok: "file_ok i386 demo_ext demo_disk"
  unfolding file_ok_def
proof (intro allI impI)
  fix s obj ob pn fw
  assume inv: "pf_inv i386 s" and w: "no_waiters s" and ob: "mmobjs s obj = Some ob" "mmo_ops ob = Other_ops"
    and st: "settled i386 s obj pn"
  have lk: "o_lookuppage demo_ext = file_lookup i386" by (simp add: demo_ext_def)
  show "\<exists>q pf s'. o_lookuppage demo_ext obj pn fw s = Inr (0, Some q, s') \<and> served i386 demo_disk s obj ob pn q pf s'"
  proof (cases "page_of i386 s obj pn")
    case (Some p)
    then show ?thesis
      using pframe_get_resident_served [OF inv Some st] lk by (auto simp: file_lookup_def)
  next
    case None
    let ?p = "free_frame s"
    have p: "pframes s ?p = None" by (rule free_frame_free [OF link_inv_finite [OF pf_invD(1) [OF inv]]])
    have "served i386 demo_disk s obj ob pn ?p (new_frame obj pn 4096 (demo_disk obj pn))
        (alloc_state i386 obj pn ?p 4096 (demo_disk obj pn) s)"
      using pf_inv_alloc [OF inv p None ob(1)] p None ob alloc_state_rest [OF w]
      by (simp add: served_def base_page_def)
    then show ?thesis using None lk by (auto simp: file_lookup_def)
  qed
qed

text \<open>Object 1 is anonymous with its page 0 in frame 7; objects 2 and 3 shadow it.\<close>

definition demo_obj :: "mmobj_ops \<Rightarrow> int \<Rightarrow> ptr list \<Rightarrow> ptr option \<Rightarrow> mmobj" where
  "demo_obj ops rc ps sh = \<lparr>mmo_ops = ops, mmo_refcount = rc, mmo_nrespages = int (length ps), mmo_respages = ps,
     mmo_shadowed = sh, mmo_bottom = sh, mmo_vmas = []\<rparr>"

definition two_shadows :: kstate where
  "two_shadows = three_threads\<lparr>
     mmobjs := [1 \<mapsto> demo_obj Anon_ops 3 [7] None, 2 \<mapsto> demo_obj Shadow_ops 1 [] (Some 1),
                3 \<mapsto> demo_obj Shadow_ops 1 [] (Some 1)],
     pframes := [7 \<mapsto> \<lparr>pf_obj = Some 1, pf_pagenum = 0, pf_busy = False, pf_dirty = False, pf_pincount = 1,
                       pf_addr = 8192, pf_data = (\<lambda>_. 5)\<rparr>],
     pinned_list := [7], npinned := 1, pframe_hash := (\<lambda>_. [])(1 := [7])\<rparr>"

lemmas two_shadows_defs = two_shadows_def three_threads_defs demo_obj_def

lemma two_shadows_hash: "hash_page i386 1 0 = 1"
  by (simp add: hash_page_def i386_def)

lemma two_shadows_inv: "pf_inv i386 two_shadows"
proof -
  have "link_inv two_shadows" by (auto simp: link_inv_def two_shadows_defs)
  moreover have "hash_inv i386 two_shadows"
    by (auto simp: hash_inv_def two_shadows_defs two_shadows_hash [unfolded One_nat_def] split: if_splits)
  moreover have "res_inv two_shadows"
    by (auto simp: res_inv_def obj_ok_def two_shadows_defs split: if_splits)
  ultimately show ?thesis by (simp add: pf_inv_def)
qed

lemma two_shadows_ready:
  "no_waiters two_shadows" "chain two_shadows [2, 1]" "chain two_shadows [3, 1]"
  "\<forall>o'\<in>set [2, 1]. settled i386 two_shadows o' 0"
  by (auto simp: no_waiters_def settled_def two_shadows_defs split: if_splits)

section \<open>Properties\<close>

text \<open>C9: looking up a page is transparent.  Given a chain of shadow objects, at least as much fuel
  as the chain is long, memory to allocate from and a file object that serves its pages, a lookup for
  reading or for writing returns 0 with a frame that is not busy and holds the page as it is seen
  through the chain; a lookup for writing returns a frame of the object itself.  No frame that was
  resident changes, and through every chain of the system, this one or another, every page looks as it
  did before.\<close>

theorem pframe_lookup_transparent:
  assumes "pf_inv K s" and "no_waiters s" and "alloc_ok X" and "file_ok K X disk"
    and "chain s (obj # os)" and "length (obj # os) \<le> n" and "\<forall>o'\<in>set (obj # os). settled K s o' pn"
  shows "\<exists>p fr s'. pframe_lookup n K X obj pn fw s = Inr (0, Some p, s') \<and>
    pframes s' p = Some fr \<and> \<not> pf_busy fr \<and> pf_pagenum fr = pn \<and> (fw \<longrightarrow> pf_obj fr = Some obj) \<and>
    page_eq K (pf_data fr) (seen K disk s (obj # os) pn) \<and>
    (\<forall>r fr'. pframes s r = Some fr' \<longrightarrow> pframes s' r = Some fr') \<and>
    (\<forall>os' pn'. chain s os' \<longrightarrow> page_eq K (seen K disk s' os' pn') (seen K disk s os' pn')) \<and>
    pf_inv K s' \<and> mem_rest s' = mem_rest s"
proof -
  obtain p fr s' where p: "pframe_lookup n K X obj pn fw s = Inr (0, Some p, s')"
      "found K disk s (obj # os) pn p fr s'" "fw \<longrightarrow> pf_obj fr = Some obj"
    using page_lookup [OF assms, of fw] by blast
  then have g: "grew K disk s s'" by (simp add: found_def)
  from p g seen_grew [OF assms(1) g] show ?thesis
    by (intro exI [of _ p] exI [of _ fr] exI [of _ s']) (simp add: found_def grew_def del: seen.simps)
qed

theorem pframe_lookup_transparent_witness:
  "\<exists>p fr s'. pframe_lookup 2 i386 demo_ext 2 0 True two_shadows = Inr (0, Some p, s') \<and>
     pframes s' p = Some fr \<and> pf_obj fr = Some 2 \<and> pf_data fr 100 = 5"
proof -
  have "page_of i386 two_shadows 2 0 = None" "page_of i386 two_shadows 1 0 = Some 7"
    by (simp_all add: page_of_def hash_page_def i386_def two_shadows_defs)
  then have "seen i386 demo_disk two_shadows [2, 1] 0 100 = 5"
    by (simp add: frame_data_def two_shadows_defs)
  moreover have "(100 :: u32) < PAGE_SIZE i386" by (simp add: i386_def)
  ultimately show ?thesis
    using pframe_lookup_transparent [OF two_shadows_inv two_shadows_ready(1) demo_alloc_ok demo_file_ok
        two_shadows_ready(2) _ two_shadows_ready(4), of 2 True]
    unfolding page_eq_def by (metis One_nat_def Suc_1 length_Cons list.size(3) order_refl)
qed

lemma frame_of_store:
  "frame_data (upd_pf p (\<lambda>x. x\<lparr>pf_data := d\<rparr>) s) r =
     (if r = p \<and> pframes s p \<noteq> None then d else frame_data s r)"
  by (auto simp: frame_data_def split: option.splits)

lemma seen_store_other:
  assumes inv: "hash_inv K s" and p: "pframes s p = Some fr" "pf_obj fr = Some obj" and o: "obj \<notin> set os"
  shows "seen K disk (upd_pf p (\<lambda>x. x\<lparr>pf_data := d\<rparr>) s) os pn = seen K disk s os pn"
proof -
  have "page_of K (upd_pf p (\<lambda>x. x\<lparr>pf_data := d\<rparr>) s) o' pn = page_of K s o' pn" for o'
    by (rule page_of_ident [OF inv]) (simp_all add: ident_upd_pf)
  moreover have "r \<noteq> p" if "page_of K s o' pn = Some r" "o' \<noteq> obj" for o' r
    using that p page_of_iff [OF inv] by auto
  ultimately show ?thesis using o
    by (induction os) (auto simp: frame_of_store split: option.splits)
qed

text \<open>C4: copy on write isolates.  After a lookup for writing through a shadow object, storing into
  the returned frame changes what is seen through that object, exactly at that page, and changes
  nothing that is seen through any chain that does not contain the object: a parent, a child or a file
  mapped elsewhere keeps its pages.\<close>

theorem copy_on_write_isolates:
  assumes "pf_inv K s" and "no_waiters s" and "alloc_ok X" and "file_ok K X disk"
    and "chain s (obj # os)" and "length (obj # os) \<le> n" and "\<forall>o'\<in>set (obj # os). settled K s o' pn"
  shows "\<exists>p s' s''. pframe_lookup n K X obj pn True s = Inr (0, Some p, s') \<and>
    s'' = upd_pf p (\<lambda>x. x\<lparr>pf_data := d\<rparr>) s' \<and>
    seen K disk s'' (obj # os) pn = d \<and>
    (\<forall>os' pn'. chain s os' \<longrightarrow> obj \<notin> set os' \<longrightarrow> page_eq K (seen K disk s'' os' pn') (seen K disk s os' pn'))"
proof -
  obtain p fr s' where p: "pframe_lookup n K X obj pn True s = Inr (0, Some p, s')"
      "found K disk s (obj # os) pn p fr s'" "pf_obj fr = Some obj"
    using page_lookup [OF assms, of True] by blast
  then have g: "grew K disk s s'" and fr: "pframes s' p = Some fr" "pf_pagenum fr = pn" by (simp_all add: found_def)
  then have h: "hash_inv K s'" by (simp add: grew_def pf_invD)
  let ?s = "upd_pf p (\<lambda>x. x\<lparr>pf_data := d\<rparr>) s'"
  have "page_of K s' obj pn = Some p" using page_of_iff [OF h] fr p(3) by blast
  then have "page_of K ?s obj pn = Some p" using page_of_ident [OF h, of ?s] by (simp add: ident_upd_pf)
  then have "seen K disk ?s (obj # os) pn = d" using fr by (simp add: frame_of_store)
  moreover have "page_eq K (seen K disk ?s os' pn') (seen K disk s os' pn')" if "chain s os'" "obj \<notin> set os'" for os' pn'
    using seen_store_other [OF h fr(1) p(3) that(2)] seen_grew [OF assms(1) g that(1)] by simp
  ultimately show ?thesis using p(1) by blast
qed

theorem copy_on_write_isolates_witness:
  "\<exists>p s'. pframe_lookup 2 i386 demo_ext 2 0 True two_shadows = Inr (0, Some p, s') \<and>
     page_eq i386 (seen i386 demo_disk (upd_pf p (\<lambda>x. x\<lparr>pf_data := (\<lambda>_. 9)\<rparr>) s') [3, 1] 0)
       (seen i386 demo_disk two_shadows [3, 1] 0)"
proof -
  have "(2::nat) \<notin> set [3, 1]" "length [2, 1::nat] \<le> 2" by simp_all
  then show ?thesis
    using copy_on_write_isolates [OF two_shadows_inv two_shadows_ready(1) demo_alloc_ok demo_file_ok
        two_shadows_ready(2) _ two_shadows_ready(4), of 2 "\<lambda>_. 9"] two_shadows_ready(3)
    by blast
qed

text \<open>C24: dropping the last outside reference of an anonymous object, when each of its pages is pinned
  once as filling left it, unpins and frees exactly its pages and then the object; the recursive drops of
  the pages' own references free nothing early, and the frame lists, the hash table and the other
  objects stay consistent.\<close>

theorem anon_put_last:
  assumes "pf_inv K s" and "areas_linked s" and "pt_frame X" and "bottom_ok X"
    and "mmobjs s obj = Some ob" and "mmo_ops ob = Anon_ops" and "mmo_refcount ob = mmo_nrespages ob + 1"
    and "\<forall>p\<in>set (mmo_respages ob). \<exists>pf. pframes s p = Some pf \<and> pf_pincount pf = 1 \<and> \<not> pf_busy pf"
  shows "\<exists>s'. mmobj_put (Suc (Suc n)) K X obj s = Inr s' \<and> pf_inv K s' \<and> mem_rest s' = mem_rest s \<and>
    mmobjs s' = (mmobjs s)(obj := None) \<and>
    pframes s' = (\<lambda>p. if p \<in> set (mmo_respages ob) then None else pframes s p)"
  by (rule anon_put_last_ref [OF assms])

definition last_user :: kstate where
  "last_user = two_shadows\<lparr>mmobjs := [1 \<mapsto> demo_obj Anon_ops 2 [7] None]\<rparr>"

theorem anon_put_last_witness:
  "\<exists>s'. mmobj_put 2 i386 demo_ext 1 last_user = Inr s' \<and> mmobjs s' 1 = None \<and> pframes s' 7 = None"
proof -
  have "res_inv last_user" by (auto simp: res_inv_def obj_ok_def last_user_def two_shadows_defs split: if_splits)
  then have inv: "pf_inv i386 last_user"
    using two_shadows_inv by (simp add: pf_inv_def link_inv_def hash_inv_def last_user_def)
  have lk: "areas_linked last_user"
    by (auto simp: areas_linked_def bottom_of_def last_user_def demo_obj_def split: if_splits)
  have ob: "mmobjs last_user 1 = Some (demo_obj Anon_ops 2 [7] None)" by (simp add: last_user_def)
  have "\<exists>s'. mmobj_put (Suc (Suc 0)) i386 demo_ext 1 last_user = Inr s' \<and> pf_inv i386 s' \<and>
      mem_rest s' = mem_rest last_user \<and> mmobjs s' = (mmobjs last_user)(1 := None) \<and>
      pframes s' = (\<lambda>p. if p \<in> set (mmo_respages (demo_obj Anon_ops 2 [7] None)) then None else pframes last_user p)"
    by (rule anon_put_last [OF inv lk demo_pt_frame demo_bottom_ok ob])
      (simp_all add: demo_obj_def last_user_def two_shadows_def)
  then show ?thesis by (auto simp: numeral_2_eq_2 demo_obj_def)
qed

text \<open>Running out of memory is not handled.  When the frame allocator has no memory and the page is
  not resident, \<^verbatim>\<open>pframe_get\<close> passes the null result of \<^verbatim>\<open>pframe_alloc\<close> on to
  \<^verbatim>\<open>pframe_fill\<close> and dereferences it.\<close>

lemma pframe_get_out_of_memory:
  assumes "pf_inv K s" and "page_of K s obj pn = None" and "pframe_slab X s = None \<or> page_alloc X s = None"
  shows "pframe_get K X fill put obj pn s = Inl Null_deref"
  using assms pframe_get_resident_eq [OF pf_invD(2) [OF assms(1)], of obj pn]
  by (auto simp: pframe_get_def pframe_alloc_def split: option.splits)

lemma pframe_get_out_of_memory_example:
  "pframe_get i386 (demo_ext\<lparr>pframe_slab := (\<lambda>_. None)\<rparr>) (anon_fillpage i386) (\<lambda>_ s. Inr s) 2 0 two_shadows
     = Inl Null_deref"
proof (rule pframe_get_out_of_memory [OF two_shadows_inv])
  show "page_of i386 two_shadows 2 0 = None" by (simp add: page_of_def hash_page_def i386_def two_shadows_defs)
qed simp

end
