(* ===== verification/Area_List.thy ===== *)
theory Area_List
  imports Kernel_State
begin

text \<open>
  Lists of areas, without pointers: when such a list is well formed, what an
  address space maps according to it, and how insertion, removal of a range and
  the search for a gap act on it.  The theory \<^verbatim>\<open>Vmmap\<close> relates the code to
  these functions.
\<close>

section \<open>Well-formed lists and what they map\<close>

definition covers :: "u32 \<Rightarrow> vmarea \<Rightarrow> bool" where
  "covers vfn a \<longleftrightarrow> vma_start a \<le> vfn \<and> vfn < vma_end a"

definition wf_area :: "kconsts \<Rightarrow> vmarea \<Rightarrow> bool" where
  "wf_area K a \<longleftrightarrow> vma_start a < vma_end a \<and> ADDR_TO_PN K (USER_MEM_LOW K) \<le> vma_start a \<and>
     vma_end a \<le> ADDR_TO_PN K (USER_MEM_HIGH K)"

definition wf_areas :: "kconsts \<Rightarrow> vmarea list \<Rightarrow> bool" where
  "wf_areas K as \<longleftrightarrow> (\<forall>a\<in>set as. wf_area K a) \<and> sorted_wrt (\<lambda>a b. vma_end a \<le> vma_start b) as"

text \<open>The object, the page of the object, the protection and the flags behind a virtual page.\<close>

type_synonym mapping = "ptr option \<times> u32 \<times> u32 \<times> u32"

definition page_map :: "u32 \<Rightarrow> vmarea \<Rightarrow> mapping" where
  "page_map vfn a = (vma_obj a, vfn - vma_start a + vma_off a, vma_prot a, vma_flags a)"

definition mapped :: "vmarea list \<Rightarrow> u32 \<Rightarrow> mapping option" where
  "mapped as vfn = map_option (page_map vfn) (List.find (covers vfn) as)"

lemma wf_areas_Cons:
  "wf_areas K (a # as) \<longleftrightarrow> wf_area K a \<and> (\<forall>b\<in>set as. vma_end a \<le> vma_start b) \<and> wf_areas K as"
  by (auto simp: wf_areas_def)

lemma wf_areas_append:
  "wf_areas K (as @ bs) \<longleftrightarrow> wf_areas K as \<and> wf_areas K bs \<and> (\<forall>a\<in>set as. \<forall>b\<in>set bs. vma_end a \<le> vma_start b)"
  by (auto simp: wf_areas_def sorted_wrt_append)

lemma wf_areas_Nil [simp]: "wf_areas K []"
  by (simp add: wf_areas_def)

text \<open>At most one area covers a page, so the first that does is the only one.\<close>

lemma covers_unique:
  assumes "wf_areas K as" "a \<in> set as" "b \<in> set as" "covers vfn a" "covers vfn b"
  shows "a = b"
  using assms
proof (induction as)
  case (Cons c as)
  then show ?case unfolding wf_areas_Cons covers_def
    by (metis set_ConsD leD order_le_less_trans order_less_le_trans)
qed simp

lemma find_covers:
  assumes "wf_areas K as" "a \<in> set as" "covers vfn a"
  shows "List.find (covers vfn) as = Some a"
proof (cases "List.find (covers vfn) as")
  case None
  then show ?thesis using assms by (auto simp: find_None_iff)
next
  case (Some b)
  then have "b \<in> set as" "covers vfn b" by (auto simp: find_Some_iff)
  with covers_unique [OF assms(1,2) this(1) assms(3) this(2)] Some show ?thesis by simp
qed

lemma mapped_None: "mapped as vfn = None \<longleftrightarrow> (\<forall>a\<in>set as. \<not> covers vfn a)"
  by (auto simp: mapped_def find_None_iff)

lemma mapped_Cons: "mapped (a # as) vfn = (if covers vfn a then Some (page_map vfn a) else mapped as vfn)"
  by (simp add: mapped_def)

lemma mapped_Nil [simp]: "mapped [] vfn = None"
  by (simp add: mapped_def)

lemma mapped_append: "mapped (as @ bs) vfn = (case mapped as vfn of Some x \<Rightarrow> Some x | None \<Rightarrow> mapped bs vfn)"
  by (induction as) (auto simp: mapped_Cons)

section \<open>Inserting an area\<close>

fun place :: "vmarea \<Rightarrow> vmarea list \<Rightarrow> vmarea list" where
  "place new [] = [new]"
| "place new (a # as) = (if vma_end new \<le> vma_start a then new # a # as else a # place new as)"

definition disjoint_from :: "vmarea \<Rightarrow> vmarea list \<Rightarrow> bool" where
  "disjoint_from new as \<longleftrightarrow> (\<forall>a\<in>set as. vma_end new \<le> vma_start a \<or> vma_end a \<le> vma_start new)"

lemma set_place: "set (place new as) = insert new (set as)"
  by (induction as) auto

lemma wf_place:
  assumes "wf_areas K as" "wf_area K new" "disjoint_from new as"
  shows "wf_areas K (place new as)"
  using assms
proof (induction as)
  case (Cons a as)
  show ?case
  proof (cases "vma_end new \<le> vma_start a")
    case True
    then have "\<forall>b\<in>set as. vma_end new \<le> vma_start b"
      using Cons.prems(1) unfolding wf_areas_Cons wf_area_def by force
    with True Cons.prems show ?thesis by (simp add: wf_areas_Cons)
  next
    case False
    then have "vma_end a \<le> vma_start new" using Cons.prems(3) by (simp add: disjoint_from_def)
    with False Cons show ?thesis by (auto simp: wf_areas_Cons set_place disjoint_from_def)
  qed
qed (simp add: wf_areas_def)

lemma mapped_place:
  assumes "wf_areas K as" "wf_area K new" "disjoint_from new as"
  shows "mapped (place new as) vfn = (if covers vfn new then Some (page_map vfn new) else mapped as vfn)"
  using assms
proof (induction as)
  case (Cons a as)
  have "\<not> (covers vfn new \<and> covers vfn a)"
    using Cons.prems(3) by (auto simp: disjoint_from_def covers_def)
  with Cons show ?case by (auto simp: mapped_Cons wf_areas_Cons disjoint_from_def)
qed (simp add: mapped_Cons)

section \<open>Removing a range\<close>

text \<open>
  What is left of one area when the pages from \<open>lo\<close> to before
  \<open>hi\<close> are taken out of it.  When the range lies inside, the part
  below it is a new area, which is not linked to the object.
\<close>

definition below :: "u32 \<Rightarrow> vmarea \<Rightarrow> vmarea list" where
  "below lo a = (if vma_start a = lo then [] else [a\<lparr>vma_end := lo\<rparr>])"

definition above :: "u32 \<Rightarrow> vmarea \<Rightarrow> vmarea list" where
  "above hi a = (if hi = vma_end a then []
     else [a\<lparr>vma_off := vma_off a + hi - vma_start a, vma_start := hi\<rparr>])"

definition cut1 :: "u32 \<Rightarrow> u32 \<Rightarrow> vmarea \<Rightarrow> vmarea list" where
  "cut1 lo hi a =
     (if lo > vma_end a \<or> hi < vma_start a then [a]
      else if lo \<ge> vma_start a \<and> hi \<le> vma_end a then below lo (a\<lparr>vma_olink := None\<rparr>) @ above hi a
      else if vma_start a \<le> lo then below lo a
      else if hi \<le> vma_end a then above hi a
      else [])"

definition cut :: "u32 \<Rightarrow> u32 \<Rightarrow> vmarea list \<Rightarrow> vmarea list" where
  "cut lo hi as = concat (map (cut1 lo hi) as)"

lemma cut1_bounds:
  assumes "lo \<le> hi" "vma_start a < vma_end a" "b \<in> set (cut1 lo hi a)"
  shows "vma_start a \<le> vma_start b" "vma_end b \<le> vma_end a" "vma_start b < vma_end b"
  using assms by (auto simp: cut1_def below_def above_def split: if_splits)

lemma wf_cut1: "lo \<le> hi \<Longrightarrow> wf_area K a \<Longrightarrow> wf_areas K (cut1 lo hi a)"
  by (auto simp: wf_areas_def wf_area_def cut1_def below_def above_def)

lemma wf_cut:
  assumes "lo \<le> hi" "wf_areas K as"
  shows "wf_areas K (cut lo hi as)"
  using assms(2)
proof (induction as)
  case (Cons a as)
  have "vma_end b \<le> vma_start c" if b: "b \<in> set (cut1 lo hi a)" and c: "c \<in> set (cut lo hi as)" for b c
  proof -
    obtain d where d: "d \<in> set as" "c \<in> set (cut1 lo hi d)" using c by (auto simp: cut_def)
    have "vma_start a < vma_end a" "vma_start d < vma_end d" "vma_end a \<le> vma_start d"
      using Cons.prems d(1) by (auto simp: wf_areas_def wf_area_def)
    with cut1_bounds [OF assms(1) _ b] cut1_bounds [OF assms(1) _ d(2)] show ?thesis by force
  qed
  with Cons wf_cut1 [OF assms(1)] show ?case by (simp add: cut_def wf_areas_append wf_areas_Cons)
qed (simp add: cut_def)

lemma page_map_above:
  "page_map vfn (a\<lparr>vma_off := vma_off a + hi - vma_start a, vma_start := hi\<rparr>) = page_map vfn a"
  by (simp add: page_map_def)

lemma mapped_cut1:
  assumes "lo \<le> hi" "vma_start a < vma_end a"
  shows "mapped (cut1 lo hi a) vfn =
    (if covers vfn a \<and> \<not> (lo \<le> vfn \<and> vfn < hi) then Some (page_map vfn a) else None)"
  using assms
  by (auto simp: cut1_def below_def above_def mapped_Cons covers_def page_map_def)

lemma mapped_cut:
  assumes "lo \<le> hi" "wf_areas K as"
  shows "mapped (cut lo hi as) vfn = (if lo \<le> vfn \<and> vfn < hi then None else mapped as vfn)"
  using assms(2)
proof (induction as)
  case (Cons a as)
  then have "vma_start a < vma_end a" by (simp add: wf_areas_def wf_area_def)
  with Cons mapped_cut1 [OF assms(1), of a vfn] show ?case
    by (auto simp: cut_def mapped_append mapped_Cons wf_areas_Cons)
qed (simp add: cut_def)

lemma cut1_id: "lo > vma_end a \<or> hi < vma_start a \<Longrightarrow> cut1 lo hi a = [a]"
  by (simp add: cut1_def)

section \<open>Finding a gap\<close>

text \<open>
  A range of \<open>n\<close> pages from \<open>w\<close> that ends at or before
  \<open>uend\<close> and meets no area; and the search from the top.
\<close>

definition free_range :: "kconsts \<Rightarrow> vmarea list \<Rightarrow> u32 \<Rightarrow> u32 \<Rightarrow> u32 \<Rightarrow> bool" where
  "free_range K as uend n w \<longleftrightarrow>
     ADDR_TO_PN K (USER_MEM_LOW K) \<le> w \<and> unat w + unat n \<le> unat uend \<and>
     (\<forall>a\<in>set as. unat w + unat n \<le> unat (vma_start a) \<or> vma_end a \<le> w)"

fun gap :: "kconsts \<Rightarrow> u32 \<Rightarrow> u32 \<Rightarrow> vmarea list \<Rightarrow> u32 option" where
  "gap K n uend [] = (if n \<le> uend - ADDR_TO_PN K (USER_MEM_LOW K) then Some (uend - n) else None)"
| "gap K n uend (a # as) = (if n \<le> uend - vma_end a then Some (uend - n) else gap K n (vma_start a) as)"

lemma gap_highest:
  assumes "wf_areas K (rev as)" "\<forall>a\<in>set as. vma_end a \<le> uend" "ADDR_TO_PN K (USER_MEM_LOW K) \<le> uend"
  shows "case gap K n uend as of
      Some w \<Rightarrow> free_range K as uend n w \<and> (\<forall>w'. free_range K as uend n w' \<longrightarrow> w' \<le> w)
    | None \<Rightarrow> (\<forall>w'. \<not> free_range K as uend n w')"
  using assms
proof (induction as arbitrary: uend)
  case Nil
  then show ?case
    by (auto simp: free_range_def u32_diff_le_iff word_le_nat_alt unat_sub)
next
  case (Cons a as)
  have a: "vma_start a < vma_end a" "ADDR_TO_PN K (USER_MEM_LOW K) \<le> vma_start a" "vma_end a \<le> uend"
    and as: "\<forall>b\<in>set as. vma_end b \<le> vma_start a" "wf_areas K (rev as)"
    using Cons.prems by (auto simp: wf_areas_append wf_areas_Cons wf_area_def)
  show ?case
  proof (cases "n \<le> uend - vma_end a")
    case True
    then have le: "unat n + unat (vma_end a) \<le> unat uend" using a(3) by (simp add: u32_diff_le_iff)
    then have w: "unat (uend - n) = unat uend - unat n" by (simp add: unat_sub word_le_nat_alt)
    have "free_range K (a # as) uend n (uend - n)"
      using a as le by (force simp: free_range_def word_le_nat_alt word_less_nat_alt w)
    moreover have "w' \<le> uend - n" if "free_range K (a # as) uend n w'" for w'
      using that by (auto simp: free_range_def word_le_nat_alt w)
    ultimately show ?thesis using True by simp
  next
    case False
    then have full: "\<not> unat n + unat (vma_end a) \<le> unat uend" using a(3) by (simp add: u32_diff_le_iff)
    have eq: "free_range K (a # as) uend n w \<longleftrightarrow> free_range K as (vma_start a) n w" for w
      using full a by (auto simp: free_range_def word_le_nat_alt word_less_nat_alt)
    show ?thesis unfolding eq using Cons.IH [OF as(2,1) a(2)] False by simp
  qed
qed

end
