(* ===== verification/Vmmap.thy ===== *)
theory Vmmap
  imports Pager Area_List
begin

text \<open>
  Address spaces, \<^verbatim>\<open>kernel/vm/vmmap.c\<close>.  An address space is the list of
  its areas in the order of \<^verbatim>\<open>vmm_list\<close>; the areas live in the store
  \<open>vmareas\<close>, so that the list of an address space, the list
  \<^verbatim>\<open>mmo_vmas\<close> of a memory object and the fields of an area are shared as in
  the code.  Numbers of virtual pages are 32-bit words and their sums wrap.
\<close>

unbundle bit_operations_syntax

section \<open>Operations\<close>

definition upd_area :: "ptr \<Rightarrow> (vmarea \<Rightarrow> vmarea) \<Rightarrow> kstate \<Rightarrow> kstate" where
  "upd_area v f s = s\<lparr>vmareas := (vmareas s)(v := map_option f (vmareas s v))\<rparr>"

definition upd_map :: "ptr \<Rightarrow> (vmmap \<Rightarrow> vmmap) \<Rightarrow> kstate \<Rightarrow> kstate" where
  "upd_map m f s = s\<lparr>vmmaps := (vmmaps s)(m := map_option f (vmmaps s m))\<rparr>"

text \<open>The slab allocator does not clear the object; every caller sets the remaining fields.\<close>

definition blank_area :: vmarea where
  "blank_area = \<lparr>vma_start = 0, vma_end = 0, vma_off = 0, vma_prot = 0, vma_flags = 0,
     vma_vmmap = None, vma_obj = None, vma_olink = None\<rparr>"

definition vmarea_alloc :: "kext \<Rightarrow> kstate \<Rightarrow> ptr option \<times> kstate" where
  "vmarea_alloc X s =
     (case vmarea_slab X s of
        None \<Rightarrow> (None, s)
      | Some newvma \<Rightarrow> (Some newvma, s\<lparr>vmareas := (vmareas s)(newvma \<mapsto> blank_area)\<rparr>))"

definition vmarea_free :: "ptr \<Rightarrow> kstate \<Rightarrow> kstate" where
  "vmarea_free v s = s\<lparr>vmareas := (vmareas s)(v := None)\<rparr>"

definition vmmap_create :: "kext \<Rightarrow> kstate \<Rightarrow> ptr option \<times> kstate" where
  "vmmap_create X s =
     (case vmmap_slab X s of
        None \<Rightarrow> (None, s)
      | Some vmm \<Rightarrow> (Some vmm, s\<lparr>vmmaps := (vmmaps s)(vmm \<mapsto> \<lparr>vmm_list = [], vmm_proc = None\<rparr>)\<rparr>))"

text \<open>
  The steps by which \<^verbatim>\<open>vmmap_destroy\<close> and \<^verbatim>\<open>vmmap_remove\<close> get rid of
  an area: drop its reference, unlink it from the list of the bottom object and
  from the address space if it is linked there, free it.  When the drop freed the
  bottom object, the first unlinking writes into freed memory, which no live
  object sees.
\<close>

definition unlink_olink :: "ptr \<Rightarrow> kstate \<Rightarrow> kstate res" where
  "unlink_olink v s =
     bindE (deref (vmareas s v)) (\<lambda>vma.
       case vma_olink vma of
         None \<Rightarrow> Inr s
       | Some b \<Rightarrow> Inr (upd_obj b (\<lambda>x. x\<lparr>mmo_vmas := remove1 v (mmo_vmas x)\<rparr>)
                         (upd_area v (\<lambda>x. x\<lparr>vma_olink := None\<rparr>) s)))"

definition unlink_plink :: "ptr \<Rightarrow> ptr \<Rightarrow> kstate \<Rightarrow> kstate" where
  "unlink_plink m v s = upd_map m (\<lambda>x. x\<lparr>vmm_list := remove1 v (vmm_list x)\<rparr>) s"

definition drop_area :: "nat \<Rightarrow> kconsts \<Rightarrow> kext \<Rightarrow> ptr \<Rightarrow> ptr \<Rightarrow> kstate \<Rightarrow> kstate res" where
  "drop_area n K X m v s =
     bindE (deref (vmareas s v)) (\<lambda>vma.
     bindE (deref (vma_obj vma)) (\<lambda>obj.
     bindE (mmobj_put n K X obj s) (\<lambda>s1.
     bindE (unlink_olink v s1) (\<lambda>s2.
       Inr (vmarea_free v (unlink_plink m v s2))))))"

fun destroy_loop :: "nat \<Rightarrow> kconsts \<Rightarrow> kext \<Rightarrow> ptr \<Rightarrow> ptr list \<Rightarrow> kstate \<Rightarrow> kstate res" where
  "destroy_loop n K X m [] s = Inr s"
| "destroy_loop n K X m (v # vs) s = bindE (drop_area n K X m v s) (\<lambda>s1. destroy_loop n K X m vs s1)"

definition vmmap_destroy :: "nat \<Rightarrow> kconsts \<Rightarrow> kext \<Rightarrow> ptr option \<Rightarrow> kstate \<Rightarrow> kstate res" where
  "vmmap_destroy n K X mp s =
     (case mp of
        None \<Rightarrow> Inl KASSERT_failed
      | Some m \<Rightarrow>
          bindE (deref (vmmaps s m)) (\<lambda>vmap.
          bindE (destroy_loop n K X m (vmm_list vmap) s) (\<lambda>s1.
            Inr (s1\<lparr>vmmaps := (vmmaps s1)(m := None)\<rparr>))))"

text \<open>Insert before the first area that starts at or after the end of the new one, or at the tail.\<close>

fun insert_loop :: "kstate \<Rightarrow> u32 \<Rightarrow> ptr \<Rightarrow> ptr list \<Rightarrow> ptr list res" where
  "insert_loop s newend newvma [] = Inr [newvma]"
| "insert_loop s newend newvma (v # vs) =
     bindE (deref (vmareas s v)) (\<lambda>vma.
       if newend \<le> vma_start vma then Inr (newvma # v # vs)
       else bindE (insert_loop s newend newvma vs) (\<lambda>vs'. Inr (v # vs')))"

definition vmmap_insert :: "kconsts \<Rightarrow> ptr \<Rightarrow> ptr \<Rightarrow> kstate \<Rightarrow> kstate res" where
  "vmmap_insert K m newvma s =
     bindE (deref (vmmaps s m)) (\<lambda>vmap.
     bindE (deref (vmareas s newvma)) (\<lambda>new.
       if vma_vmmap new \<noteq> None then Inl KASSERT_failed
       else if \<not> vma_start new < vma_end new then Inl KASSERT_failed
       else if \<not> (ADDR_TO_PN K (USER_MEM_LOW K) \<le> vma_start new \<and> vma_end new \<le> ADDR_TO_PN K (USER_MEM_HIGH K))
       then Inl KASSERT_failed
       else
         bindE (insert_loop s (vma_end new) newvma (vmm_list vmap)) (\<lambda>vs.
           Inr (upd_area newvma (\<lambda>x. x\<lparr>vma_vmmap := Some m\<rparr>) (upd_map m (\<lambda>x. x\<lparr>vmm_list := vs\<rparr>) s)))))"

text \<open>
  The reverse iteration of \<^verbatim>\<open>vmmap_find_range\<close>; after the loop the variable
  \<^verbatim>\<open>vma\<close> still points at the area visited last, the first of the list, and
  is null when the list is empty.  The result is converted from a 32-bit
  word to a C \<^verbatim>\<open>int\<close>.
\<close>

fun find_loop :: "kconsts \<Rightarrow> kstate \<Rightarrow> u32 \<Rightarrow> u32 \<Rightarrow> vmarea option \<Rightarrow> ptr list \<Rightarrow> int res" where
  "find_loop K s npages userspace_end last_vma [] =
     bindE (deref last_vma) (\<lambda>vma.
       if npages \<le> vma_start vma - ADDR_TO_PN K (USER_MEM_LOW K) then Inr (sint (vma_start vma - npages))
       else Inr (- 1))"
| "find_loop K s npages userspace_end last_vma (v # vs) =
     bindE (deref (vmareas s v)) (\<lambda>vma.
       if npages \<le> userspace_end - vma_end vma then Inr (sint (userspace_end - npages))
       else find_loop K s npages (vma_start vma) (Some vma) vs)"

definition vmmap_find_range :: "kconsts \<Rightarrow> ptr \<Rightarrow> u32 \<Rightarrow> int \<Rightarrow> kstate \<Rightarrow> int res" where
  "vmmap_find_range K m npages dir s =
     (if dir = VMMAP_DIR_HILO K then
        bindE (deref (vmmaps s m)) (\<lambda>vmap.
          find_loop K s npages (ADDR_TO_PN K (USER_MEM_HIGH K)) None (rev (vmm_list vmap)))
      else Inl Panicked)"

fun lookup_loop :: "kstate \<Rightarrow> u32 \<Rightarrow> ptr list \<Rightarrow> ptr option res" where
  "lookup_loop s vfn [] = Inr None"
| "lookup_loop s vfn (v # vs) =
     bindE (deref (vmareas s v)) (\<lambda>curr_vma.
       if vfn < vma_end curr_vma \<and> vma_start curr_vma \<le> vfn then Inr (Some v) else lookup_loop s vfn vs)"

definition vmmap_lookup :: "ptr option \<Rightarrow> u32 \<Rightarrow> kstate \<Rightarrow> ptr option res" where
  "vmmap_lookup mp vfn s =
     (case mp of
        None \<Rightarrow> Inl KASSERT_failed
      | Some m \<Rightarrow> bindE (deref (vmmaps s m)) (\<lambda>vmap. lookup_loop s vfn (vmm_list vmap)))"

fun clone_loop :: "kconsts \<Rightarrow> kext \<Rightarrow> ptr \<Rightarrow> ptr list \<Rightarrow> kstate \<Rightarrow> kstate res" where
  "clone_loop K X clone_vmm [] s = Inr s"
| "clone_loop K X clone_vmm (v # vs) s =
     bindE (deref (vmareas s v)) (\<lambda>vma.
       let (a, s1) = vmarea_alloc X s in
       bindE (deref a) (\<lambda>new_vma.
         let s2 = upd_area new_vma (\<lambda>x. x\<lparr>vma_start := vma_start vma, vma_end := vma_end vma,
                    vma_off := vma_off vma, vma_prot := vma_prot vma, vma_flags := vma_flags vma,
                    vma_obj := None, vma_olink := None\<rparr>) s1
         in bindE (vmmap_insert K clone_vmm new_vma s2) (\<lambda>s3. clone_loop K X clone_vmm vs s3)))"

definition vmmap_clone :: "kconsts \<Rightarrow> kext \<Rightarrow> ptr \<Rightarrow> kstate \<Rightarrow> (ptr option \<times> kstate) res" where
  "vmmap_clone K X m s =
     (let (c, s1) = vmmap_create X s in
      bindE (deref (vmmaps s m)) (\<lambda>vmap.
        case c of
          None \<Rightarrow>
            (case vmm_list vmap of
               [] \<Rightarrow> Inr (None, s1)
             | v # _ \<Rightarrow>
                 bindE (deref (vmareas s1 v)) (\<lambda>_.
                 bindE (deref (fst (vmarea_alloc X s1))) (\<lambda>_. Inl KASSERT_failed)))
        | Some clone_vmm \<Rightarrow>
            bindE (clone_loop K X clone_vmm (vmm_list vmap) s1) (\<lambda>s2. Inr (Some clone_vmm, s2))))"

fun empty_loop :: "kstate \<Rightarrow> u32 \<Rightarrow> u32 \<Rightarrow> ptr list \<Rightarrow> bool res" where
  "empty_loop s startvfn endvfn [] = Inr True"
| "empty_loop s startvfn endvfn (v # vs) =
     bindE (deref (vmareas s v)) (\<lambda>curr_vma.
       if vma_end curr_vma > startvfn \<and> vma_start curr_vma < endvfn then Inr False
       else if startvfn < vma_start curr_vma \<and> vma_start curr_vma \<ge> endvfn then Inr True
       else empty_loop s startvfn endvfn vs)"

definition vmmap_is_range_empty :: "kconsts \<Rightarrow> ptr \<Rightarrow> u32 \<Rightarrow> u32 \<Rightarrow> kstate \<Rightarrow> bool res" where
  "vmmap_is_range_empty K m startvfn npages s =
     (let endvfn = startvfn + npages in
      if \<not> (startvfn < endvfn \<and> ADDR_TO_PN K (USER_MEM_LOW K) \<le> startvfn \<and>
             endvfn \<le> ADDR_TO_PN K (USER_MEM_HIGH K))
      then Inl KASSERT_failed
      else bindE (deref (vmmaps s m)) (\<lambda>vmap. empty_loop s startvfn endvfn (vmm_list vmap)))"

text \<open>
  One round of the loop of \<^verbatim>\<open>vmmap_remove\<close>, by the four cases of its comment:
  the range lies inside the area, it overlaps the end, it overlaps the
  beginning, it covers the area.  Only the first and the last call
  \<^verbatim>\<open>pt_unmap_range\<close>.  The flag tells whether the loop is left.
\<close>

fun insert_before :: "ptr \<Rightarrow> ptr \<Rightarrow> ptr list \<Rightarrow> ptr list" where
  "insert_before new v [] = []"
| "insert_before new v (x # xs) = (if x = v then new # x # xs else x # insert_before new v xs)"

definition unmap_pages :: "kext \<Rightarrow> u32 \<Rightarrow> u32 \<Rightarrow> kstate \<Rightarrow> kstate res" where
  "unmap_pages X lo_addr hi_addr s =
     bindE (deref (curproc s)) (\<lambda>p.
     bindE (deref (procs s p)) (\<lambda>pr.
       Inr (pt_unmap_range X (p_pagedir pr) lo_addr hi_addr s)))"

definition drop_if_empty :: "nat \<Rightarrow> kconsts \<Rightarrow> kext \<Rightarrow> ptr \<Rightarrow> ptr \<Rightarrow> kstate \<Rightarrow> kstate res" where
  "drop_if_empty n K X m v s =
     bindE (deref (vmareas s v)) (\<lambda>vma.
       if vma_start vma = vma_end vma then drop_area n K X m v s else Inr s)"

definition split_below :: "nat \<Rightarrow> kconsts \<Rightarrow> kext \<Rightarrow> ptr \<Rightarrow> u32 \<Rightarrow> u32 \<Rightarrow> ptr \<Rightarrow> vmarea \<Rightarrow> kstate \<Rightarrow> kstate res" where
  "split_below n K X m start_vfn end_vfn v vma_curr s =
     (let (a, s0) = vmarea_alloc X s in
      bindE (deref a) (\<lambda>split_vma.
      bindE (deref (vma_obj vma_curr)) (\<lambda>obj.
      bindE (mmobj_ref X obj s0) (\<lambda>s1.
        let s2 = upd_area split_vma (\<lambda>x. x\<lparr>vma_flags := vma_flags vma_curr, vma_prot := vma_prot vma_curr,
                   vma_olink := None, vma_obj := Some obj, vma_start := vma_start vma_curr,
                   vma_end := start_vfn, vma_vmmap := Some m, vma_off := vma_off vma_curr\<rparr>) s1;
            s3 = upd_area v (\<lambda>x. x\<lparr>vma_off := vma_off x + end_vfn - vma_start x, vma_start := end_vfn\<rparr>) s2
        in if vma_start vma_curr = start_vfn
           then bindE (mmobj_put n K X obj s3) (\<lambda>s4. Inr (vmarea_free split_vma s4))
           else Inr (upd_map m (\<lambda>x. x\<lparr>vmm_list := insert_before split_vma v (vmm_list x)\<rparr>) s3)))))"

definition remove_inside :: "nat \<Rightarrow> kconsts \<Rightarrow> kext \<Rightarrow> ptr \<Rightarrow> u32 \<Rightarrow> u32 \<Rightarrow> ptr \<Rightarrow> vmarea \<Rightarrow> kstate \<Rightarrow> kstate res" where
  "remove_inside n K X m start_vfn end_vfn v vma_curr s =
     bindE (split_below n K X m start_vfn end_vfn v vma_curr s) (\<lambda>s1.
     bindE (drop_if_empty n K X m v s1) (\<lambda>s2.
       unmap_pages X (PN_TO_ADDR K start_vfn) (PN_TO_ADDR K end_vfn) s2))"

definition remove_step ::
  "nat \<Rightarrow> kconsts \<Rightarrow> kext \<Rightarrow> ptr \<Rightarrow> u32 \<Rightarrow> u32 \<Rightarrow> ptr \<Rightarrow> kstate \<Rightarrow> (bool \<times> kstate) res" where
  "remove_step n K X m start_vfn end_vfn v s =
     bindE (deref (vmareas s v)) (\<lambda>vma_curr.
       let flg_overlap = (start_vfn > vma_end vma_curr \<or> end_vfn < vma_start vma_curr) in
       if start_vfn \<ge> vma_start vma_curr \<and> \<not> flg_overlap \<and> end_vfn \<le> vma_end vma_curr then
         bindE (remove_inside n K X m start_vfn end_vfn v vma_curr s) (\<lambda>s1. Inr (True, s1))
       else if vma_end vma_curr < end_vfn \<and> vma_start vma_curr \<le> start_vfn \<and> \<not> flg_overlap then
         bindE (drop_if_empty n K X m v (upd_area v (\<lambda>x. x\<lparr>vma_end := start_vfn\<rparr>) s)) (\<lambda>s1. Inr (False, s1))
       else if start_vfn < vma_start vma_curr \<and> end_vfn \<le> vma_end vma_curr \<and> \<not> flg_overlap then
         bindE (drop_if_empty n K X m v
                  (upd_area v (\<lambda>x. x\<lparr>vma_off := vma_off x + end_vfn - vma_start x, vma_start := end_vfn\<rparr>) s))
           (\<lambda>s1. Inr (False, s1))
       else if start_vfn < vma_start vma_curr \<and> end_vfn > vma_end vma_curr \<and> \<not> flg_overlap then
         bindE (drop_area n K X m v s) (\<lambda>s1.
         bindE (unmap_pages X (PN_TO_ADDR K (vma_start vma_curr)) (PN_TO_ADDR K (vma_end vma_curr)) s1) (\<lambda>s2.
           Inr (False, s2)))
       else Inr (False, s))"

fun remove_loop :: "nat \<Rightarrow> kconsts \<Rightarrow> kext \<Rightarrow> ptr \<Rightarrow> u32 \<Rightarrow> u32 \<Rightarrow> ptr list \<Rightarrow> kstate \<Rightarrow> kstate res" where
  "remove_loop n K X m start_vfn end_vfn [] s = Inr s"
| "remove_loop n K X m start_vfn end_vfn (v # vs) s =
     bindE (remove_step n K X m start_vfn end_vfn v s) (\<lambda>(stop, s1).
       if stop then Inr s1 else remove_loop n K X m start_vfn end_vfn vs s1)"

definition vmmap_remove :: "nat \<Rightarrow> kconsts \<Rightarrow> kext \<Rightarrow> ptr \<Rightarrow> u32 \<Rightarrow> u32 \<Rightarrow> kstate \<Rightarrow> (int \<times> kstate) res" where
  "vmmap_remove n K X m lopage npages s =
     bindE (deref (vmmaps s m)) (\<lambda>vmap.
     bindE (remove_loop n K X m lopage (lopage + npages) (vmm_list vmap) s) (\<lambda>s1. Inr (0, s1)))"

text \<open>
  \<^verbatim>\<open>vmmap_map\<close> in the order of the code: choosing the place, setting up the
  area, finding its object, shadowing it, inserting the area.  \<open>n\<close> is
  the fuel for the references dropped by \<^verbatim>\<open>vmmap_remove\<close>.
\<close>

definition map_place ::
  "nat \<Rightarrow> kconsts \<Rightarrow> kext \<Rightarrow> ptr \<Rightarrow> u32 \<Rightarrow> u32 \<Rightarrow> int \<Rightarrow> kstate \<Rightarrow> ((int + u32) \<times> kstate) res" where
  "map_place n K X m lopage npages dir s =
     (if lopage = 0 then
        bindE (vmmap_find_range K m npages dir s) (\<lambda>avail_space_start.
          if avail_space_start < 0 then Inr (Inl avail_space_start, s)
          else Inr (Inr (word_of_int avail_space_start), s))
      else
        bindE (vmmap_is_range_empty K m lopage npages s) (\<lambda>e.
          if \<not> e then bindE (vmmap_remove n K X m lopage npages s) (\<lambda>(_, s1). Inr (Inr lopage, s1))
          else Inr (Inr lopage, s)))"

definition map_object :: "kext \<Rightarrow> ptr option \<Rightarrow> ptr \<Rightarrow> kstate \<Rightarrow> kstate res" where
  "map_object X file v s =
     bindE (case file of
              Some f \<Rightarrow> bindE (vn_mmap X f v s) (\<lambda>(_, obj, s1). Inr (obj, s1))
            | None \<Rightarrow> bindE (anon_create X s) (\<lambda>(anon_obj, s1). Inr (Some anon_obj, s1))) (\<lambda>(obj, s1).
     bindE (deref obj) (\<lambda>o'.
     bindE (mmobj_bottom_obj X s1 o') (\<lambda>b.
     bindE (deref (mmobjs s1 b)) (\<lambda>_.
       Inr (upd_obj b (\<lambda>x. x\<lparr>mmo_vmas := mmo_vmas x @ [v]\<rparr>)
             (upd_area v (\<lambda>x. x\<lparr>vma_obj := Some o', vma_olink := Some b\<rparr>) s1))))))"

definition map_shadow :: "kext \<Rightarrow> ptr \<Rightarrow> kstate \<Rightarrow> kstate res" where
  "map_shadow X v s =
     bindE (deref (vmareas s v)) (\<lambda>vma.
     bindE (deref (vma_obj vma)) (\<lambda>shadow_obj.
     bindE (shadow_create X s) (\<lambda>(sh, s1).
     bindE (mmobj_bottom_obj X s1 shadow_obj) (\<lambda>b.
       Inr (upd_area v (\<lambda>x. x\<lparr>vma_obj := Some sh\<rparr>)
             (upd_obj sh (\<lambda>x. x\<lparr>mmo_shadowed := Some shadow_obj, mmo_bottom := Some b\<rparr>) s1))))))"

definition vmmap_map ::
  "nat \<Rightarrow> kconsts \<Rightarrow> kext \<Rightarrow> ptr option \<Rightarrow> ptr option \<Rightarrow> u32 \<Rightarrow> u32 \<Rightarrow> u32 \<Rightarrow> u32 \<Rightarrow> u32 \<Rightarrow> int \<Rightarrow> kstate \<Rightarrow>
   (int \<times> ptr option \<times> kstate) res" where
  "vmmap_map n K X mp file lopage npages prot flags off dir s =
     (case mp of
        None \<Rightarrow> Inl KASSERT_failed
      | Some m \<Rightarrow>
          if \<not> 0 < npages then Inl KASSERT_failed
          else if \<not> (MAP_SHARED K AND flags \<noteq> 0 \<or> MAP_PRIVATE K AND flags \<noteq> 0) then Inl KASSERT_failed
          else if \<not> (lopage = 0 \<or> ADDR_TO_PN K (USER_MEM_LOW K) \<le> lopage) then Inl KASSERT_failed
          else if \<not> (lopage = 0 \<or> lopage + npages \<le> ADDR_TO_PN K (USER_MEM_HIGH K)) then Inl KASSERT_failed
          else if \<not> PAGE_ALIGNED K off then Inl KASSERT_failed
          else
            let (a, s0) = vmarea_alloc X s in
            bindE (map_place n K X m lopage npages dir s0) (\<lambda>(place, s1).
              case place of
                Inl err \<Rightarrow> Inr (err, None, s1)
              | Inr addr_s \<Rightarrow>
                  bindE (deref a) (\<lambda>v.
                    let s2 = upd_area v (\<lambda>x. x\<lparr>vma_start := addr_s, vma_end := addr_s + npages,
                               vma_off := ADDR_TO_PN K off, vma_prot := prot, vma_flags := flags,
                               vma_olink := None\<rparr>) s1
                    in bindE (map_object X file v s2) (\<lambda>s3.
                       bindE (if flags AND MAP_PRIVATE K = MAP_PRIVATE K then map_shadow X v s3 else Inr s3) (\<lambda>s4.
                       bindE (vmmap_insert K m v s4) (\<lambda>s5.
                         Inr (0, Some v, s5)))))))"

section \<open>Reading and writing user memory\<close>

text \<open>
  \<open>buf\<close> is the kernel's buffer, a function from offsets to bytes.  The
  loops run once per page and take fuel.
\<close>

definition min_uint32 :: "u32 \<Rightarrow> u32 \<Rightarrow> u32" where
  "min_uint32 a b = (if a < b then a else b)"

type_synonym buffer = "u32 \<Rightarrow> 8 word"

primrec read_loop ::
  "nat \<Rightarrow> nat \<Rightarrow> kconsts \<Rightarrow> kext \<Rightarrow> ptr option \<Rightarrow> u32 \<Rightarrow> u32 \<Rightarrow> u32 \<Rightarrow> buffer \<Rightarrow> kstate \<Rightarrow> (buffer \<times> kstate) res" where
  "read_loop 0 n K X mp addr_s read_bytes count buf s = Inl Never_returns"
| "read_loop (Suc f) n K X mp addr_s read_bytes count buf s =
     (if read_bytes < count then
        let vfn = ADDR_TO_PN K addr_s in
        bindE (vmmap_lookup mp vfn s) (\<lambda>v.
        bindE (deref v) (\<lambda>vp.
        bindE (deref (vmareas s vp)) (\<lambda>vma.
          let pagenum = vfn - (vma_start vma + vma_off vma);
              start_pg_off = PAGE_OFFSET K addr_s in
          bindE (deref (vma_obj vma)) (\<lambda>obj.
          bindE (pframe_lookup n K X obj pagenum False s) (\<lambda>(_, r, s1).
            let read_size = min_uint32 (count - read_bytes) (PAGE_SIZE K - start_pg_off) in
            bindE (deref r) (\<lambda>p.
            bindE (deref (pframes s1 p)) (\<lambda>pf.
              read_loop f n K X mp (addr_s + read_size) (read_bytes + read_size) count
                (\<lambda>i. if i - read_bytes < read_size then pf_data pf (start_pg_off + (i - read_bytes)) else buf i)
                s1)))))))
      else Inr (buf, s))"

definition vmmap_read ::
  "nat \<Rightarrow> nat \<Rightarrow> kconsts \<Rightarrow> kext \<Rightarrow> ptr option \<Rightarrow> u32 \<Rightarrow> buffer \<Rightarrow> u32 \<Rightarrow> kstate \<Rightarrow> (int \<times> buffer \<times> kstate) res" where
  "vmmap_read f n K X mp vaddr buf count s =
     bindE (read_loop f n K X mp vaddr 0 count buf s) (\<lambda>(buf', s'). Inr (0, buf', s'))"

primrec write_loop ::
  "nat \<Rightarrow> nat \<Rightarrow> kconsts \<Rightarrow> kext \<Rightarrow> ptr option \<Rightarrow> u32 \<Rightarrow> u32 \<Rightarrow> u32 \<Rightarrow> buffer \<Rightarrow> kstate \<Rightarrow> kstate res" where
  "write_loop 0 n K X mp addr_s write_bytes_done count buf s = Inl Never_returns"
| "write_loop (Suc f) n K X mp addr_s write_bytes_done count buf s =
     (if write_bytes_done < count then
        let vfn = ADDR_TO_PN K addr_s in
        bindE (vmmap_lookup mp vfn s) (\<lambda>v.
        bindE (deref v) (\<lambda>vp.
        bindE (deref (vmareas s vp)) (\<lambda>vma.
          let pagenum = vfn - vma_start vma + vma_off vma;
              start_pg_off = PAGE_OFFSET K addr_s in
          bindE (deref (vma_obj vma)) (\<lambda>obj.
          bindE (pframe_lookup n K X obj pagenum True s) (\<lambda>(_, r, s1).
            let write_size = min_uint32 (count - write_bytes_done) (PAGE_SIZE K - start_pg_off) in
            bindE (deref r) (\<lambda>p.
            bindE (deref (pframes s1 p)) (\<lambda>_.
            let s2 = upd_pf p (\<lambda>x. x\<lparr>pf_data := (\<lambda>i. if i - start_pg_off < write_size
                       then buf (write_bytes_done + (i - start_pg_off)) else pf_data x i)\<rparr>) s1 in
            bindE (pframe_dirty K (mmobj_dirtypage X) p s2) (\<lambda>(_, s3).
              write_loop f n K X mp (addr_s + write_size) (write_bytes_done + write_size) count buf s3))))))))
      else Inr s)"

definition vmmap_write ::
  "nat \<Rightarrow> nat \<Rightarrow> kconsts \<Rightarrow> kext \<Rightarrow> ptr option \<Rightarrow> u32 \<Rightarrow> buffer \<Rightarrow> u32 \<Rightarrow> kstate \<Rightarrow> (int \<times> kstate) res" where
  "vmmap_write f n K X mp vaddr buf count s =
     bindE (write_loop f n K X mp vaddr 0 count buf s) (\<lambda>s'. Inr (0, s'))"

section \<open>Address spaces as lists of areas\<close>

definition area :: "kstate \<Rightarrow> ptr \<Rightarrow> vmarea" where
  "area s v = (case vmareas s v of Some a \<Rightarrow> a | None \<Rightarrow> blank_area)"

definition area_ptrs :: "kstate \<Rightarrow> ptr \<Rightarrow> ptr list" where
  "area_ptrs s m = (case vmmaps s m of Some vm \<Rightarrow> vmm_list vm | None \<Rightarrow> [])"

definition areas :: "kstate \<Rightarrow> ptr \<Rightarrow> vmarea list" where
  "areas s m = map (area s) (area_ptrs s m)"

text \<open>
  The invariant of an address space: its areas exist, each once, belong to it,
  are non-empty, lie in the user part of memory, and are sorted and disjoint.
\<close>

definition space_ok :: "kconsts \<Rightarrow> kstate \<Rightarrow> ptr \<Rightarrow> bool" where
  "space_ok K s m \<longleftrightarrow> vmmaps s m \<noteq> None \<and> distinct (area_ptrs s m) \<and>
     (\<forall>v\<in>set (area_ptrs s m). vmareas s v \<noteq> None \<and> vma_vmmap (area s v) = Some m) \<and>
     wf_areas K (areas s m)"

lemma space_okD:
  assumes "space_ok K s m"
  shows "wf_areas K (areas s m)" "distinct (area_ptrs s m)"
    "v \<in> set (area_ptrs s m) \<Longrightarrow> vmareas s v = Some (area s v)"
    "\<exists>vm. vmmaps s m = Some vm \<and> vmm_list vm = area_ptrs s m"
  using assms by (auto simp: space_ok_def area_def area_ptrs_def split: option.splits)

lemma lookup_loop_find:
  assumes "\<forall>v\<in>set vs. vmareas s v = Some (area s v)"
  shows "lookup_loop s vfn vs = Inr (List.find (\<lambda>v. covers vfn (area s v)) vs)"
  using assms by (induction vs) (auto simp: covers_def)

lemma vmmap_lookup_eq:
  assumes "space_ok K s m"
  shows "vmmap_lookup (Some m) vfn s = Inr (List.find (\<lambda>v. covers vfn (area s v)) (area_ptrs s m))"
  using space_okD(3,4) [OF assms] lookup_loop_find [of "area_ptrs s m" s vfn]
  by (auto simp: vmmap_lookup_def)

lemma find_map: "List.find P (map f xs) = map_option f (List.find (P \<circ> f) xs)"
  by (induction xs) auto

lemma mapped_areas:
  "mapped (areas s m) vfn =
     map_option (\<lambda>v. page_map vfn (area s v)) (List.find (\<lambda>v. covers vfn (area s v)) (area_ptrs s m))"
  by (simp add: mapped_def areas_def find_map o_def option.map_comp)

lemma empty_loop_eq:
  assumes "\<forall>v\<in>set vs. vmareas s v = Some (area s v)" "wf_areas K (map (area s) vs)" "lo < hi"
  shows "empty_loop s lo hi vs = Inr (\<forall>v\<in>set vs. \<not> (lo < vma_end (area s v) \<and> vma_start (area s v) < hi))"
  using assms
proof (induction vs)
  case (Cons v vs)
  let ?a = "area s v"
  have a: "vma_start ?a < vma_end ?a" "\<forall>w\<in>set vs. vma_end ?a \<le> vma_start (area s w)"
    using Cons.prems(2) by (auto simp: wf_areas_Cons wf_area_def)
  then have stop: "\<forall>w\<in>set vs. hi \<le> vma_start (area s w)" if "hi \<le> vma_start ?a"
    using that by fastforce
  show ?case
  proof (cases "lo < vma_start ?a \<and> hi \<le> vma_start ?a")
    case True
    with stop Cons.prems show ?thesis by auto
  next
    case False
    with Cons show ?thesis by (auto simp: wf_areas_Cons)
  qed
qed simp

lemma empty_iff_unmapped:
  assumes "wf_areas K as" "lo < hi"
  shows "(\<forall>a\<in>set as. \<not> (lo < vma_end a \<and> vma_start a < hi)) \<longleftrightarrow>
    (\<forall>vfn. lo \<le> vfn \<and> vfn < hi \<longrightarrow> mapped as vfn = None)"
proof -
  have "\<exists>vfn. lo \<le> vfn \<and> vfn < hi \<and> covers vfn a" if a: "a \<in> set as" "lo < vma_end a" "vma_start a < hi" for a
  proof -
    have "vma_start a < vma_end a" using assms(1) a(1) by (simp add: wf_areas_def wf_area_def)
    then have "lo \<le> max lo (vma_start a) \<and> max lo (vma_start a) < hi \<and> covers (max lo (vma_start a)) a"
      using a assms(2) by (auto simp: covers_def)
    then show ?thesis by blast
  qed
  then show ?thesis by (auto simp: mapped_None covers_def; fastforce)
qed

lemma find_loop_gap:
  assumes "\<forall>v\<in>set vs. vmareas s v = Some (area s v)" "vs = [] \<longrightarrow> (\<exists>a. last_vma = Some a \<and> vma_start a = uend)"
  shows "find_loop K s n uend last_vma vs =
    Inr (case gap K n uend (map (area s) vs) of Some w \<Rightarrow> sint w | None \<Rightarrow> - 1)"
  using assms by (induction vs arbitrary: uend last_vma) auto

lemma insert_loop_place:
  assumes "\<forall>v\<in>set vs. vmareas s v = Some (area s v)" "vmareas s newvma = Some (area s newvma)"
  shows "\<exists>vs'. insert_loop s (vma_end (area s newvma)) newvma vs = Inr vs' \<and>
    map (area s) vs' = place (area s newvma) (map (area s) vs) \<and> set vs' = insert newvma (set vs) \<and>
    (newvma \<notin> set vs \<longrightarrow> distinct vs \<longrightarrow> distinct vs')"
  using assms(1)
proof (induction vs)
  case (Cons v vs)
  then obtain vs' where "insert_loop s (vma_end (area s newvma)) newvma vs = Inr vs'"
      "map (area s) vs' = place (area s newvma) (map (area s) vs)" "set vs' = insert newvma (set vs)"
      "newvma \<notin> set vs \<longrightarrow> distinct vs \<longrightarrow> distinct vs'"
    by auto
  with Cons.prems show ?case by auto
qed simp

section \<open>Inserting\<close>

lemma upd_area_sel [simp]:
  "vmareas (upd_area v f s) = (vmareas s)(v := map_option f (vmareas s v))" "vmmaps (upd_area v f s) = vmmaps s"
  "mmobjs (upd_area v f s) = mmobjs s" "pframes (upd_area v f s) = pframes s" "procs (upd_area v f s) = procs s"
  "curproc (upd_area v f s) = curproc s" "queues (upd_area v f s) = queues s"
  by (simp_all add: upd_area_def)

lemma upd_map_sel [simp]:
  "vmmaps (upd_map m f s) = (vmmaps s)(m := map_option f (vmmaps s m))" "vmareas (upd_map m f s) = vmareas s"
  "mmobjs (upd_map m f s) = mmobjs s" "pframes (upd_map m f s) = pframes s" "procs (upd_map m f s) = procs s"
  "curproc (upd_map m f s) = curproc s" "queues (upd_map m f s) = queues s"
  by (simp_all add: upd_map_def)

lemma vmarea_free_sel [simp]:
  "vmareas (vmarea_free v s) = (vmareas s)(v := None)" "vmmaps (vmarea_free v s) = vmmaps s"
  "mmobjs (vmarea_free v s) = mmobjs s" "pframes (vmarea_free v s) = pframes s" "procs (vmarea_free v s) = procs s"
  "curproc (vmarea_free v s) = curproc s" "queues (vmarea_free v s) = queues s"
  by (simp_all add: vmarea_free_def)

lemma area_cong: "vmareas s' v = vmareas s v \<Longrightarrow> area s' v = area s v"
  by (simp add: area_def)

lemma insert_loop_cong:
  "\<forall>v\<in>set vs. vmareas s' v = vmareas s v \<Longrightarrow> insert_loop s' e new vs = insert_loop s e new vs"
  by (induction vs) (auto cong: if_cong)

lemma vmmap_insert_ok:
  assumes ok: "space_ok K s m" and v: "vmareas s v = Some a" "vma_vmmap a = None"
    and wf: "wf_area K a" "disjoint_from a (areas s m)"
  shows "\<exists>vs. vmmap_insert K m v s =
      Inr (upd_area v (\<lambda>x. x\<lparr>vma_vmmap := Some m\<rparr>) (upd_map m (\<lambda>x. x\<lparr>vmm_list := vs\<rparr>) s)) \<and>
    set vs = insert v (set (area_ptrs s m)) \<and> distinct vs \<and>
    map (area (upd_area v (\<lambda>x. x\<lparr>vma_vmmap := Some m\<rparr>) s)) vs = place (a\<lparr>vma_vmmap := Some m\<rparr>) (areas s m)"
proof -
  have nv: "v \<notin> set (area_ptrs s m)" using ok v by (auto simp: space_ok_def area_def)
  let ?s = "upd_area v (\<lambda>x. x\<lparr>vma_vmmap := Some m\<rparr>) s"
  have av: "area ?s v = a\<lparr>vma_vmmap := Some m\<rparr>" using v by (simp add: area_def)
  have aw: "vmareas ?s w = Some (area ?s w)" "area ?s w = area s w" if "w \<in> set (area_ptrs s m)" for w
    using that nv space_okD(3) [OF ok that] by (auto simp: area_def)
  obtain vs where vs: "insert_loop ?s (vma_end (area ?s v)) v (area_ptrs s m) = Inr vs"
      "map (area ?s) vs = place (area ?s v) (map (area ?s) (area_ptrs s m))"
      "set vs = insert v (set (area_ptrs s m))" "distinct vs"
    using insert_loop_place [of "area_ptrs s m" ?s v] aw(1) v nv space_okD(2) [OF ok] by (auto simp: area_def)
  have "insert_loop s (vma_end a) v (area_ptrs s m) = Inr vs"
    using vs(1) insert_loop_cong [of "area_ptrs s m" ?s s] nv av by auto
  moreover obtain vm where "vmmaps s m = Some vm" "vmm_list vm = area_ptrs s m" using space_okD(4) [OF ok] by blast
  ultimately have "vmmap_insert K m v s =
      Inr (upd_area v (\<lambda>x. x\<lparr>vma_vmmap := Some m\<rparr>) (upd_map m (\<lambda>x. x\<lparr>vmm_list := vs\<rparr>) s))"
    using v wf(1) by (simp add: vmmap_insert_def wf_area_def)
  moreover have "map (area ?s) (area_ptrs s m) = areas s m" using aw(2) by (simp add: areas_def)
  ultimately show ?thesis using vs av by auto
qed

lemma disjoint_from_flags: "disjoint_from (a\<lparr>vma_vmmap := x\<rparr>) as = disjoint_from a as"
  by (simp add: disjoint_from_def)

lemma vmmap_insert_space:
  assumes ok: "space_ok K s m" and v: "vmareas s v = Some a" "vma_vmmap a = None"
    and wf: "wf_area K a" "disjoint_from a (areas s m)"
  shows "\<exists>s'. vmmap_insert K m v s = Inr s' \<and> space_ok K s' m \<and> v \<in> set (area_ptrs s' m) \<and>
    (\<exists>vs. s' = upd_area v (\<lambda>x. x\<lparr>vma_vmmap := Some m\<rparr>) (upd_map m (\<lambda>x. x\<lparr>vmm_list := vs\<rparr>) s)) \<and>
    areas s' m = place (a\<lparr>vma_vmmap := Some m\<rparr>) (areas s m) \<and>
    (\<forall>vfn. mapped (areas s' m) vfn = (if covers vfn a then Some (page_map vfn a) else mapped (areas s m) vfn))"
proof -
  let ?a = "a\<lparr>vma_vmmap := Some m\<rparr>"
  obtain vs where vs: "vmmap_insert K m v s =
      Inr (upd_area v (\<lambda>x. x\<lparr>vma_vmmap := Some m\<rparr>) (upd_map m (\<lambda>x. x\<lparr>vmm_list := vs\<rparr>) s))"
      "set vs = insert v (set (area_ptrs s m))" "distinct vs"
      "map (area (upd_area v (\<lambda>x. x\<lparr>vma_vmmap := Some m\<rparr>) s)) vs = place ?a (areas s m)"
    using vmmap_insert_ok [OF assms] by blast
  let ?s = "upd_area v (\<lambda>x. x\<lparr>vma_vmmap := Some m\<rparr>) (upd_map m (\<lambda>x. x\<lparr>vmm_list := vs\<rparr>) s)"
  have p: "area_ptrs ?s m = vs" using ok by (auto simp: area_ptrs_def space_ok_def)
  have "area ?s = area (upd_area v (\<lambda>x. x\<lparr>vma_vmmap := Some m\<rparr>) s)" by (rule ext) (simp add: area_def)
  then have ar: "areas ?s m = place ?a (areas s m)" using vs(4) p by (simp add: areas_def)
  have wa: "wf_area K ?a" "disjoint_from ?a (areas s m)" using wf by (simp_all add: wf_area_def disjoint_from_flags)
  have "wf_areas K (areas ?s m)" unfolding ar by (rule wf_place [OF space_okD(1) [OF ok] wa])
  moreover have "vmareas ?s w \<noteq> None \<and> vma_vmmap (area ?s w) = Some m" if "w \<in> set vs" for w
    using that vs(2) ok v by (cases "w = v") (auto simp: area_def space_ok_def)
  ultimately have "space_ok K ?s m" using vs(3) p ok by (simp add: space_ok_def)
  moreover have "mapped (areas ?s m) vfn = (if covers vfn a then Some (page_map vfn a) else mapped (areas s m) vfn)" for vfn
    unfolding ar mapped_place [OF space_okD(1) [OF ok] wa] by (simp add: covers_def page_map_def)
  moreover have "v \<in> set (area_ptrs ?s m)" using p vs(2) by simp
  ultimately show ?thesis using vs(1) ar by blast
qed

section \<open>Removing\<close>

definition area_fresh :: "kext \<Rightarrow> bool" where
  "area_fresh X \<longleftrightarrow> (\<forall>s v. vmarea_slab X s = Some v \<longrightarrow> vmareas s v = None)"

text \<open>The file objects' reference counting does not touch anything but memory objects and frames.\<close>

definition obj_frame :: "kext \<Rightarrow> bool" where
  "obj_frame X \<longleftrightarrow>
     (\<forall>obj s s'. o_ref X obj s = Inr s' \<longrightarrow> mem_rest s' = mem_rest s) \<and>
     (\<forall>obj s s'. o_put X obj s = Inr s' \<longrightarrow> mem_rest s' = mem_rest s)"

lemma mmobj_ref_rest [kframe]:
  assumes "mmobj_ref X obj s = Inr s'" "obj_frame X"
  shows "mem_rest s' = mem_rest s"
  using assms
  by (auto simp: mmobj_ref_def anon_ref_def shadow_ref_def obj_frame_def elim!: bindE_InrE
      split: mmobj_ops.splits if_splits)

lemma pframe_unpin_rest [kframe]: "pframe_unpin p s = Inr s' \<Longrightarrow> mem_rest s' = mem_rest s"
  by (auto simp: pframe_unpin_def Let_def elim!: bindE_InrE split: if_splits)

lemma pt_frame_rest:
  assumes "pt_frame X"
  shows "mem_rest (pt_unmap X pd v s) = mem_rest s" "mem_rest (pt_unmap_range X pd lo hi s) = mem_rest s"
    "mem_rest (pt_map X pd v a f g s) = mem_rest s"
  using assms unfolding pt_frame_def by (metis mem_rest_upd(8))+

lemma remove_from_pts_loop_rest:
  assumes "pt_frame X"
  shows "remove_from_pts_loop K X pn vs s = Inr s' \<Longrightarrow> mem_rest s' = mem_rest s"
proof (induction vs arbitrary: s)
  case (Cons v vs)
  then show ?case using pt_frame_rest(1) [OF assms]
    by (auto elim!: bindE_InrE split: if_splits option.splits)
qed simp

lemma pframe_free_rest:
  assumes "pt_frame X" and put: "\<And>obj u u'. put obj u = Inr u' \<Longrightarrow> mem_rest u' = mem_rest u"
    and "pframe_free K X put p s = Inr s'"
  shows "mem_rest s' = mem_rest s"
proof -
  from assms(3) obtain obj u1 u2 where "pframe_remove_from_pts K X p s = Inr u1" "put obj u2 = Inr s'"
      "mem_rest u2 = mem_rest u1"
    by (auto simp: pframe_free_def Let_def elim!: bindE_InrE split: if_splits)
  moreover from this(1) have "mem_rest u1 = mem_rest s"
    by (auto simp: pframe_remove_from_pts_def elim!: bindE_InrE intro: remove_from_pts_loop_rest [OF assms(1)])
  ultimately show ?thesis using put by simp
qed

lemma uncache_loop_rest:
  assumes "\<And>p u u'. free p u = Inr u' \<Longrightarrow> mem_rest u' = mem_rest u"
  shows "uncache_loop free ps s = Inr s' \<Longrightarrow> mem_rest s' = mem_rest s"
proof (induction ps arbitrary: s)
  case (Cons p ps)
  then show ?case by (auto elim!: bindE_InrE dest!: pframe_unpin_rest assms)
qed simp

lemma mmobj_put_rest:
  assumes X: "pt_frame X" "obj_frame X"
  shows "mmobj_put n K X obj s = Inr s' \<Longrightarrow> mem_rest s' = mem_rest s"
proof (induction n arbitrary: obj s s')
  case (Suc n)
  have loop: "mem_rest u' = mem_rest u"
    if "uncache_loop (pframe_free K X (mmobj_put n K X)) ps u = Inr u'" for ps u u'
    by (rule uncache_loop_rest [OF _ that]) (rule pframe_free_rest [OF X(1) Suc.IH])
  from Suc.prems X(2) show ?case
    by (auto simp: mmobj_put.simps(2) anon_put_def shadow_put_def obj_frame_def elim!: bindE_InrE
        split: mmobj_ops.splits if_splits dest!: loop Suc.IH)
qed (simp add: mmobj_put.simps)

lemma bindE_deref: "bindE (deref x) k = Inr y \<longleftrightarrow> (\<exists>a. x = Some a \<and> k a = Inr y)"
  by (cases x) auto

lemma area_ptrs_map: "vmmaps s m \<noteq> None \<Longrightarrow> area_ptrs (upd_map m (\<lambda>x. x\<lparr>vmm_list := g (vmm_list x)\<rparr>) s) m = g (area_ptrs s m)"
  by (auto simp: area_ptrs_def)

lemma area_ptrs_cong: "vmmaps s' m = vmmaps s m \<Longrightarrow> area_ptrs s' m = area_ptrs s m"
  by (simp add: area_ptrs_def)

text \<open>What getting rid of an area does to the address spaces.\<close>

lemma drop_area_space:
  assumes d: "drop_area n K X m v s = Inr s'" and X: "pt_frame X" "obj_frame X"
  shows "vmareas s' = (vmareas s)(v := None) \<and>
    vmmaps s' = (vmmaps s)(m := map_option (\<lambda>x. x\<lparr>vmm_list := remove1 v (vmm_list x)\<rparr>) (vmmaps s m)) \<and>
    curproc s' = curproc s \<and> procs s' = procs s"
proof -
  from d obtain obj s1 s2 where "mmobj_put n K X obj s = Inr s1" and s2: "unlink_olink v s1 = Inr s2"
      and s': "s' = vmarea_free v (unlink_plink m v s2)"
    by (auto simp: drop_area_def bindE_deref elim!: bindE_InrE)
  then have "mem_rest s1 = mem_rest s" using mmobj_put_rest [OF X] by blast
  note r = mem_restD [OF this]
  have "vmmaps s2 = vmmaps s" "curproc s2 = curproc s" "procs s2 = procs s"
      "(vmareas s2)(v := None) = (vmareas s)(v := None)"
    using s2 r by (auto simp: unlink_olink_def bindE_deref split: option.splits)
  then show ?thesis using s' by (simp add: unlink_plink_def)
qed

lemma drop_if_empty_space:
  assumes d: "drop_if_empty n K X m v s = Inr s'" and X: "pt_frame X" "obj_frame X"
    and m: "vmmaps s m \<noteq> None" and l: "area_ptrs s m = pre @ v # post" "distinct (pre @ v # post)"
  shows "area_ptrs s' m = pre @ (if vma_start (area s v) = vma_end (area s v) then [] else [v]) @ post \<and>
    (vma_start (area s v) \<noteq> vma_end (area s v) \<longrightarrow> vmareas s' v = Some (area s v)) \<and>
    (\<forall>w. w \<noteq> v \<longrightarrow> vmareas s' w = vmareas s w) \<and> vmmaps s' m \<noteq> None \<and>
    (\<forall>m'. m' \<noteq> m \<longrightarrow> vmmaps s' m' = vmmaps s m') \<and> curproc s' = curproc s \<and> procs s' = procs s"
proof -
  from d obtain a where a: "vmareas s v = Some a"
      "(if vma_start a = vma_end a then drop_area n K X m v s else Inr s) = Inr s'"
    by (auto simp: drop_if_empty_def bindE_deref)
  then have av: "area s v = a" by (simp add: area_def)
  show ?thesis
  proof (cases "vma_start a = vma_end a")
    case True
    with a drop_area_space [of n K X m v s s'] X have e: "vmareas s' = (vmareas s)(v := None)"
        "vmmaps s' = (vmmaps s)(m := map_option (\<lambda>x. x\<lparr>vmm_list := remove1 v (vmm_list x)\<rparr>) (vmmaps s m))"
        "curproc s' = curproc s" "procs s' = procs s" by auto
    have "area_ptrs s' m = remove1 v (area_ptrs s m)" using e(2) m by (auto simp: area_ptrs_def)
    also have "\<dots> = pre @ post" using l by (simp add: remove1_append)
    finally show ?thesis using e True av m by auto
  next
    case False
    with a av l m show ?thesis by auto
  qed
qed

definition step_effect :: "u32 \<Rightarrow> u32 \<Rightarrow> ptr \<Rightarrow> ptr list \<Rightarrow> ptr \<Rightarrow> ptr list \<Rightarrow> kstate \<Rightarrow> kstate \<Rightarrow> bool" where
  "step_effect lo hi m pre v post s s' \<longleftrightarrow>
     (\<exists>new. area_ptrs s' m = pre @ new @ post \<and> distinct (pre @ new @ post) \<and>
        map (area s') new = cut1 lo hi (area s v) \<and>
        (\<forall>w\<in>set new. vmareas s' w \<noteq> None \<and> (w = v \<or> vmareas s w = None)) \<and> (\<forall>w. w \<noteq> v \<and> vmareas s w \<noteq> None \<longrightarrow> vmareas s' w = vmareas s w)) \<and>
     vmmaps s' m \<noteq> None \<and>
     (\<forall>m'. m' \<noteq> m \<longrightarrow> vmmaps s' m' = vmmaps s m') \<and> curproc s' = curproc s \<and> procs s' = procs s"

lemma unmap_pages_rest:
  assumes "unmap_pages X lo hi s = Inr s'" "pt_frame X"
  shows "mem_rest s' = mem_rest s"
  using assms by (auto simp: unmap_pages_def bindE_deref pt_frame_rest)

lemma insert_before_split: "v \<notin> set pre \<Longrightarrow> insert_before new v (pre @ v # post) = pre @ new # v # post"
  by (induction pre) auto

lemma split_below_effect:
  assumes r: "split_below n K X m lo hi v a s = Inr s5" and X: "pt_frame X" "obj_frame X" "area_fresh X"
    and m: "vmmaps s m \<noteq> None" and l: "area_ptrs s m = pre @ v # post" "distinct (pre @ v # post)"
    and live: "\<forall>w\<in>set (pre @ v # post). vmareas s w \<noteq> None"
    and a: "vmareas s v = Some a" "vma_vmmap a = Some m"
  shows "\<exists>ins. area_ptrs s5 m = (pre @ ins) @ v # post \<and> distinct ((pre @ ins) @ v # post) \<and>
      map (area s5) ins = below lo (a\<lparr>vma_olink := None\<rparr>) \<and> (\<forall>w\<in>set ins. vmareas s5 w \<noteq> None \<and> vmareas s w = None) \<and>
      area s5 v = a\<lparr>vma_off := vma_off a + hi - vma_start a, vma_start := hi\<rparr> \<and>
      (\<forall>w. w \<noteq> v \<and> vmareas s w \<noteq> None \<longrightarrow> vmareas s5 w = vmareas s w) \<and> vmmaps s5 m \<noteq> None \<and>
      (\<forall>m'. m' \<noteq> m \<longrightarrow> vmmaps s5 m' = vmmaps s m') \<and> curproc s5 = curproc s \<and> procs s5 = procs s"
proof -
  let ?f = "\<lambda>obj x. x\<lparr>vma_flags := vma_flags a, vma_prot := vma_prot a, vma_olink := None, vma_obj := Some obj,
           vma_start := vma_start a, vma_end := lo, vma_vmmap := Some m, vma_off := vma_off a\<rparr>"
  let ?g = "\<lambda>x. x\<lparr>vma_off := vma_off x + hi - vma_start x, vma_start := hi\<rparr>"
  from r obtain sp obj s1 where sp: "vmarea_slab X s = Some sp" and ob: "vma_obj a = Some obj"
    and s1: "mmobj_ref X obj (s\<lparr>vmareas := (vmareas s)(sp \<mapsto> blank_area)\<rparr>) = Inr s1"
    and s5: "(if vma_start a = lo
         then bindE (mmobj_put n K X obj (upd_area v ?g (upd_area sp (?f obj) s1))) (\<lambda>s4. Inr (vmarea_free sp s4))
         else Inr (upd_map m (\<lambda>x. x\<lparr>vmm_list := insert_before sp v (vmm_list x)\<rparr>)
                (upd_area v ?g (upd_area sp (?f obj) s1)))) = Inr s5"
    by (auto simp: split_below_def vmarea_alloc_def bindE_deref Let_def split: option.splits elim!: bindE_InrE)
  let ?s3 = "upd_area v ?g (upd_area sp (?f obj) s1)"
  have fresh: "vmareas s sp = None" using X(3) sp by (simp add: area_fresh_def)
  then have new: "sp \<notin> set (pre @ v # post)" using live by blast
  have A: "?f obj blank_area = a\<lparr>vma_olink := None, vma_end := lo\<rparr>"
    using ob a(2) by (cases a) (simp add: blank_area_def)
  have "mem_rest s1 = mem_rest (s\<lparr>vmareas := (vmareas s)(sp \<mapsto> blank_area)\<rparr>)" using mmobj_ref_rest [OF s1 X(2)] .
  then have s3: "vmareas ?s3 = (vmareas s)(sp \<mapsto> a\<lparr>vma_olink := None, vma_end := lo\<rparr>, v \<mapsto> ?g a)"
      "vmmaps ?s3 = vmmaps s" "curproc ?s3 = curproc s" "procs ?s3 = procs s"
    using mem_restD [of s1 "s\<lparr>vmareas := (vmareas s)(sp \<mapsto> blank_area)\<rparr>"] new a(1) by (simp_all add: A)
  show ?thesis
  proof (cases "vma_start a = lo")
    case True
    then obtain s4 where "mmobj_put n K X obj ?s3 = Inr s4" "s5 = vmarea_free sp s4"
      using s5 by (auto elim!: bindE_InrE)
    moreover from this(1) have "mem_rest s4 = mem_rest ?s3" by (rule mmobj_put_rest [OF X(1,2)])
    ultimately show ?thesis
      using mem_restD [of s4 ?s3] s3 l m True new fresh area_ptrs_cong [of s5 m s]
      by (intro exI [of _ "[]"]) (auto simp: below_def area_def)
  next
    case False
    then have "s5 = upd_map m (\<lambda>x. x\<lparr>vmm_list := insert_before sp v (vmm_list x)\<rparr>) ?s3" using s5 by simp
    moreover have "area_ptrs ?s3 m = pre @ v # post" using area_ptrs_cong [of ?s3 m s] s3(2) l by simp
    ultimately show ?thesis
      using s3 l m False new fresh insert_before_split [of v pre sp post] area_ptrs_map [of ?s3 m]
      by (intro exI [of _ "[sp]"]) (auto simp: below_def area_def)
  qed
qed

lemma remove_inside_effect:
  assumes r: "remove_inside n K X m lo hi v a s = Inr s'" and X: "pt_frame X" "obj_frame X" "area_fresh X"
    and m: "vmmaps s m \<noteq> None" and l: "area_ptrs s m = pre @ v # post" "distinct (pre @ v # post)"
    and live: "\<forall>w\<in>set (pre @ v # post). vmareas s w \<noteq> None"
    and a: "vmareas s v = Some a" "vma_vmmap a = Some m"
    and inside: "vma_start a \<le> lo" "hi \<le> vma_end a" "lo \<le> vma_end a" "vma_start a \<le> hi"
  shows "step_effect lo hi m pre v post s s'"
proof -
  from r obtain s5 s6 where s5: "split_below n K X m lo hi v a s = Inr s5"
    and s6: "drop_if_empty n K X m v s5 = Inr s6"
    and s': "unmap_pages X (PN_TO_ADDR K lo) (PN_TO_ADDR K hi) s6 = Inr s'"
    by (auto simp: remove_inside_def elim!: bindE_InrE)
  let ?B = "a\<lparr>vma_off := vma_off a + hi - vma_start a, vma_start := hi\<rparr>"
  obtain ins where i: "area_ptrs s5 m = (pre @ ins) @ v # post" "distinct ((pre @ ins) @ v # post)"
      "map (area s5) ins = below lo (a\<lparr>vma_olink := None\<rparr>)" "\<forall>w\<in>set ins. vmareas s5 w \<noteq> None \<and> vmareas s w = None" "area s5 v = ?B"
      "\<forall>w. w \<noteq> v \<and> vmareas s w \<noteq> None \<longrightarrow> vmareas s5 w = vmareas s w" "vmmaps s5 m \<noteq> None"
      "\<forall>m'. m' \<noteq> m \<longrightarrow> vmmaps s5 m' = vmmaps s m'" "curproc s5 = curproc s" "procs s5 = procs s"
    using split_below_effect [OF s5 X m l live a] by blast
  define tl where "tl = (if hi = vma_end a then [] else [v])"
  have s6': "area_ptrs s6 m = (pre @ ins) @ tl @ post" "tl \<noteq> [] \<longrightarrow> vmareas s6 v = Some ?B"
      "\<forall>w. w \<noteq> v \<longrightarrow> vmareas s6 w = vmareas s5 w" "vmmaps s6 m \<noteq> None" "\<forall>m'. m' \<noteq> m \<longrightarrow> vmmaps s6 m' = vmmaps s5 m'"
      "curproc s6 = curproc s5" "procs s6 = procs s5"
    using drop_if_empty_space [OF s6 X(1,2) i(7,1,2)] i(5) by (auto simp: tl_def)
  have "mem_rest s' = mem_rest s6" using unmap_pages_rest [OF s' X(1)] .
  note r6 = mem_restD [OF this]
  have nv: "v \<notin> set ins" using i(2) by auto
  then have "map (area s') ins = map (area s5) ins" using s6'(3) r6(7) by (auto simp: area_def)
  moreover have "map (area s') tl = above hi a" using s6'(2) r6(7) by (auto simp: area_def tl_def above_def)
  moreover have "cut1 lo hi (area s v) = below lo (a\<lparr>vma_olink := None\<rparr>) @ above hi a"
    using inside a by (auto simp: cut1_def area_def)
  ultimately have ar: "map (area s') (ins @ tl) = cut1 lo hi (area s v)" using i(3) by simp
  show ?thesis unfolding step_effect_def
  proof (intro conjI exI [of _ "ins @ tl"])
    show "area_ptrs s' m = pre @ (ins @ tl) @ post" using s6'(1) area_ptrs_cong [of s' m s6] r6(6) by simp
    show "distinct (pre @ (ins @ tl) @ post)" using i(2) by (auto simp: tl_def)
    show "\<forall>w\<in>set (ins @ tl). vmareas s' w \<noteq> None \<and> (w = v \<or> vmareas s w = None)"
      using s6'(2,3) i(4) nv r6(7) by (auto simp: tl_def split: if_splits)
    show "\<forall>w. w \<noteq> v \<and> vmareas s w \<noteq> None \<longrightarrow> vmareas s' w = vmareas s w" using s6'(3) i(2,6) r6(7) by auto
  qed (use ar s6' i r6 in auto)
qed

lemma drop_step_effect:
  assumes d: "drop_if_empty n K X m v (upd_area v f s) = Inr s'" and X: "pt_frame X" "obj_frame X"
    and m: "vmmaps s m \<noteq> None" and l: "area_ptrs s m = pre @ v # post" "distinct (pre @ v # post)"
    and a: "vmareas s v = Some a"
    and c: "cut1 lo hi a = (if vma_start (f a) = vma_end (f a) then [] else [f a])"
  shows "step_effect lo hi m pre v post s s'"
proof -
  let ?s = "upd_area v f s"
  have av: "area ?s v = f a" "area s v = a" using a by (simp_all add: area_def)
  define new where "new = (if vma_start (f a) = vma_end (f a) then [] else [v])"
  have m1: "vmmaps ?s m \<noteq> None" and l1: "area_ptrs ?s m = pre @ v # post"
    using m l area_ptrs_cong [of ?s m s] by simp_all
  from drop_if_empty_space [OF d X m1 l1 l(2)] av(1)
  have e: "area_ptrs s' m = pre @ new @ post" "new \<noteq> [] \<longrightarrow> vmareas s' v = Some (f a)"
    "\<forall>w. w \<noteq> v \<longrightarrow> vmareas s' w = vmareas s w" "vmmaps s' m \<noteq> None" "\<forall>m'. m' \<noteq> m \<longrightarrow> vmmaps s' m' = vmmaps s m'"
    "curproc s' = curproc s" "procs s' = procs s"
    by (simp_all add: new_def split: if_splits)
  have "map (area s') new = cut1 lo hi (area s v)" using e(2) c av by (auto simp: new_def area_def)
  moreover have "distinct (pre @ new @ post)" using l by (auto simp: new_def)
  moreover have "\<forall>w\<in>set new. vmareas s' w \<noteq> None \<and> (w = v \<or> vmareas s w = None)" using e(2) by (auto simp: new_def split: if_splits)
  moreover have "\<forall>w. w \<noteq> v \<and> vmareas s w \<noteq> None \<longrightarrow> vmareas s' w = vmareas s w" using e(3) l(2) by auto
  ultimately show ?thesis unfolding step_effect_def using e by blast
qed

lemma drop_whole_effect:
  assumes d: "drop_area n K X m v s = Inr s1" and u: "unmap_pages X lo' hi' s1 = Inr s'" and X: "pt_frame X" "obj_frame X"
    and m: "vmmaps s m \<noteq> None" and l: "area_ptrs s m = pre @ v # post" "distinct (pre @ v # post)"
    and c: "cut1 lo hi (area s v) = []"
  shows "step_effect lo hi m pre v post s s'"
proof -
  note e = drop_area_space [OF d X]
  note r = mem_restD [OF unmap_pages_rest [OF u X(1)]]
  have "area_ptrs s' m = remove1 v (area_ptrs s m)" using e r(6) m by (auto simp: area_ptrs_def)
  then have "area_ptrs s' m = pre @ [] @ post" using l by (simp add: remove1_append)
  then show ?thesis unfolding step_effect_def using e r l c m by (intro conjI exI [of _ "[]"]) auto
qed

lemma remove_step_effect:
  assumes r: "remove_step n K X m lo hi v s = Inr (stop, s')" and X: "pt_frame X" "obj_frame X" "area_fresh X"
    and m: "vmmaps s m \<noteq> None" and l: "area_ptrs s m = pre @ v # post" "distinct (pre @ v # post)"
    and live: "\<forall>w\<in>set (pre @ v # post). vmareas s w \<noteq> None"
    and a: "vmareas s v = Some a" "vma_vmmap a = Some m" "vma_start a < vma_end a" and lh: "lo \<le> hi"
  shows "step_effect lo hi m pre v post s s' \<and> (stop \<longrightarrow> hi \<le> vma_end a)"
proof -
  have av: "area s v = a" using a by (simp add: area_def)
  let ?no = "lo > vma_end a \<or> hi < vma_start a"
  consider (none) "?no" "s' = s" "\<not> stop"
    | (inside) "\<not> ?no" "lo \<ge> vma_start a" "hi \<le> vma_end a" "remove_inside n K X m lo hi v a s = Inr s'"
    | (upper) "\<not> ?no" "vma_end a < hi" "vma_start a \<le> lo" "\<not> stop"
        "drop_if_empty n K X m v (upd_area v (\<lambda>x. x\<lparr>vma_end := lo\<rparr>) s) = Inr s'"
    | (lower) "\<not> ?no" "lo < vma_start a" "hi \<le> vma_end a" "\<not> stop"
        "drop_if_empty n K X m v
           (upd_area v (\<lambda>x. x\<lparr>vma_off := vma_off x + hi - vma_start x, vma_start := hi\<rparr>) s) = Inr s'"
    | (whole) s1 where "\<not> ?no" "lo < vma_start a" "hi > vma_end a" "\<not> stop" "drop_area n K X m v s = Inr s1"
        "unmap_pages X (PN_TO_ADDR K (vma_start a)) (PN_TO_ADDR K (vma_end a)) s1 = Inr s'"
    using r a(1) by (auto simp: remove_step_def Let_def elim!: bindE_InrE split: if_splits)
  then show ?thesis
  proof cases
    case none
    then have "cut1 lo hi (area s v) = [a]" using cut1_id av by simp
    then have "step_effect lo hi m pre v post s s'"
      unfolding step_effect_def none(2) using l m live a av by (intro conjI exI [of _ "[v]"]) auto
    with none(3) show ?thesis by simp
  next
    case inside
    then show ?thesis using remove_inside_effect [OF inside(4) X m l live a(1,2)] by (simp add: not_less)
  next
    case upper
    have "cut1 lo hi a = (if vma_start a = lo then [] else [a\<lparr>vma_end := lo\<rparr>])"
      using upper by (auto simp: cut1_def below_def)
    with drop_step_effect [OF upper(5) X(1,2) m l a(1)] upper(4) show ?thesis by simp
  next
    case lower
    have "cut1 lo hi a = (if hi = vma_end a then [] else
        [a\<lparr>vma_off := vma_off a + hi - vma_start a, vma_start := hi\<rparr>])"
      using lower by (auto simp: cut1_def above_def)
    with drop_step_effect [OF lower(5) X(1,2) m l a(1)] lower(4) show ?thesis by simp
  next
    case whole
    have "cut1 lo hi (area s v) = []" using whole lh av by (auto simp: cut1_def)
    with drop_whole_effect [OF whole(5,6) X(1,2) m l] whole(4) show ?thesis by simp
  qed
qed

lemma cut1_vmmap: "b \<in> set (cut1 lo hi a) \<Longrightarrow> vma_vmmap b = vma_vmmap a"
  by (auto simp: cut1_def below_def above_def split: if_splits)

lemma cut1_adjacent:
  assumes "lo \<le> hi" "hi \<le> vma_start a" "vma_start a < vma_end a"
  shows "cut1 lo hi a = [a]"
proof (cases "hi = vma_start a")
  case True
  then have "above hi a = [a]" using assms by (cases a) (simp add: above_def)
  then show ?thesis using assms True by (auto simp: cut1_def below_def)
next
  case False
  then show ?thesis using assms by (intro cut1_id) auto
qed

definition owned :: "kstate \<Rightarrow> ptr \<Rightarrow> ptr list \<Rightarrow> bool" where
  "owned s m vs \<longleftrightarrow> (\<forall>v\<in>set vs. vmareas s v \<noteq> None \<and> vma_vmmap (area s v) = Some m)"

lemma remove_loop_effect:
  assumes X: "pt_frame X" "obj_frame X" "area_fresh X" and lh: "lo \<le> hi"
  shows "remove_loop n K X m lo hi ps s = Inr s' \<Longrightarrow> vmmaps s m \<noteq> None \<Longrightarrow> area_ptrs s m = pre @ ps \<Longrightarrow>
    distinct (pre @ ps) \<Longrightarrow> owned s m (pre @ ps) \<Longrightarrow> wf_areas K (map (area s) ps) \<Longrightarrow>
    \<exists>qs. area_ptrs s' m = pre @ qs \<and> distinct (pre @ qs) \<and> owned s' m (pre @ qs) \<and>
      map (area s') (pre @ qs) = map (area s) pre @ cut lo hi (map (area s) ps) \<and>
      vmmaps s' m \<noteq> None \<and> (\<forall>m'. m' \<noteq> m \<longrightarrow> vmmaps s' m' = vmmaps s m') \<and>
      (\<forall>w. w \<notin> set (pre @ ps) \<and> vmareas s w \<noteq> None \<longrightarrow> vmareas s' w = vmareas s w)"
proof (induction ps arbitrary: pre s)
  case Nil
  then show ?case by (auto simp: cut_def)
next
  case (Cons v ps)
  from Cons.prems(1) obtain stop s1 where st: "remove_step n K X m lo hi v s = Inr (stop, s1)"
    and rest: "(if stop then Inr s1 else remove_loop n K X m lo hi ps s1) = Inr s'"
    by (auto elim!: bindE_InrE)
  obtain a where a: "vmareas s v = Some a" "vma_vmmap a = Some m" "area s v = a"
    using Cons.prems(5) by (auto simp: owned_def area_def)
  have wf: "wf_area K a" "\<forall>w\<in>set ps. vma_end a \<le> vma_start (area s w)" "wf_areas K (map (area s) ps)"
    using Cons.prems(6) a(3) by (auto simp: wf_areas_Cons)
  have live: "\<forall>w\<in>set (pre @ v # ps). vmareas s w \<noteq> None" using Cons.prems(5) by (simp add: owned_def)
  have eff: "step_effect lo hi m pre v ps s s1" and stop: "stop \<longrightarrow> hi \<le> vma_end a"
    using remove_step_effect [OF st X Cons.prems(2-4) live a(1,2) _ lh] wf(1) by (auto simp: wf_area_def)
  then obtain new where new: "area_ptrs s1 m = pre @ new @ ps" "distinct (pre @ new @ ps)"
      "map (area s1) new = cut1 lo hi a" "\<forall>w\<in>set new. vmareas s1 w \<noteq> None \<and> (w = v \<or> vmareas s w = None)"
      "\<forall>w. w \<noteq> v \<and> vmareas s w \<noteq> None \<longrightarrow> vmareas s1 w = vmareas s w" and vm: "vmmaps s1 m \<noteq> None"
      "\<forall>m'. m' \<noteq> m \<longrightarrow> vmmaps s1 m' = vmmaps s m'"
    unfolding step_effect_def a(3) by blast
  have keep: "vmareas s1 w = vmareas s w" if "w \<in> set (pre @ ps)" for w
    using that new(5) Cons.prems(4) live by auto
  then have same: "map (area s1) pre = map (area s) pre" "map (area s1) ps = map (area s) ps"
    by (auto simp: area_def)
  have "vma_vmmap (area s1 w) = Some m" if "w \<in> set new" for w
    using that new(3) cut1_vmmap [of "area s1 w" lo hi a] a(2) by (metis image_eqI list.set_map)
  then have own: "owned s1 m ((pre @ new) @ ps)"
    using new(4) keep Cons.prems(5) by (auto simp: owned_def area_def)
  show ?case
  proof (cases stop)
    case True
    have "cut1 lo hi (area s w) = [area s w]" if "w \<in> set ps" for w
      using that wf stop True lh by (intro cut1_adjacent) (auto simp: wf_areas_def wf_area_def)
    then have "cut lo hi (map (area s) ps) = map (area s) ps" by (induction ps) (auto simp: cut_def)
    then have "cut lo hi (map (area s) (v # ps)) = map (area s1) (new @ ps)"
      using new(3) same(2) a(3) by (simp add: cut_def)
    then show ?thesis using True rest new own vm same by (intro exI [of _ "new @ ps"]) auto
  next
    case False
    then have rl: "remove_loop n K X m lo hi ps s1 = Inr s'" using rest by simp
    have "\<exists>qs. area_ptrs s' m = (pre @ new) @ qs \<and> distinct ((pre @ new) @ qs) \<and> owned s' m ((pre @ new) @ qs) \<and>
      map (area s') ((pre @ new) @ qs) = map (area s1) (pre @ new) @ cut lo hi (map (area s1) ps) \<and>
      vmmaps s' m \<noteq> None \<and> (\<forall>m'. m' \<noteq> m \<longrightarrow> vmmaps s' m' = vmmaps s1 m') \<and>
      (\<forall>w. w \<notin> set ((pre @ new) @ ps) \<and> vmareas s1 w \<noteq> None \<longrightarrow> vmareas s' w = vmareas s1 w)"
      by (rule Cons.IH [OF rl vm(1)]) (use new own wf(3) in \<open>simp_all only: same(2) append_assoc\<close>)
    then obtain qs where "area_ptrs s' m = (pre @ new) @ qs" "distinct ((pre @ new) @ qs)" "owned s' m ((pre @ new) @ qs)"
        "map (area s') ((pre @ new) @ qs) = map (area s1) (pre @ new) @ cut lo hi (map (area s1) ps)"
        "vmmaps s' m \<noteq> None" "\<forall>m'. m' \<noteq> m \<longrightarrow> vmmaps s' m' = vmmaps s1 m'"
        and far: "\<forall>w. w \<notin> set ((pre @ new) @ ps) \<and> vmareas s1 w \<noteq> None \<longrightarrow> vmareas s' w = vmareas s1 w" by blast
    moreover have "vmareas s' w = vmareas s w" if "w \<notin> set (pre @ v # ps)" "vmareas s w \<noteq> None" for w
      using that far new(4,5) by auto
    ultimately show ?thesis using new(3) same vm a(3) by (intro exI [of _ "new @ qs"]) (auto simp: cut_def)
  qed
qed

lemma vmmap_remove_space:
  assumes ok: "space_ok K s m" and rm: "vmmap_remove n K X m lo np s = Inr (r, s')"
    and X: "pt_frame X" "obj_frame X" "area_fresh X" and lh: "lo \<le> lo + np"
  shows "r = 0 \<and> space_ok K s' m \<and> areas s' m = cut lo (lo + np) (areas s m) \<and>
    (\<forall>w. w \<notin> set (area_ptrs s m) \<and> vmareas s w \<noteq> None \<longrightarrow> vmareas s' w = vmareas s w)"
proof -
  have m: "vmmaps s m \<noteq> None" and d: "distinct (area_ptrs s m)" and o: "owned s m (area_ptrs s m)"
    and wf: "wf_areas K (areas s m)"
    using ok by (auto simp: space_ok_def owned_def)
  from rm m have "r = 0" and rl: "remove_loop n K X m lo (lo + np) (area_ptrs s m) s = Inr s'"
    by (auto simp: vmmap_remove_def area_ptrs_def elim!: bindE_InrE)
  obtain qs where q: "area_ptrs s' m = qs" "distinct qs" "owned s' m qs"
      "map (area s') qs = cut lo (lo + np) (areas s m)" "vmmaps s' m \<noteq> None"
      "\<forall>w. w \<notin> set (area_ptrs s m) \<and> vmareas s w \<noteq> None \<longrightarrow> vmareas s' w = vmareas s w"
    using remove_loop_effect [OF X lh rl m, of "[]"] d o wf by (auto simp: areas_def)
  then have ar: "areas s' m = cut lo (lo + np) (areas s m)" by (simp add: areas_def)
  then have "wf_areas K (areas s' m)" using wf_cut [OF lh wf] by simp
  then show ?thesis using \<open>r = 0\<close> ar q by (simp add: space_ok_def owned_def)
qed

end
