(* ===== verification/Address_Space.thy ===== *)
theory Address_Space
  imports Vmmap
begin

text \<open>
  What the operations of \<^verbatim>\<open>kernel/vm/vmmap.c\<close> mean for an address space
  seen as a map from virtual pages to pages of memory objects: lookup, the test
  for an empty range, the search for a gap, insertion, removal, mapping and
  cloning, each related to the functions of the theory \<^verbatim>\<open>Area_List\<close>.
\<close>

section \<open>Frames\<close>

lemma space_frame:
  assumes "vmmaps s' m = vmmaps s m" "\<forall>w\<in>set (area_ptrs s m). vmareas s' w = vmareas s w"
  shows "area_ptrs s' m = area_ptrs s m" "areas s' m = areas s m" "space_ok K s' m \<longleftrightarrow> space_ok K s m"
proof -
  show p: "area_ptrs s' m = area_ptrs s m" by (rule area_ptrs_cong [OF assms(1)])
  have a: "area s' w = area s w" if "w \<in> set (area_ptrs s m)" for w using that assms(2) by (simp add: area_def)
  then show as: "areas s' m = areas s m" by (simp add: areas_def p)
  show "space_ok K s' m \<longleftrightarrow> space_ok K s m" using assms a as p by (auto simp: space_ok_def)
qed

lemma disjoint_unmapped:
  assumes "wf_areas K as" "vma_start a < vma_end a"
    and "\<forall>vfn. vma_start a \<le> vfn \<and> vfn < vma_end a \<longrightarrow> mapped as vfn = None"
  shows "disjoint_from a as"
  using empty_iff_unmapped [OF assms(1,2)] assms(3) by (auto simp: disjoint_from_def)

section \<open>Cloning\<close>

text \<open>
  An allocator with room for \<open>N\<close> areas: it serves a request while fewer
  than \<open>N\<close> are in use.
\<close>

definition area_room :: "kext \<Rightarrow> nat \<Rightarrow> bool" where
  "area_room X N \<longleftrightarrow>
     (\<forall>s. finite (dom (vmareas s)) \<and> card (dom (vmareas s)) < N \<longrightarrow> vmarea_slab X s \<noteq> None)"

definition copy_area :: "ptr \<Rightarrow> vmarea \<Rightarrow> vmarea" where
  "copy_area c a = a\<lparr>vma_obj := None, vma_olink := None, vma_vmmap := Some c\<rparr>"

lemma place_tail:
  assumes "wf_areas K as" "vma_start new < vma_end new" "\<forall>a\<in>set as. vma_end a \<le> vma_start new"
  shows "place new as = as @ [new]"
  using assms
proof (induction as)
  case (Cons a as)
  then have "vma_start a < vma_end a" "vma_end a \<le> vma_start new" by (auto simp: wf_areas_Cons wf_area_def)
  then have "\<not> vma_end new \<le> vma_start a" using Cons.prems(2) by (auto dest: order_less_le_trans order_le_less_trans simp: not_le)
  with Cons show ?case by (auto simp: wf_areas_Cons)
qed simp

text \<open>One round of the loop: the copy of an area that lies above the copies made so far goes to the tail.\<close>

lemma clone_one:
  assumes X: "area_fresh X" "area_room X N" and ok: "space_ok K s c" and v: "vmareas s v = Some a" and wf: "wf_area K a"
    and above: "\<forall>b\<in>set (areas s c). vma_end b \<le> vma_start a"
    and room: "finite (dom (vmareas s))" "card (dom (vmareas s)) < N"
  shows "\<exists>w s'. clone_loop K X c (v # vs) s = clone_loop K X c vs s' \<and> space_ok K s' c \<and>
    vmareas s w = None \<and> vmareas s' = (vmareas s)(w \<mapsto> copy_area c a) \<and> areas s' c = areas s c @ [copy_area c a] \<and>
    (\<forall>m'. m' \<noteq> c \<longrightarrow> vmmaps s' m' = vmmaps s m') \<and> s' = s\<lparr>vmareas := vmareas s', vmmaps := vmmaps s'\<rparr>"
proof -
  obtain w where w: "vmarea_slab X s = Some w" "vmareas s w = None"
    using X room by (auto simp: area_room_def area_fresh_def)
  let ?new = "(copy_area c a)\<lparr>vma_vmmap := None\<rparr>"
  let ?s2 = "s\<lparr>vmareas := (vmareas s)(w \<mapsto> ?new)\<rparr>"
  have loop: "clone_loop K X c (v # vs) s = bindE (vmmap_insert K c w ?s2) (\<lambda>s3. clone_loop K X c vs s3)"
    using w v by (cases a) (simp add: vmarea_alloc_def upd_area_def blank_area_def copy_area_def)
  have keep: "\<forall>u\<in>set (area_ptrs s c). vmareas ?s2 u = vmareas s u" using w(2) ok by (auto simp: space_ok_def)
  have ok2: "space_ok K ?s2 c" and as2: "areas ?s2 c = areas s c"
    using space_frame [of ?s2 c s] keep ok by simp_all
  have wf2: "wf_area K ?new" "disjoint_from ?new (areas ?s2 c)"
    using wf above as2 by (auto simp: wf_area_def copy_area_def disjoint_from_def)
  obtain s' vs' where s': "vmmap_insert K c w ?s2 = Inr s'" "space_ok K s' c"
      "areas s' c = place (?new\<lparr>vma_vmmap := Some c\<rparr>) (areas s c)"
      "s' = upd_area w (\<lambda>x. x\<lparr>vma_vmmap := Some c\<rparr>) (upd_map c (\<lambda>x. x\<lparr>vmm_list := vs'\<rparr>) ?s2)"
    using vmmap_insert_space [OF ok2 _ _ wf2, of w] as2 by auto
  have "place (copy_area c a) (areas s c) = areas s c @ [copy_area c a]"
    by (rule place_tail [of K]) (use ok wf above in \<open>auto simp: space_ok_def copy_area_def wf_area_def\<close>)
  then have "areas s' c = areas s c @ [copy_area c a]" using s'(3) by (simp add: copy_area_def)
  moreover have "vmareas s' = (vmareas s)(w \<mapsto> copy_area c a)" using s'(4) by (simp add: copy_area_def)
  moreover have "s' = s\<lparr>vmareas := vmareas s', vmmaps := vmmaps s'\<rparr>" "\<forall>m'. m' \<noteq> c \<longrightarrow> vmmaps s' m' = vmmaps s m'"
    using s'(4) by (simp_all add: upd_area_def upd_map_def)
  moreover have "clone_loop K X c (v # vs) s = clone_loop K X c vs s'" unfolding loop s'(1) by simp
  ultimately show ?thesis using s'(2) w(2) by blast
qed

lemma clone_loop_copies:
  assumes X: "area_fresh X" "area_room X N"
  shows "space_ok K s c \<Longrightarrow> \<forall>v\<in>set vs. vmareas s v \<noteq> None \<Longrightarrow> wf_areas K (map (area s) vs) \<Longrightarrow>
    \<forall>b\<in>set (areas s c). \<forall>v\<in>set vs. vma_end b \<le> vma_start (area s v) \<Longrightarrow>
    finite (dom (vmareas s)) \<Longrightarrow> card (dom (vmareas s)) + length vs \<le> N \<Longrightarrow>
    \<exists>s'. clone_loop K X c vs s = Inr s' \<and> space_ok K s' c \<and>
      areas s' c = areas s c @ map (copy_area c \<circ> area s) vs \<and>
      (\<forall>u. vmareas s u \<noteq> None \<longrightarrow> vmareas s' u = vmareas s u) \<and>
      (\<forall>m'. m' \<noteq> c \<longrightarrow> vmmaps s' m' = vmmaps s m') \<and> s' = s\<lparr>vmareas := vmareas s', vmmaps := vmmaps s'\<rparr>"
proof (induction vs arbitrary: s)
  case (Cons v vs)
  from Cons.prems(2) obtain a where a: "vmareas s v = Some a" "area s v = a" by (auto simp: area_def)
  have wf: "wf_area K a" "\<forall>x\<in>set vs. vma_end a \<le> vma_start (area s x)" "wf_areas K (map (area s) vs)"
    using Cons.prems(3) a by (auto simp: wf_areas_Cons)
  obtain w s1 where s1: "clone_loop K X c (v # vs) s = clone_loop K X c vs s1" "space_ok K s1 c" "vmareas s w = None"
      "vmareas s1 = (vmareas s)(w \<mapsto> copy_area c a)" "areas s1 c = areas s c @ [copy_area c a]"
      "\<forall>m'. m' \<noteq> c \<longrightarrow> vmmaps s1 m' = vmmaps s m'" and fr: "s1 = s\<lparr>vmareas := vmareas s1, vmmaps := vmmaps s1\<rparr>"
    using clone_one [OF X Cons.prems(1) a(1) wf(1), of vs] Cons.prems(4-6) a(2) by auto
  have same: "area s1 x = area s x" "vmareas s1 x \<noteq> None" if "x \<in> set vs" for x
    using that s1(3,4) Cons.prems(2) by (auto simp: area_def)
  then have m: "map (area s1) vs = map (area s) vs" by simp
  have "\<exists>s'. clone_loop K X c vs s1 = Inr s' \<and> space_ok K s' c \<and> areas s' c = areas s1 c @ map (copy_area c \<circ> area s1) vs \<and>
      (\<forall>u. vmareas s1 u \<noteq> None \<longrightarrow> vmareas s' u = vmareas s1 u) \<and>
      (\<forall>m'. m' \<noteq> c \<longrightarrow> vmmaps s' m' = vmmaps s1 m') \<and> s' = s1\<lparr>vmareas := vmareas s', vmmaps := vmmaps s'\<rparr>"
  proof (rule Cons.IH [OF s1(2)])
    show "wf_areas K (map (area s1) vs)" unfolding m by (rule wf(3))
    show "\<forall>b\<in>set (areas s1 c). \<forall>v\<in>set vs. vma_end b \<le> vma_start (area s1 v)"
      using Cons.prems(4) s1(5) same wf(2) by (auto simp: copy_area_def)
    show "card (dom (vmareas s1)) + length vs \<le> N" using Cons.prems(5,6) s1(3,4) by (simp add: domIff)
    show "finite (dom (vmareas s1))" using Cons.prems(5) s1(4) by simp
  qed (use same in auto)
  then obtain s' where s': "clone_loop K X c vs s1 = Inr s'" "space_ok K s' c"
      "areas s' c = areas s1 c @ map (copy_area c \<circ> area s1) vs"
      "\<forall>u. vmareas s1 u \<noteq> None \<longrightarrow> vmareas s' u = vmareas s1 u" "\<forall>m'. m' \<noteq> c \<longrightarrow> vmmaps s' m' = vmmaps s1 m'"
      "s' = s1\<lparr>vmareas := vmareas s', vmmaps := vmmaps s'\<rparr>" by blast
  have "areas s' c = areas s c @ map (copy_area c \<circ> area s) (v # vs)" using s'(3) s1(5) same a by simp
  moreover have "vmareas s' u = vmareas s u" if "vmareas s u \<noteq> None" for u using that s'(4) s1(3,4) by auto
  moreover have "s' = s\<lparr>vmareas := vmareas s', vmmaps := vmmaps s'\<rparr>" by (subst s'(6), subst fr) simp
  ultimately show ?case using s1(1,6) s'(1,2,5) by auto
qed (auto)

lemma vmmap_clone_copies:
  assumes X: "area_fresh X" "area_room X N" and c: "vmmap_slab X s = Some c" "vmmaps s c = None"
    and ok: "space_ok K s m" and room: "finite (dom (vmareas s))" "card (dom (vmareas s)) + length (areas s m) \<le> N"
  shows "\<exists>s'. vmmap_clone K X m s = Inr (Some c, s') \<and> space_ok K s' c \<and>
    areas s' c = map (copy_area c) (areas s m) \<and> space_ok K s' m \<and> areas s' m = areas s m \<and>
    (\<forall>u. vmareas s u \<noteq> None \<longrightarrow> vmareas s' u = vmareas s u) \<and>
    (\<forall>m'. m' \<noteq> c \<longrightarrow> vmmaps s' m' = vmmaps s m') \<and> s' = s\<lparr>vmareas := vmareas s', vmmaps := vmmaps s'\<rparr>"
proof -
  let ?s1 = "s\<lparr>vmmaps := (vmmaps s)(c \<mapsto> \<lparr>vmm_list = [], vmm_proc = None\<rparr>)\<rparr>"
  have cm: "c \<noteq> m" using c ok by (auto simp: space_ok_def)
  have e: "area_ptrs ?s1 c = []" "areas ?s1 c = []" "space_ok K ?s1 c"
    by (simp_all add: area_ptrs_def areas_def space_ok_def)
  have ar: "area ?s1 = area s" by (rule ext) (simp add: area_def)
  have live: "\<forall>v\<in>set (area_ptrs s m). vmareas s v \<noteq> None" using ok by (simp add: space_ok_def)
  have "\<exists>s'. clone_loop K X c (area_ptrs s m) ?s1 = Inr s' \<and> space_ok K s' c \<and>
      areas s' c = areas ?s1 c @ map (copy_area c \<circ> area ?s1) (area_ptrs s m) \<and>
      (\<forall>u. vmareas ?s1 u \<noteq> None \<longrightarrow> vmareas s' u = vmareas ?s1 u) \<and>
      (\<forall>m'. m' \<noteq> c \<longrightarrow> vmmaps s' m' = vmmaps ?s1 m') \<and> s' = ?s1\<lparr>vmareas := vmareas s', vmmaps := vmmaps s'\<rparr>"
    by (rule clone_loop_copies [OF X e(3)])
      (use e live ok room ar in \<open>simp_all add: space_ok_def areas_def\<close>)
  then obtain s' where s': "clone_loop K X c (area_ptrs s m) ?s1 = Inr s'" "space_ok K s' c"
      "areas s' c = map (copy_area c) (areas s m)" "\<forall>u. vmareas s u \<noteq> None \<longrightarrow> vmareas s' u = vmareas s u"
      "\<forall>m'. m' \<noteq> c \<longrightarrow> vmmaps s' m' = vmmaps s m'" "s' = s\<lparr>vmareas := vmareas s', vmmaps := vmmaps s'\<rparr>"
    using e ar by (auto simp: areas_def)
  have "space_ok K s' m" "areas s' m = areas s m" using space_frame [of s' m s] s'(4,5) cm live ok by auto
  moreover obtain vm where "vmmaps s m = Some vm" "vmm_list vm = area_ptrs s m" using space_okD(4) [OF ok] by blast
  then have "vmmap_clone K X m s = Inr (Some c, s')" using c s'(1) by (simp add: vmmap_clone_def vmmap_create_def)
  ultimately show ?thesis using s' by blast
qed

section \<open>Mapping\<close>

lemma vmmap_find_range_gap:
  assumes ok: "space_ok K s m" and ne: "areas s m \<noteq> []"
  shows "vmmap_find_range K m np (VMMAP_DIR_HILO K) s =
    Inr (case gap K np (ADDR_TO_PN K (USER_MEM_HIGH K)) (rev (areas s m)) of Some w \<Rightarrow> sint w | None \<Rightarrow> - 1)"
proof -
  obtain vm where vm: "vmmaps s m = Some vm" "vmm_list vm = area_ptrs s m" using space_okD(4) [OF ok] by blast
  have "find_loop K s np (ADDR_TO_PN K (USER_MEM_HIGH K)) None (rev (area_ptrs s m)) =
      Inr (case gap K np (ADDR_TO_PN K (USER_MEM_HIGH K)) (map (area s) (rev (area_ptrs s m))) of Some w \<Rightarrow> sint w | None \<Rightarrow> - 1)"
    by (rule find_loop_gap) (use space_okD(3) [OF ok] ne in \<open>auto simp: areas_def\<close>)
  then show ?thesis using vm by (simp add: vmmap_find_range_def areas_def rev_map)
qed

lemma space_gap:
  assumes ok: "space_ok K s m" and ne: "areas s m \<noteq> []"
  shows "case gap K np (ADDR_TO_PN K (USER_MEM_HIGH K)) (rev (areas s m)) of
      Some w \<Rightarrow> free_range K (areas s m) (ADDR_TO_PN K (USER_MEM_HIGH K)) np w \<and>
        (\<forall>w'. free_range K (areas s m) (ADDR_TO_PN K (USER_MEM_HIGH K)) np w' \<longrightarrow> w' \<le> w)
    | None \<Rightarrow> (\<forall>w'. \<not> free_range K (areas s m) (ADDR_TO_PN K (USER_MEM_HIGH K)) np w')"
proof -
  have wf: "\<forall>a\<in>set (areas s m). wf_area K a" using space_okD(1) [OF ok] by (simp add: wf_areas_def)
  moreover obtain a where "a \<in> set (areas s m)" using ne by (cases "areas s m") auto
  ultimately have "ADDR_TO_PN K (USER_MEM_LOW K) \<le> ADDR_TO_PN K (USER_MEM_HIGH K)"
    by (auto simp: wf_area_def dest!: bspec)
  moreover have "free_range K (rev (areas s m)) = free_range K (areas s m)" by (intro ext) (simp add: free_range_def)
  ultimately show ?thesis
    using gap_highest [of K "rev (areas s m)" "ADDR_TO_PN K (USER_MEM_HIGH K)" np] wf space_okD(1) [OF ok]
    by (auto simp: wf_area_def split: option.splits)
qed

lemma free_range_unmapped:
  assumes "free_range K as uend n w" "0 < n"
  shows "w < w + n" "w + n \<le> uend" "\<forall>vfn. w \<le> vfn \<and> vfn < w + n \<longrightarrow> mapped as vfn = None"
proof -
  have "unat uend < 2 ^ 32" using unsigned_less [of uend] by simp
  then have u: "unat (w + n) = unat w + unat n"
    using assms(1) by (simp add: unat_word_ariths free_range_def)
  show "w < w + n" "w + n \<le> uend" using assms u by (auto simp: word_less_nat_alt word_le_nat_alt free_range_def)
  show "\<forall>vfn. w \<le> vfn \<and> vfn < w + n \<longrightarrow> mapped as vfn = None"
    using assms u unfolding mapped_None covers_def free_range_def by (force simp: word_less_nat_alt word_le_nat_alt)
qed

definition placed :: "kconsts \<Rightarrow> ptr \<Rightarrow> u32 \<Rightarrow> u32 \<Rightarrow> u32 \<Rightarrow> kstate \<Rightarrow> kstate \<Rightarrow> bool" where
  "placed K m lopage np lo s s' \<longleftrightarrow> space_ok K s' m \<and> lo < lo + np \<and>
     ADDR_TO_PN K (USER_MEM_LOW K) \<le> lo \<and> lo + np \<le> ADDR_TO_PN K (USER_MEM_HIGH K) \<and>
     (\<forall>vfn. mapped (areas s' m) vfn = (if lo \<le> vfn \<and> vfn < lo + np then None else mapped (areas s m) vfn)) \<and>
     (if lopage = 0 then s' = s else lo = lopage) \<and>
     (\<forall>w. w \<notin> set (area_ptrs s m) \<and> vmareas s w \<noteq> None \<longrightarrow> vmareas s' w = vmareas s w)"

lemma map_place_found:
  assumes ok: "space_ok K s m" and r: "map_place n K X m 0 np dir s = Inr (Inr lo, s')" and np: "0 < np"
  shows "placed K m 0 np lo s s'"
proof -
  have s': "s' = s" and dir: "dir = VMMAP_DIR_HILO K"
    and f: "\<exists>i. vmmap_find_range K m np dir s = Inr i \<and> 0 \<le> i \<and> lo = word_of_int i"
    using r by (auto simp: map_place_def vmmap_find_range_def elim!: bindE_InrE split: if_splits)
  have ne: "areas s m \<noteq> []"
    using f by (auto simp: vmmap_find_range_def areas_def area_ptrs_def bindE_deref split: if_splits)
  let ?g = "gap K np (ADDR_TO_PN K (USER_MEM_HIGH K)) (rev (areas s m))"
  have g: "?g = Some lo" using f vmmap_find_range_gap [OF ok ne, of np] dir by (auto split: option.splits)
  then have free: "free_range K (areas s m) (ADDR_TO_PN K (USER_MEM_HIGH K)) np lo"
    using space_gap [OF ok ne, of np] by simp
  then have "ADDR_TO_PN K (USER_MEM_LOW K) \<le> lo" by (simp add: free_range_def)
  with free_range_unmapped [OF free np] ok s' show ?thesis by (simp add: placed_def)
qed

lemma map_place_fixed:
  assumes ok: "space_ok K s m" and r: "map_place n K X m lopage np dir s = Inr (Inr lo, s')" and "lopage \<noteq> 0"
    and X: "pt_frame X" "obj_frame X" "area_fresh X"
  shows "placed K m lopage np lo s s'"
proof -
  let ?hi = "lopage + np"
  obtain vm where vm: "vmmaps s m = Some vm" "vmm_list vm = area_ptrs s m" using space_okD(4) [OF ok] by blast
  obtain e where e: "vmmap_is_range_empty K m lopage np s = Inr e" "lo = lopage"
      "if e then s' = s else \<exists>i. vmmap_remove n K X m lopage np s = Inr (i, s')"
    using r assms(3) by (auto simp: map_place_def elim!: bindE_InrE split: if_splits)
  then have b: "lopage < ?hi" "ADDR_TO_PN K (USER_MEM_LOW K) \<le> lopage" "?hi \<le> ADDR_TO_PN K (USER_MEM_HIGH K)"
    and el: "empty_loop s lopage ?hi (area_ptrs s m) = Inr e"
    using vm by (auto simp: vmmap_is_range_empty_def Let_def split: if_splits)
  have "e = (\<forall>vfn. lopage \<le> vfn \<and> vfn < ?hi \<longrightarrow> mapped (areas s m) vfn = None)"
    using empty_loop_eq [of "area_ptrs s m" s K lopage ?hi] el b(1) space_okD(1,3) [OF ok]
      empty_iff_unmapped [OF space_okD(1) [OF ok] b(1)]
    by (simp add: areas_def)
  moreover have "space_ok K s' m \<and> (areas s' m = cut lopage ?hi (areas s m)) \<and>
      (\<forall>w. w \<notin> set (area_ptrs s m) \<and> vmareas s w \<noteq> None \<longrightarrow> vmareas s' w = vmareas s w)" if "\<not> e"
    using that e(3) vmmap_remove_space [OF ok _ X, of n lopage np _ s'] b(1) by auto
  ultimately show ?thesis
    using e b ok mapped_cut [OF _ space_okD(1) [OF ok], of lopage ?hi] assms(3)
    by (cases e) (auto simp: placed_def)
qed

text \<open>
  The slab allocators of the memory objects give objects that are not in use,
  and a file's \<^verbatim>\<open>mmap\<close> operation changes no address space.
\<close>

definition obj_fresh :: "kext \<Rightarrow> bool" where
  "obj_fresh X \<longleftrightarrow> (\<forall>s obj. anon_slab X s = Some obj \<or> shadow_slab X s = Some obj \<longrightarrow> mmobjs s obj = None)"

definition vn_frame :: "kext \<Rightarrow> bool" where
  "vn_frame X \<longleftrightarrow> (\<forall>f v s i obj s'. vn_mmap X f v s = Inr (i, obj, s') \<longrightarrow> mem_rest s' = mem_rest s)"

lemma map_object_areas:
  assumes r: "map_object X file v s = Inr s'" and X: "vn_frame X"
  shows "\<exists>obj b. vmareas s' = (vmareas s)(v := map_option (\<lambda>x. x\<lparr>vma_obj := Some obj, vma_olink := Some b\<rparr>) (vmareas s v)) \<and>
    vmmaps s' = vmmaps s"
proof -
  from r obtain obj s1 b where "mem_rest s1 = mem_rest s"
    and s': "s' = upd_obj b (\<lambda>x. x\<lparr>mmo_vmas := mmo_vmas x @ [v]\<rparr>)
             (upd_area v (\<lambda>x. x\<lparr>vma_obj := Some obj, vma_olink := Some b\<rparr>) s1)"
  proof (cases "file")
    case None
    then obtain obj b y where "s' = upd_obj b (\<lambda>x. x\<lparr>mmo_vmas := mmo_vmas x @ [v]\<rparr>)
             (upd_area v (\<lambda>x. x\<lparr>vma_obj := Some obj, vma_olink := Some b\<rparr>) (s\<lparr>mmobjs := y\<rparr>))"
      using r by (auto simp: map_object_def anon_create_def bindE_deref elim!: bindE_InrE)
    then show ?thesis by (rule that [OF mem_rest_upd(1)])
  next
    case (Some f)
    then obtain i obj s1 b where "vn_mmap X f v s = Inr (i, Some obj, s1)"
      "s' = upd_obj b (\<lambda>x. x\<lparr>mmo_vmas := mmo_vmas x @ [v]\<rparr>)
             (upd_area v (\<lambda>x. x\<lparr>vma_obj := Some obj, vma_olink := Some b\<rparr>) s1)"
      using r by (auto simp: map_object_def bindE_deref elim!: bindE_InrE)
    then show ?thesis using that X unfolding vn_frame_def by blast
  qed
  note f = mem_restD(6,7) [OF this(1)]
  show ?thesis using f by (intro exI [of _ obj] exI [of _ b]) (simp add: s')
qed

text \<open>Without a file the object is a new anonymous object without pages.\<close>

definition anon_over :: "kstate \<Rightarrow> kstate \<Rightarrow> ptr \<Rightarrow> bool" where
  "anon_over s s' obj \<longleftrightarrow> mmobjs s obj = None \<and>
     (\<exists>ob. mmobjs s' obj = Some ob \<and> mmo_ops ob = Anon_ops \<and> mmo_respages ob = [] \<and> mmo_nrespages ob = 0 \<and>
        mmo_refcount ob = 1 \<and> mmo_shadowed ob = None)"

lemma map_object_anon:
  assumes r: "map_object X None v s = Inr s'" and X: "obj_fresh X" "init_ok X" "bottom_ok X" and v: "vmareas s v = Some a"
  shows "\<exists>obj. vmareas s' = (vmareas s)(v \<mapsto> a\<lparr>vma_obj := Some obj, vma_olink := Some obj\<rparr>) \<and>
    vmmaps s' = vmmaps s \<and> anon_over s s' obj"
proof -
  from r obtain obj where o: "anon_slab X s = Some obj" by (auto simp: map_object_def anon_create_def bindE_deref elim!: bindE_InrE)
  let ?ob = "(mmobj_init X Anon_ops)\<lparr>mmo_refcount := 1, mmo_nrespages := 0\<rparr>"
  let ?s1 = "s\<lparr>mmobjs := (mmobjs s)(obj \<mapsto> ?ob)\<rparr>"
  have "mmobj_bottom_obj X ?s1 obj = Inr obj" using X by (simp add: bottom_ok_def bottom_of_def init_ok_def)
  then have "s' = upd_obj obj (\<lambda>x. x\<lparr>mmo_vmas := mmo_vmas x @ [v]\<rparr>)
      (upd_area v (\<lambda>x. x\<lparr>vma_obj := Some obj, vma_olink := Some obj\<rparr>) ?s1)"
    using r o by (simp add: map_object_def anon_create_def)
  then show ?thesis using o X v by (intro exI [of _ obj]) (auto simp: anon_over_def obj_fresh_def init_ok_def)
qed

lemma map_shadow_over:
  assumes r: "map_shadow X v s = Inr s'" and X: "obj_fresh X" "init_ok X" "bottom_ok X"
    and v: "vmareas s v = Some a" "vma_obj a = Some obj" and ob: "mmobjs s obj = Some ob" "mmo_shadowed ob = None"
  shows "\<exists>sh. vmareas s' = (vmareas s)(v \<mapsto> a\<lparr>vma_obj := Some sh\<rparr>) \<and> vmmaps s' = vmmaps s \<and> mmobjs s sh = None \<and>
    (\<exists>x. mmobjs s' = (mmobjs s)(sh \<mapsto> x) \<and> mmo_ops x = Shadow_ops \<and> mmo_respages x = [] \<and>
       mmo_shadowed x = Some obj \<and> mmo_bottom x = Some obj)"
proof -
  from r v obtain sh where sh: "shadow_slab X s = Some sh"
    by (auto simp: map_shadow_def shadow_create_def bindE_deref elim!: bindE_InrE)
  then have new: "mmobjs s sh = None" "sh \<noteq> obj" using X(1) ob by (auto simp: obj_fresh_def)
  let ?s1 = "s\<lparr>mmobjs := (mmobjs s)(sh \<mapsto> (mmobj_init X Shadow_ops)\<lparr>mmo_refcount := 1\<rparr>)\<rparr>"
  have "mmobj_bottom_obj X ?s1 obj = Inr obj" using X(3) ob new by (simp add: bottom_ok_def bottom_of_def)
  then have "s' = upd_area v (\<lambda>x. x\<lparr>vma_obj := Some sh\<rparr>)
             (upd_obj sh (\<lambda>x. x\<lparr>mmo_shadowed := Some obj, mmo_bottom := Some obj\<rparr>) ?s1)"
    using r v sh by (simp add: map_shadow_def shadow_create_def)
  then show ?thesis using new v X by (intro exI [of _ sh]) (auto simp: init_ok_def)
qed

lemma map_shadow_areas:
  assumes "map_shadow X v s = Inr s'"
  shows "\<exists>sh. vmareas s' = (vmareas s)(v := map_option (\<lambda>x. x\<lparr>vma_obj := Some sh\<rparr>) (vmareas s v)) \<and> vmmaps s' = vmmaps s"
  using assms by (auto simp: map_shadow_def shadow_create_def bindE_deref elim!: bindE_InrE)

text \<open>
  The objects behind a new anonymous mapping: an anonymous object, below a
  shadow object when the mapping is private, none of them with a page.
\<close>

definition zero_backed :: "kstate \<Rightarrow> bool \<Rightarrow> ptr option \<Rightarrow> bool" where
  "zero_backed s priv obj \<longleftrightarrow>
     (\<exists>os. chain s os \<and> obj = Some (hd os) \<and> length os = (if priv then 2 else 1) \<and>
        (\<forall>o'\<in>set os. \<exists>ob. mmobjs s o' = Some ob \<and> mmo_respages ob = [] \<and> (o' = last os \<longrightarrow> mmo_ops ob = Anon_ops)))"

lemma map_backing:
  assumes r: "map_object X None v s = Inr s3" "(if priv then map_shadow X v s3 else Inr s3) = Inr s4"
    and X: "obj_fresh X" "init_ok X" "bottom_ok X" and v: "vmareas s v = Some a0"
  shows "\<exists>a. vmareas s4 v = Some a \<and> zero_backed s4 priv (vma_obj a)"
proof -
  obtain obj ob where o3: "vmareas s3 = (vmareas s)(v \<mapsto> a0\<lparr>vma_obj := Some obj, vma_olink := Some obj\<rparr>)"
      "mmobjs s3 obj = Some ob" "mmo_ops ob = Anon_ops" "mmo_respages ob = []" "mmo_shadowed ob = None"
    using map_object_anon [OF r(1) X v] by (auto simp: anon_over_def)
  show ?thesis
  proof (cases priv)
    case False
    then have "zero_backed s4 priv (Some obj)"
      unfolding zero_backed_def using r(2) o3 by (intro exI [of _ "[obj]"]) simp
    then show ?thesis using o3 r(2) False by simp
  next
    case True
    obtain sh x where sh: "\<exists>a. vmareas s4 v = Some a \<and> vma_obj a = Some sh" "mmobjs s3 sh = None"
        "mmobjs s4 = (mmobjs s3)(sh \<mapsto> x)" "mmo_ops x = Shadow_ops" "mmo_respages x = []" "mmo_shadowed x = Some obj"
        "mmo_bottom x = Some obj"
      using map_shadow_over [of X v s3 s4 "a0\<lparr>vma_obj := Some obj, vma_olink := Some obj\<rparr>" obj ob] r(2) True X o3 by fastforce
    then have "zero_backed s4 priv (Some sh)"
      unfolding zero_backed_def using o3 True by (intro exI [of _ "[sh, obj]"]) auto
    then show ?thesis using sh(1) by auto
  qed
qed

text \<open>The parts of a call that returns 0, up to the insertion of the area.\<close>

lemma vmmap_map_parts:
  assumes "vmmap_map n K X (Some m) file lopage np prot flags off dir s = Inr (0, Some v, s')"
  obtains s1 lo s3 s4 where "vmarea_slab X s = Some v"
    "map_place n K X m lopage np dir (s\<lparr>vmareas := (vmareas s)(v \<mapsto> blank_area)\<rparr>) = Inr (Inr lo, s1)" "0 < np"
    "map_object X file v (upd_area v (\<lambda>x. x\<lparr>vma_start := lo, vma_end := lo + np, vma_off := ADDR_TO_PN K off,
       vma_prot := prot, vma_flags := flags, vma_olink := None\<rparr>) s1) = Inr s3"
    "(if flags AND MAP_PRIVATE K = MAP_PRIVATE K then map_shadow X v s3 else Inr s3) = Inr s4"
    "vmmap_insert K m v s4 = Inr s'"
  using assms
  by (auto simp: vmmap_map_def vmarea_alloc_def Let_def bindE_deref elim!: bindE_InrE
      split: if_splits option.splits sum.splits)

definition new_area :: "kconsts \<Rightarrow> u32 \<Rightarrow> u32 \<Rightarrow> u32 \<Rightarrow> u32 \<Rightarrow> u32 \<Rightarrow> vmarea \<Rightarrow> bool" where
  "new_area K lo np off prot flags a \<longleftrightarrow> vma_start a = lo \<and> vma_end a = lo + np \<and> vma_off a = ADDR_TO_PN K off \<and>
     vma_prot a = prot \<and> vma_flags a = flags"

lemma vmmap_map_space:
  assumes ok: "space_ok K s m" and X: "pt_frame X" "obj_frame X" "area_fresh X" "vn_frame X"
    and r: "vmmap_map n K X (Some m) file lopage np prot flags off dir s = Inr (0, Some v, s')"
  shows "\<exists>lo a. space_ok K s' m \<and> lo < lo + np \<and> (lopage \<noteq> 0 \<longrightarrow> lo = lopage) \<and>
    (lopage = 0 \<longrightarrow> (\<forall>vfn. lo \<le> vfn \<and> vfn < lo + np \<longrightarrow> mapped (areas s m) vfn = None)) \<and>
    vmareas s' v = Some a \<and> new_area K lo np off prot flags a \<and> v \<in> set (area_ptrs s' m) \<and>
    (\<forall>vfn. mapped (areas s' m) vfn = (if lo \<le> vfn \<and> vfn < lo + np then Some (page_map vfn a) else mapped (areas s m) vfn)) \<and>
    (file = None \<and> obj_fresh X \<and> init_ok X \<and> bottom_ok X \<longrightarrow>
       zero_backed s' (flags AND MAP_PRIVATE K = MAP_PRIVATE K) (vma_obj a))"
proof (rule vmmap_map_parts [OF r])
  fix s1 lo s3 s4
  let ?s0 = "s\<lparr>vmareas := (vmareas s)(v \<mapsto> blank_area)\<rparr>"
  let ?s2 = "upd_area v (\<lambda>x. x\<lparr>vma_start := lo, vma_end := lo + np, vma_off := ADDR_TO_PN K off, vma_prot := prot,
       vma_flags := flags, vma_olink := None\<rparr>) s1"
  assume v: "vmarea_slab X s = Some v" and pl: "map_place n K X m lopage np dir ?s0 = Inr (Inr lo, s1)" and np: "0 < np"
    and s3: "map_object X file v ?s2 = Inr s3"
    and s4: "(if flags AND MAP_PRIVATE K = MAP_PRIVATE K then map_shadow X v s3 else Inr s3) = Inr s4"
    and s5: "vmmap_insert K m v s4 = Inr s'"
  have fresh: "vmareas s v = None" using v X(3) by (simp add: area_fresh_def)
  then have nv: "v \<notin> set (area_ptrs s m)" using ok by (auto simp: space_ok_def)
  then have f0: "area_ptrs ?s0 m = area_ptrs s m" "areas ?s0 m = areas s m" "space_ok K ?s0 m"
    using space_frame [of ?s0 m s] ok by auto
  have p: "placed K m lopage np lo ?s0 s1"
    using map_place_found [OF f0(3) _ np] map_place_fixed [OF f0(3) pl _ X(1-3)] pl by (cases "lopage = 0") auto
  then have v1: "vmareas s1 v = Some blank_area" and ok1: "space_ok K s1 m" using nv f0(1) by (auto simp: placed_def)
  then have nv1: "v \<notin> set (area_ptrs s1 m)" by (auto simp: space_ok_def area_def blank_area_def)
  obtain obj b where m3: "vmmaps s3 = vmmaps s1" "vmareas s3 = (vmareas ?s2)(v :=
      map_option (\<lambda>x. x\<lparr>vma_obj := Some obj, vma_olink := Some b\<rparr>) (vmareas ?s2 v))"
    using map_object_areas [OF s3 X(4)] by auto
  obtain a where a: "vmmaps s4 = vmmaps s1" "vmareas s4 = (vmareas s1)(v \<mapsto> a)" "new_area K lo np off prot flags a"
      "vma_vmmap a = None"
    using s4 m3 v1 map_shadow_areas [of X v s3 s4]
    by (fastforce simp: new_area_def blank_area_def split: if_splits)
  have f4: "areas s4 m = areas s1 m" "space_ok K s4 m" using space_frame [of s4 m s1] a(1,2) nv1 ok1 by auto
  have wf: "wf_area K a" using p a(3) by (auto simp: wf_area_def new_area_def placed_def)
  have dj: "disjoint_from a (areas s4 m)"
    by (rule disjoint_unmapped [OF space_okD(1) [OF f4(2)]]) (use p a(3) f4(1) in \<open>auto simp: new_area_def placed_def\<close>)
  obtain vs where s': "space_ok K s' m" "v \<in> set (area_ptrs s' m)"
      "s' = upd_area v (\<lambda>x. x\<lparr>vma_vmmap := Some m\<rparr>) (upd_map m (\<lambda>x. x\<lparr>vmm_list := vs\<rparr>) s4)"
      "areas s' m = place (a\<lparr>vma_vmmap := Some m\<rparr>) (areas s4 m)"
      "\<forall>vfn. mapped (areas s' m) vfn = (if covers vfn a then Some (page_map vfn a) else mapped (areas s4 m) vfn)"
    using vmmap_insert_space [OF f4(2) _ a(4) wf dj, of v] s5 a(2) by auto
  have "vmareas s' v = Some (a\<lparr>vma_vmmap := Some m\<rparr>)" using s'(3) a(2) by simp
  moreover have "new_area K lo np off prot flags (a\<lparr>vma_vmmap := Some m\<rparr>)" using a(3) by (simp add: new_area_def)
  moreover have "mapped (areas s' m) vfn = (if lo \<le> vfn \<and> vfn < lo + np
      then Some (page_map vfn (a\<lparr>vma_vmmap := Some m\<rparr>)) else mapped (areas s m) vfn)" for vfn
    using s'(5) f4(1) p a(3) f0(2) by (simp add: covers_def new_area_def placed_def page_map_def)
  moreover have "\<forall>vfn. lo \<le> vfn \<and> vfn < lo + np \<longrightarrow> mapped (areas s m) vfn = None" if "lopage = 0"
    using p that f0(2) unfolding placed_def by (metis)
  moreover have "zero_backed s' (flags AND MAP_PRIVATE K = MAP_PRIVATE K) (vma_obj a)"
    if "file = None" "obj_fresh X" "init_ok X" "bottom_ok X"
  proof -
    have "zero_backed s4 (flags AND MAP_PRIVATE K = MAP_PRIVATE K) (vma_obj a)"
      using map_backing [OF s3 [unfolded that(1)] s4 that(2-4)] v1 a(2) by auto
    moreover have "mmobjs s' = mmobjs s4" using s'(3) by simp
    ultimately show ?thesis using chain_shape [OF shape_cong [of s' s4]] by (simp add: zero_backed_def)
  qed
  ultimately show ?thesis using s'(1,2) p
    by (intro exI [of _ lo] exI [of _ "a\<lparr>vma_vmmap := Some m\<rparr>"]) (auto simp: placed_def)
qed

section \<open>An example\<close>

text \<open>Address space 4 with areas 11 and 12 over the two shadow objects of the theory \<^verbatim>\<open>Pager\<close>.\<close>

definition demo_area :: "u32 \<Rightarrow> u32 \<Rightarrow> ptr \<Rightarrow> vmarea" where
  "demo_area lo hi obj = \<lparr>vma_start = lo, vma_end = hi, vma_off = 0, vma_prot = 3, vma_flags = 2,
     vma_vmmap = Some 4, vma_obj = Some obj, vma_olink = None\<rparr>"

definition demo_proc :: proc where
  "demo_proc = \<lparr>p_pid = 1, p_comm = ''init'', p_threads = [4], p_children = [], p_pproc = None, p_status = 0,
     p_state = PROC_RUNNING, p_pagedir = Some 4, p_files = replicate 32 None, p_cwd = None, p_brk = 0,
     p_start_brk = 0, p_vmmap = Some 4\<rparr>"

definition demo_space :: kstate where
  "demo_space = two_shadows\<lparr>curproc := Some 4, vmmaps := [4 \<mapsto> \<lparr>vmm_list = [11, 12], vmm_proc = Some 4\<rparr>],
     vmareas := [11 \<mapsto> demo_area 0x500 0x510 2, 12 \<mapsto> demo_area 0x600 0x620 3], procs := [4 \<mapsto> demo_proc]\<rparr>"

lemmas demo_space_defs = demo_space_def two_shadows_defs demo_area_def demo_proc_def

lemma demo_space_areas:
  "area_ptrs demo_space 4 = [11, 12]" "areas demo_space 4 = [demo_area 0x500 0x510 2, demo_area 0x600 0x620 3]"
  by (simp_all add: area_ptrs_def areas_def area_def demo_space_def)

lemma demo_space_ok: "space_ok i386 demo_space 4"
  by (simp add: space_ok_def demo_space_areas wf_areas_def wf_area_def)
    (simp add: area_def demo_space_def demo_area_def i386_def)

lemma demo_frames: "obj_frame demo_ext" "vn_frame demo_ext" "area_fresh demo_ext" "obj_fresh demo_ext" "init_ok demo_ext"
  by (auto simp: obj_frame_def vn_frame_def area_fresh_def obj_fresh_def init_ok_def demo_ext_def demo_init_def
      dest: free_cell_free)

lemma demo_area_room: "area_room demo_ext 10"
  unfolding area_room_def demo_ext_def using free_cell_full by fastforce

section \<open>Properties\<close>

text \<open>C25: looking up a page of a well-formed address space finds the area that maps it.  The result is the
  area of the address space that covers the page, which is then the only one, and null exactly when no
  area maps the page.\<close>

theorem vmmap_lookup_finds:
  assumes "space_ok K s m"
  shows "\<exists>r. vmmap_lookup (Some m) vfn s = Inr r \<and>
    mapped (areas s m) vfn = map_option (\<lambda>v. page_map vfn (area s v)) r \<and>
    (\<forall>v\<in>set (area_ptrs s m). covers vfn (area s v) \<longleftrightarrow> r = Some v)"
proof -
  let ?r = "List.find (\<lambda>v. covers vfn (area s v)) (area_ptrs s m)"
  have "?r = Some v" if v: "v \<in> set (area_ptrs s m)" "covers vfn (area s v)" for v
  proof -
    obtain w where w: "?r = Some w" "w \<in> set (area_ptrs s m)" "covers vfn (area s w)"
      using v by (cases ?r) (auto simp: find_None_iff find_Some_iff)
    have d: "distinct (area_ptrs s m)" using assms by (simp add: space_ok_def)
    have "w = v"
    proof (rule ccontr)
      assume "w \<noteq> v"
      then obtain i j where "i < length (area_ptrs s m)" "j < length (area_ptrs s m)" "i \<noteq> j"
          "area_ptrs s m ! i = w" "area_ptrs s m ! j = v"
        using v(1) w(2) by (metis in_set_conv_nth)
      then have "vma_end (area s w) \<le> vma_start (area s v) \<or> vma_end (area s v) \<le> vma_start (area s w)"
        using space_okD(1) [OF assms] unfolding wf_areas_def areas_def sorted_wrt_iff_nth_less
        by (auto simp: nat_neq_iff)
      then show False using v(2) w(3) by (auto simp: covers_def)
    qed
    then show ?thesis using w(1) by simp
  qed
  moreover have "covers vfn (area s v)" if "?r = Some v" for v using that by (auto simp: find_Some_iff)
  ultimately have "\<forall>v\<in>set (area_ptrs s m). covers vfn (area s v) \<longleftrightarrow> ?r = Some v" by blast
  with vmmap_lookup_eq [OF assms, of vfn] mapped_areas [of s m vfn] show ?thesis by blast
qed

theorem vmmap_lookup_finds_witness:
  "\<exists>r. vmmap_lookup (Some 4) 0x601 demo_space = Inr r \<and> r = Some 12"
  using vmmap_lookup_finds [OF demo_space_ok, of "0x601"]
  by (simp add: demo_space_areas covers_def) (auto simp: area_def demo_space_def demo_area_def)

text \<open>C26: the test for an empty range is exact.  On a well-formed address space and a range inside user
  memory \<^verbatim>\<open>vmmap_is_range_empty\<close> answers true exactly when no page of the range is mapped, although it
  stops at the first area that lies above the range.\<close>

theorem vmmap_is_range_empty_exact:
  assumes "space_ok K s m" and "lo < lo + np" and "ADDR_TO_PN K (USER_MEM_LOW K) \<le> lo"
    and "lo + np \<le> ADDR_TO_PN K (USER_MEM_HIGH K)"
  shows "vmmap_is_range_empty K m lo np s =
    Inr (\<forall>vfn. lo \<le> vfn \<and> vfn < lo + np \<longrightarrow> mapped (areas s m) vfn = None)"
proof -
  obtain vm where "vmmaps s m = Some vm" "vmm_list vm = area_ptrs s m" using space_okD(4) [OF assms(1)] by blast
  then show ?thesis
    using assms(2-4) empty_loop_eq [of "area_ptrs s m" s K lo "lo + np"] space_okD(1,3) [OF assms(1)]
      empty_iff_unmapped [OF space_okD(1) [OF assms(1)] assms(2)]
    by (simp add: vmmap_is_range_empty_def areas_def)
qed

theorem vmmap_is_range_empty_exact_witness:
  "vmmap_is_range_empty i386 4 0x510 0xf0 demo_space =
     Inr (\<forall>vfn. 0x510 \<le> vfn \<and> vfn < 0x600 \<longrightarrow> mapped (areas demo_space 4) vfn = None)"
  using vmmap_is_range_empty_exact [OF demo_space_ok, of "0x510" "0xf0"] by (simp add: i386_def)

text \<open>C27: the search for a free range is exact.  On a well-formed address space with at least one area,
  \<^verbatim>\<open>vmmap_find_range\<close> from the top returns the highest page at which a range of \<open>np\<close> free
  pages starts, and -1 exactly when there is none.  The unsigned page number survives the conversion to a
  C \<^verbatim>\<open>int\<close> because user memory ends below page 2 to the power 31.\<close>

theorem vmmap_find_range_highest:
  assumes "space_ok K s m" and "areas s m \<noteq> []" and "ADDR_TO_PN K (USER_MEM_HIGH K) \<le> 0x7fffffff"
  shows "\<exists>r. vmmap_find_range K m np (VMMAP_DIR_HILO K) s = Inr r \<and>
    (r = - 1 \<and> (\<forall>w. \<not> free_range K (areas s m) (ADDR_TO_PN K (USER_MEM_HIGH K)) np w) \<or>
     (\<exists>w. r = int (unat w) \<and> free_range K (areas s m) (ADDR_TO_PN K (USER_MEM_HIGH K)) np w \<and>
        (\<forall>w'. free_range K (areas s m) (ADDR_TO_PN K (USER_MEM_HIGH K)) np w' \<longrightarrow> w' \<le> w)))"
proof (cases "gap K np (ADDR_TO_PN K (USER_MEM_HIGH K)) (rev (areas s m))")
  case None
  with space_gap [OF assms(1,2), of np] vmmap_find_range_gap [OF assms(1,2), of np] show ?thesis by simp
next
  case (Some w)
  with space_gap [OF assms(1,2), of np]
  have w: "free_range K (areas s m) (ADDR_TO_PN K (USER_MEM_HIGH K)) np w"
    "\<forall>w'. free_range K (areas s m) (ADDR_TO_PN K (USER_MEM_HIGH K)) np w' \<longrightarrow> w' \<le> w" by simp_all
  have "unat w \<le> unat (ADDR_TO_PN K (USER_MEM_HIGH K))" using w(1) by (simp add: free_range_def)
  also have "\<dots> \<le> unat (0x7fffffff :: u32)" using assms(3) by (simp only: word_le_nat_alt)
  finally have "sint w = int (unat w)" by (intro sint_small) simp
  with Some w vmmap_find_range_gap [OF assms(1,2), of np] show ?thesis by auto
qed

theorem vmmap_find_range_highest_witness:
  "\<exists>r. vmmap_find_range i386 4 0x20 (VMMAP_DIR_HILO i386) demo_space = Inr r \<and> r \<noteq> - 1"
proof -
  have neg: "uint (w :: u32) \<noteq> - 1" for w using uint_ge_0 [of w] by linarith
  have "free_range i386 (areas demo_space 4) 0xc0000 0x20 0x520"
    by (simp add: demo_space_areas free_range_def demo_area_def i386_user)
  then show ?thesis using vmmap_find_range_highest [OF demo_space_ok, of "0x20"]
    by (auto simp: demo_space_areas i386_user neg)
qed

text \<open>C28: a cloned address space has the areas of the original in the same order.  While the allocator has
  room for them, \<^verbatim>\<open>vmmap_clone\<close> returns a new well-formed address space whose areas are copies with the
  same range, offset, protection and flags and with no memory object yet, and the original and all its areas
  are unchanged.\<close>

theorem vmmap_clone_faithful:
  assumes "area_fresh X" and "area_room X N" and "vmmap_slab X s = Some c" and "vmmaps s c = None"
    and "space_ok K s m" and "finite (dom (vmareas s))" and "card (dom (vmareas s)) + length (areas s m) \<le> N"
  shows "\<exists>s'. vmmap_clone K X m s = Inr (Some c, s') \<and> space_ok K s' c \<and> areas s' c = map (copy_area c) (areas s m) \<and>
    space_ok K s' m \<and> areas s' m = areas s m \<and> (\<forall>m'. m' \<noteq> c \<longrightarrow> vmmaps s' m' = vmmaps s m') \<and>
    s' = s\<lparr>vmareas := vmareas s', vmmaps := vmmaps s'\<rparr>"
  using vmmap_clone_copies [OF assms] by blast

theorem vmmap_clone_faithful_witness:
  "\<exists>s'. vmmap_clone i386 demo_ext 4 demo_space = Inr (Some 100, s') \<and> areas s' 4 = areas demo_space 4 \<and>
     areas s' 100 = map (copy_area 100) [demo_area 0x500 0x510 2, demo_area 0x600 0x620 3]"
proof -
  have "finite (dom (vmareas demo_space))" "card (dom (vmareas demo_space)) + length (areas demo_space 4) \<le> 10"
    unfolding demo_space_areas by (simp_all add: demo_space_def)
  moreover have "vmmap_slab demo_ext demo_space = Some 100" "vmmaps demo_space 100 = None"
    by (simp_all add: demo_ext_def free_cell_def demo_space_def)
  ultimately show ?thesis
    using vmmap_clone_faithful [OF demo_frames(3) demo_area_room _ _ demo_space_ok, of 100]
    by (auto simp: demo_space_areas)
qed

text \<open>Unmapping the end of an area leaves its page table entries in place.  When the range starts inside
  the only area of the address space and runs past its end, \<^verbatim>\<open>vmmap_remove\<close> succeeds and the pages are no
  longer mapped, but the page tables are exactly as before, so a stale translation survives.\<close>

lemma vmmap_remove_stale_entries:
  assumes "space_ok K s m" and "areas s m = [a]" and "vma_start a < lo" and "lo < vma_end a" and "vma_end a < lo + np"
  shows "\<exists>s'. vmmap_remove n K X m lo np s = Inr (0, s') \<and> mapped (areas s' m) lo = None \<and>
    mapped (areas s m) lo \<noteq> None \<and> pagetabs s' = pagetabs s"
proof -
  obtain v where v: "area_ptrs s m = [v]" "area s v = a" using assms(2) by (auto simp: areas_def)
  then have a: "vmareas s v = Some a" using space_okD(3) [OF assms(1), of v] by simp
  obtain vm where vm: "vmmaps s m = Some vm" "vmm_list vm = [v]" using space_okD(4) [OF assms(1)] v by auto
  let ?s = "upd_area v (\<lambda>x. x\<lparr>vma_end := lo\<rparr>) s"
  have "vma_start a \<noteq> lo" "\<not> lo + np \<le> vma_end a" "\<not> vma_end a < lo" "\<not> lo + np < vma_start a" "\<not> lo < vma_start a"
    "vma_start a \<le> lo"
    using assms(3-5) by auto
  then have "vmmap_remove n K X m lo np s = Inr (0, ?s)"
    using vm a assms(3,5) by (simp add: vmmap_remove_def remove_step_def drop_if_empty_def Let_def)
  moreover have "areas ?s m = [a\<lparr>vma_end := lo\<rparr>]" using v a by (simp add: areas_def area_ptrs_def vm area_def)
  moreover have "pagetabs ?s = pagetabs s" by (simp add: upd_area_def)
  moreover have "mapped (areas s m) lo = Some (page_map lo a)" using assms(2-4) by (simp add: mapped_Cons covers_def)
  ultimately show ?thesis by (auto simp: mapped_Cons covers_def)
qed

definition one_area :: kstate where
  "one_area = demo_space\<lparr>vmmaps := [4 \<mapsto> \<lparr>vmm_list = [11], vmm_proc = Some 4\<rparr>]\<rparr>"

lemma vmmap_remove_stale_entries_example:
  "\<exists>s'. vmmap_remove 9 i386 demo_ext 4 0x508 0x20 one_area = Inr (0, s') \<and> mapped (areas s' 4) 0x508 = None \<and>
     mapped (areas one_area 4) 0x508 \<noteq> None \<and> pagetabs s' = pagetabs one_area"
proof -
  have "areas one_area 4 = [demo_area 0x500 0x510 2]"
    by (simp add: areas_def area_ptrs_def area_def one_area_def demo_space_def)
  moreover have "space_ok i386 one_area 4"
    by (simp add: space_ok_def calculation wf_areas_def wf_area_def)
      (simp add: area_ptrs_def area_def one_area_def demo_space_def demo_area_def i386_def)
  ultimately show ?thesis using vmmap_remove_stale_entries [of i386 one_area 4 "demo_area 0x500 0x510 2" "0x508" "0x20" 9 demo_ext]
    by (simp add: demo_area_def)
qed

end
