(* ===== verification/Proc.thy ===== *)
theory Proc
  imports Address_Space
begin

text \<open>
  Threads and processes, \<^verbatim>\<open>kernel/proc/kthread.c\<close> and
  \<^verbatim>\<open>kernel/proc/proc.c\<close>: creation, cancellation, exit, reaping.  The
  routines that end the running thread return the state in which the next
  thread runs; \<open>irqs\<close> are the interrupts that arrive while the run queue
  is empty, and \<open>n\<close> is the fuel for the references that the exit drops.
\<close>

section \<open>Threads\<close>

definition upd_proc :: "ptr \<Rightarrow> (proc \<Rightarrow> proc) \<Rightarrow> kstate \<Rightarrow> kstate" where
  "upd_proc p f s = s\<lparr>procs := (procs s)(p := map_option f (procs s p))\<rparr>"

definition alloc_stack :: "kenv \<Rightarrow> kstate \<Rightarrow> ptr option" where
  "alloc_stack E s = page_alloc_n E s"

definition kthread_destroy :: "ptr option \<Rightarrow> kstate \<Rightarrow> kstate res" where
  "kthread_destroy tp s =
     (case tp of
        None \<Rightarrow> Inl KASSERT_failed
      | Some t \<Rightarrow>
          bindE (deref (threads s t)) (\<lambda>thr.
            if kt_kstack thr = None then Inl KASSERT_failed
            else
              let s1 = (case kt_plink thr of
                          Some p \<Rightarrow> upd_proc p (\<lambda>x. x\<lparr>p_threads := remove1 t (p_threads x)\<rparr>) s
                        | None \<Rightarrow> s)
              in Inr (s1\<lparr>threads := (threads s1)(t := None)\<rparr>)))"

text \<open>\<^verbatim>\<open>memset\<close> clears the structure, so every field not named is zero.\<close>

definition kthread_create ::
  "kconsts \<Rightarrow> kenv \<Rightarrow> ptr option \<Rightarrow> u32 \<Rightarrow> int \<Rightarrow> u32 \<Rightarrow> kstate \<Rightarrow> (ptr \<times> kstate) res" where
  "kthread_create K E pp func arg1 arg2 s =
     (case pp of
        None \<Rightarrow> Inl KASSERT_failed
      | Some p \<Rightarrow>
          bindE (deref (kthread_slab E s)) (\<lambda>k.
          bindE (deref (procs s p)) (\<lambda>pr.
            let kstack = alloc_stack E s;
                thr = \<lparr>kt_kstack = kstack, kt_retval = 0, kt_errno = 0, kt_proc = Some p, kt_cancelled = 0,
                        kt_wchan = None, kt_state = (if p_pid pr = 0 then KT_RUN else KT_NO_STATE),
                        kt_qlink = None, kt_plink = Some p, kt_ipl = None,
                        kt_ctx = context_setup E func arg1 arg2 kstack (DEFAULT_STACK_SIZE K) (p_pagedir pr)\<rparr>
            in Inr (k, upd_proc p (\<lambda>x. x\<lparr>p_threads := k # p_threads x\<rparr>)
                         (s\<lparr>threads := (threads s)(k \<mapsto> thr)\<rparr>)))))"

text \<open>
  \<^verbatim>\<open>kthread_clone\<close> does not clear the structure: the process, the saved
  registers and the rest of the context stay undefined until the caller sets
  them; the model has zeros there.
\<close>

definition kthread_clone :: "kenv \<Rightarrow> ptr \<Rightarrow> kstate \<Rightarrow> (ptr \<times> kstate) res" where
  "kthread_clone E t s =
     bindE (deref (threads s t)) (\<lambda>thr.
       if kt_state thr \<noteq> KT_RUN then Inl KASSERT_failed
       else
         bindE (deref (kthread_slab E s)) (\<lambda>thread_n.
           let kstack = alloc_stack E s
           in Inr (thread_n, s\<lparr>threads := (threads s)(thread_n \<mapsto>
                \<lparr>kt_kstack = kstack, kt_retval = kt_retval thr, kt_errno = kt_errno thr, kt_proc = None,
                 kt_cancelled = kt_cancelled thr, kt_wchan = None, kt_state = kt_state thr, kt_qlink = None,
                 kt_plink = None, kt_ipl = None,
                 kt_ctx = zero_context\<lparr>c_kstack := (case kstack of Some a \<Rightarrow> of_nat a | None \<Rightarrow> 0)\<rparr>\<rparr>)\<rparr>)))"

section \<open>Creating processes\<close>

fun proc_lookup_loop :: "kstate \<Rightarrow> int \<Rightarrow> ptr list \<Rightarrow> ptr option res" where
  "proc_lookup_loop s pid [] = Inr None"
| "proc_lookup_loop s pid (p # ps) =
     bindE (deref (procs s p)) (\<lambda>pr. if p_pid pr = pid then Inr (Some p) else proc_lookup_loop s pid ps)"

definition proc_lookup :: "int \<Rightarrow> kstate \<Rightarrow> ptr option res" where
  "proc_lookup pid s = proc_lookup_loop s pid (proc_list s)"

text \<open>
  The loop of \<^verbatim>\<open>_proc_getid\<close>: a pid in use sends it to the next one, up to the
  one it started from.  One unit of fuel per pid.
\<close>

primrec getid_loop :: "nat \<Rightarrow> kconsts \<Rightarrow> kstate \<Rightarrow> int \<Rightarrow> (int \<times> kstate) res" where
  "getid_loop 0 K s pid = Inl Never_returns"
| "getid_loop (Suc n) K s pid =
     bindE (proc_lookup_loop s pid (proc_list s)) (\<lambda>r.
       if r \<noteq> None then
         let pid' = (pid + 1) mod PROC_MAX_COUNT K in
         if pid' = next_pid s then Inr (- 1, s) else getid_loop n K s pid'
       else Inr (pid, s\<lparr>next_pid := (pid + 1) mod PROC_MAX_COUNT K\<rparr>))"

definition proc_getid :: "kconsts \<Rightarrow> kstate \<Rightarrow> (int \<times> kstate) res" where
  "proc_getid K s = getid_loop (nat (PROC_MAX_COUNT K)) K s (next_pid s)"

definition new_proc :: "kconsts \<Rightarrow> int \<Rightarrow> string \<Rightarrow> ptr option \<Rightarrow> proc" where
  "new_proc K pid name parent =
     \<lparr>p_pid = pid, p_comm = name, p_threads = [], p_children = [], p_pproc = parent, p_status = 0,
      p_state = PROC_RUNNING, p_pagedir = None, p_files = replicate (NFILES K) None, p_cwd = None,
      p_brk = 0, p_start_brk = 0, p_vmmap = None\<rparr>"

text \<open>The parts of \<^verbatim>\<open>proc_create\<close> under \<^verbatim>\<open>VFS\<close> and \<^verbatim>\<open>VM\<close>.\<close>

definition proc_set_cwd :: "kenv \<Rightarrow> ptr \<Rightarrow> int \<Rightarrow> kstate \<Rightarrow> kstate res" where
  "proc_set_cwd E p pid s =
     (case vfs_root_vn s of
        Some root \<Rightarrow>
          if pid > 1 then vget_root E root (upd_proc p (\<lambda>x. x\<lparr>p_cwd := Some root\<rparr>) s) else Inr s
      | None \<Rightarrow> Inr s)"

definition proc_set_vm :: "kconsts \<Rightarrow> kext \<Rightarrow> ptr \<Rightarrow> int \<Rightarrow> kstate \<Rightarrow> kstate res" where
  "proc_set_vm K X p pid s =
     (let (m, s1) = vmmap_create X s in
      bindE (deref m) (\<lambda>vm.
        let s2 = upd_map vm (\<lambda>x. x\<lparr>vmm_proc := Some p\<rparr>) (upd_proc p (\<lambda>x. x\<lparr>p_vmmap := Some vm\<rparr>) s1) in
        if pid \<noteq> PID_IDLE K then
          bindE (deref (curproc s2)) (\<lambda>c.
          bindE (deref (procs s2 c)) (\<lambda>cur.
            Inr (upd_proc p (\<lambda>x. x\<lparr>p_brk := p_brk cur, p_start_brk := p_start_brk cur\<rparr>) s2)))
        else Inr s2))"

definition proc_create :: "kconsts \<Rightarrow> kext \<Rightarrow> kenv \<Rightarrow> string \<Rightarrow> kstate \<Rightarrow> (ptr \<times> kstate) res" where
  "proc_create K X E name s =
     (case proc_slab E s of
        None \<Rightarrow> Inl KASSERT_failed
      | Some p \<Rightarrow>
          bindE (proc_getid K s) (\<lambda>(pid, s0).
            if \<not> (PID_IDLE K \<noteq> pid \<or> proc_list s0 = []) then Inl KASSERT_failed
            else
              bindE (if PID_INIT K \<noteq> pid then Inr True
                     else bindE (deref (curproc s0)) (\<lambda>c. bindE (deref (procs s0 c)) (\<lambda>cur.
                            Inr (PID_IDLE K = p_pid cur)))) (\<lambda>b.
              if \<not> b then Inl KASSERT_failed
              else
                let s1 = s0\<lparr>procs := (procs s0)(p \<mapsto> new_proc K pid name (curproc s0)),
                            proc_initproc := (if pid = 1 then Some p else proc_initproc s0)\<rparr>;
                    s2 = (case curproc s1 of
                            Some c \<Rightarrow> upd_proc c (\<lambda>x. x\<lparr>p_children := p # p_children x\<rparr>) s1
                          | None \<Rightarrow> s1);
                    (pd, s3) = pt_create_pagedir E (sched_queue_init (Waitq p) s2);
                    s4 = upd_proc p (\<lambda>x. x\<lparr>p_pagedir := pd\<rparr>) s3;
                    s5 = s4\<lparr>proc_list := p # proc_list s4\<rparr>
                in bindE (proc_set_cwd E p pid s5) (\<lambda>s6.
                   bindE (proc_set_vm K X p pid s6) (\<lambda>s7. Inr (p, s7))))))"

section \<open>Ending a process\<close>

text \<open>
  The loop that gives the children to init inserts each at the head of init's
  list without taking it out of the old one; the iteration holds the next link,
  so all are moved, and the old list, which belongs to a dead process, is
  never walked again.  When init itself exits with children the two lists are
  one and the links are torn.
\<close>

fun reparent_loop :: "ptr \<Rightarrow> ptr list \<Rightarrow> kstate \<Rightarrow> kstate res" where
  "reparent_loop ini [] s = Inr s"
| "reparent_loop ini (c # cs) s =
     bindE (deref (procs s c)) (\<lambda>_.
     bindE (deref (procs s ini)) (\<lambda>_.
       reparent_loop ini cs
         (upd_proc c (\<lambda>x. x\<lparr>p_pproc := Some ini\<rparr>) (upd_proc ini (\<lambda>x. x\<lparr>p_children := c # p_children x\<rparr>) s))))"

text \<open>\<^verbatim>\<open>for (int i = 0; i < NFILES; i++)\<close>: drop every open file and clear its entry.\<close>

fun close_files :: "kenv \<Rightarrow> ptr \<Rightarrow> nat list \<Rightarrow> kstate \<Rightarrow> kstate res" where
  "close_files E p [] s = Inr s"
| "close_files E p (i # is) s =
     bindE (deref (procs s p)) (\<lambda>pr.
       if \<not> i < length (p_files pr) then Inl Out_of_bounds
       else
         bindE (case p_files pr ! i of Some f \<Rightarrow> fput E f s | None \<Rightarrow> Inr s) (\<lambda>s1.
           close_files E p is (upd_proc p (\<lambda>x. x\<lparr>p_files := (p_files x)[i := None]\<rparr>) s1)))"

definition wake_parent :: "kconsts \<Rightarrow> kstate \<Rightarrow> kstate res" where
  "wake_parent K s =
     bindE (deref (curthr s)) (\<lambda>t.
     bindE (deref (threads s t)) (\<lambda>thr.
     bindE (deref (kt_proc thr)) (\<lambda>p.
     bindE (deref (procs s p)) (\<lambda>pr.
     bindE (deref (p_pproc pr)) (\<lambda>parent_process.
       if \<not> sched_queue_empty (Waitq parent_process) s
       then bindE (sched_wakeup_on K (Waitq parent_process) s) (\<lambda>(_, s1). Inr s1)
       else Inr s)))))"

definition reparent :: "ptr \<Rightarrow> ptr \<Rightarrow> kstate \<Rightarrow> kstate res" where
  "reparent p ini s =
     bindE (deref (procs s p)) (\<lambda>pr.
       if p = ini \<and> p_children pr \<noteq> [] then Inl List_corrupted
       else reparent_loop ini (p_children pr) s)"

definition proc_cleanup :: "nat \<Rightarrow> kconsts \<Rightarrow> kext \<Rightarrow> kenv \<Rightarrow> int \<Rightarrow> kstate \<Rightarrow> kstate res" where
  "proc_cleanup n K X E status s =
     (case proc_initproc s of
        None \<Rightarrow> Inl KASSERT_failed
      | Some ini \<Rightarrow>
          bindE (deref (curproc s)) (\<lambda>p.
          bindE (deref (procs s p)) (\<lambda>pr.
            if \<not> 1 \<le> p_pid pr then Inl KASSERT_failed
            else if p_pproc pr = None then Inl KASSERT_failed
            else
              bindE (wake_parent K s) (\<lambda>s1.
              bindE (reparent p ini s1) (\<lambda>s2.
              bindE (close_files E p [0..<NFILES K]
                       (upd_proc p (\<lambda>x. x\<lparr>p_status := status, p_state := PROC_DEAD\<rparr>) s2)) (\<lambda>s3.
              bindE (deref (procs s3 p)) (\<lambda>pr3.
              bindE (case p_cwd pr3 of Some v \<Rightarrow> vput E v s3 | None \<Rightarrow> Inr s3) (\<lambda>s4.
              bindE (vmmap_destroy n K X (p_vmmap pr3) s4) (\<lambda>s5.
              bindE (deref (procs s5 p)) (\<lambda>pr5.
              bindE (deref (curthr s5)) (\<lambda>t.
              bindE (deref (threads s5 t)) (\<lambda>thr.
                if p_pproc pr5 = None then Inl KASSERT_failed
                else if kt_state thr \<noteq> KT_EXITED then Inl KASSERT_failed
                else Inr s5))))))))))))"

definition proc_thread_exited ::
  "nat \<Rightarrow> kconsts \<Rightarrow> kext \<Rightarrow> kenv \<Rightarrow> interrupt list \<Rightarrow> int \<Rightarrow> kstate \<Rightarrow> kstate res" where
  "proc_thread_exited n K X E irqs retval s =
     bindE (proc_cleanup n K X E retval s) (\<lambda>s1. sched_switch K irqs s1)"

definition kthread_exit ::
  "nat \<Rightarrow> kconsts \<Rightarrow> kext \<Rightarrow> kenv \<Rightarrow> interrupt list \<Rightarrow> int \<Rightarrow> kstate \<Rightarrow> kstate res" where
  "kthread_exit n K X E irqs retval s =
     bindE (deref (curthr s)) (\<lambda>t.
     bindE (deref (threads s t)) (\<lambda>thr.
       let s1 = upd_thread t (\<lambda>x. x\<lparr>kt_retval := retval, kt_state := KT_EXITED\<rparr>) s in
       if kt_wchan thr \<noteq> None then Inl KASSERT_failed
       else if kt_qlink thr \<noteq> None then Inl KASSERT_failed
       else if kt_proc thr \<noteq> curproc s then Inl KASSERT_failed
       else proc_thread_exited n K X E irqs retval s1))"

definition do_exit ::
  "nat \<Rightarrow> kconsts \<Rightarrow> kext \<Rightarrow> kenv \<Rightarrow> interrupt list \<Rightarrow> int \<Rightarrow> kstate \<Rightarrow> kstate res" where
  "do_exit n K X E irqs status s = kthread_exit n K X E irqs status s"

definition kthread_cancel ::
  "nat \<Rightarrow> kconsts \<Rightarrow> kext \<Rightarrow> kenv \<Rightarrow> interrupt list \<Rightarrow> ptr option \<Rightarrow> int \<Rightarrow> kstate \<Rightarrow> kstate res" where
  "kthread_cancel n K X E irqs kthr retval s =
     (case kthr of
        None \<Rightarrow> Inl KASSERT_failed
      | Some t \<Rightarrow>
          if curthr s = Some t then kthread_exit n K X E irqs retval s
          else
            bindE (deref (threads s t)) (\<lambda>_.
              sched_cancel K t (upd_thread t (\<lambda>x. x\<lparr>kt_cancelled := 1, kt_retval := retval\<rparr>) s)))"

text \<open>
  \<^verbatim>\<open>proc_kill\<close> copies the list head; for a process without threads the first
  link of the copy leads back to the original head, which is no thread.
  \<^verbatim>\<open>do_exit\<close> does not return, so for the current process that is all.
\<close>

definition proc_kill ::
  "nat \<Rightarrow> kconsts \<Rightarrow> kext \<Rightarrow> kenv \<Rightarrow> interrupt list \<Rightarrow> ptr \<Rightarrow> int \<Rightarrow> kstate \<Rightarrow> kstate res" where
  "proc_kill n K X E irqs p status s =
     (if curproc s = Some p then do_exit n K X E irqs status s
      else
        bindE (deref (procs s p)) (\<lambda>pr.
          case p_threads pr of
            [] \<Rightarrow> Inl List_corrupted
          | t # _ \<Rightarrow> kthread_cancel n K X E irqs (Some t) 0 s))"

fun kill_loop ::
  "nat \<Rightarrow> kconsts \<Rightarrow> kext \<Rightarrow> kenv \<Rightarrow> interrupt list \<Rightarrow> ptr list \<Rightarrow> kstate \<Rightarrow> kstate res" where
  "kill_loop n K X E irqs [] s = Inr s"
| "kill_loop n K X E irqs (p # ps) s =
     bindE (deref (procs s p)) (\<lambda>pr.
       if p_pid pr \<noteq> 0 \<and> p_pid pr \<noteq> 1 \<and> p_pid pr \<noteq> 2 \<and> curproc s \<noteq> Some p
       then bindE (proc_kill n K X E irqs p 0 s) (\<lambda>s1. kill_loop n K X E irqs ps s1)
       else kill_loop n K X E irqs ps s)"

definition proc_kill_all ::
  "nat \<Rightarrow> kconsts \<Rightarrow> kext \<Rightarrow> kenv \<Rightarrow> interrupt list \<Rightarrow> kstate \<Rightarrow> kstate res" where
  "proc_kill_all n K X E irqs s = kill_loop n K X E irqs (proc_list s) s"

section \<open>Waiting for children\<close>

text \<open>
  \<open>Done r status\<close> when \<^verbatim>\<open>do_waitpid\<close> returns \<open>r\<close>, with the
  status it stores if it stores one; \<open>Slept c\<close> when the caller has gone to
  sleep, waiting for any child or for the child \<open>c\<close>, and the state is the
  one of the next thread.  \<open>waitpid_resume\<close> is what is left to do when the
  caller is current again.
\<close>

datatype wait_result = Done int "int option" | Slept "ptr option"

fun find_dead :: "kstate \<Rightarrow> ptr list \<Rightarrow> ptr option res" where
  "find_dead s [] = Inr None"
| "find_dead s (c # cs) =
     bindE (deref (procs s c)) (\<lambda>ch. if p_state ch = PROC_DEAD then Inr (Some c) else find_dead s cs)"

fun find_child :: "kstate \<Rightarrow> int \<Rightarrow> ptr list \<Rightarrow> ptr option res" where
  "find_child s pid [] = Inr None"
| "find_child s pid (c # cs) =
     bindE (deref (procs s c)) (\<lambda>ch. if p_pid ch = pid then Inr (Some c) else find_child s pid cs)"

definition unlink_proc :: "ptr \<Rightarrow> ptr \<Rightarrow> kstate \<Rightarrow> kstate" where
  "unlink_proc cur c s =
     upd_proc cur (\<lambda>x. x\<lparr>p_children := remove1 c (p_children x)\<rparr>) (s\<lparr>proc_list := remove1 c (proc_list s)\<rparr>)"

definition first_thread :: "proc \<Rightarrow> ptr option res" where
  "first_thread ch = (case p_threads ch of [] \<Rightarrow> Inl List_corrupted | t # _ \<Rightarrow> Inr (Some t))"

definition free_proc :: "kenv \<Rightarrow> ptr \<Rightarrow> ptr option \<Rightarrow> kstate \<Rightarrow> kstate" where
  "free_proc E c pagedir s =
     (let s1 = pt_destroy_pagedir E pagedir s in s1\<lparr>procs := (procs s1)(c := None)\<rparr>)"

definition dispose_any :: "kenv \<Rightarrow> ptr \<Rightarrow> ptr \<Rightarrow> proc \<Rightarrow> kstate \<Rightarrow> (wait_result \<times> kstate) res" where
  "dispose_any E cur c ch s =
     (if p_pagedir ch = None then Inl KASSERT_failed
      else
        bindE (first_thread ch) (\<lambda>t.
        bindE (kthread_destroy t s) (\<lambda>s1.
          Inr (Done (p_pid ch) (Some (p_status ch)), free_proc E c (p_pagedir ch) (unlink_proc cur c s1)))))"

definition dispose_child :: "kenv \<Rightarrow> ptr \<Rightarrow> ptr \<Rightarrow> proc \<Rightarrow> int \<Rightarrow> kstate \<Rightarrow> (wait_result \<times> kstate) res" where
  "dispose_child E cur c ch pid s =
     (if p_pid ch \<noteq> pid then Inl KASSERT_failed
      else if p_pagedir ch = None then Inl KASSERT_failed
      else
        bindE (first_thread ch) (\<lambda>t.
        bindE (kthread_destroy t (unlink_proc cur c s)) (\<lambda>s1.
          Inr (Done (p_pid ch) (Some (p_status ch)), free_proc E c (p_pagedir ch) s1))))"

definition waitpid_any :: "kconsts \<Rightarrow> kenv \<Rightarrow> interrupt list \<Rightarrow> kstate \<Rightarrow> (wait_result \<times> kstate) res" where
  "waitpid_any K E irqs s =
     bindE (deref (curproc s)) (\<lambda>cur.
     bindE (deref (procs s cur)) (\<lambda>pr.
     bindE (find_dead s (p_children pr)) (\<lambda>d.
       case d of
         Some c \<Rightarrow> bindE (deref (procs s c)) (\<lambda>ch. dispose_any E cur c ch s)
       | None \<Rightarrow> bindE (sched_sleep_on K irqs (Waitq cur) s) (\<lambda>s1. Inr (Slept None, s1)))))"

definition waitpid_child ::
  "kconsts \<Rightarrow> kenv \<Rightarrow> interrupt list \<Rightarrow> int \<Rightarrow> ptr \<Rightarrow> kstate \<Rightarrow> (wait_result \<times> kstate) res" where
  "waitpid_child K E irqs pid c s =
     bindE (deref (curproc s)) (\<lambda>cur.
     bindE (deref (procs s c)) (\<lambda>ch.
       if p_state ch = PROC_DEAD then dispose_child E cur c ch pid s
       else bindE (sched_sleep_on K irqs (Waitq cur) s) (\<lambda>s1. Inr (Slept (Some c), s1))))"

definition do_waitpid ::
  "kconsts \<Rightarrow> kenv \<Rightarrow> interrupt list \<Rightarrow> int \<Rightarrow> int \<Rightarrow> kstate \<Rightarrow> (wait_result \<times> kstate) res" where
  "do_waitpid K E irqs pid options s =
     (if options \<noteq> 0 then Inr (Done (- errno K EINVAL) None, s)
      else if pid = - 1 then
        bindE (deref (curproc s)) (\<lambda>cur.
        bindE (deref (procs s cur)) (\<lambda>pr.
          if p_children pr = [] then Inr (Done (- errno K ECHILD) None, s)
          else waitpid_any K E irqs s))
      else if pid > 0 then
        bindE (deref (curproc s)) (\<lambda>cur.
        bindE (deref (procs s cur)) (\<lambda>pr.
          if p_children pr = [] then Inr (Done (- errno K ECHILD) None, s)
          else
            bindE (find_child s pid (p_children pr)) (\<lambda>r.
              case r of
                None \<Rightarrow> Inr (Done (- errno K ECHILD) None, s)
              | Some c \<Rightarrow> waitpid_child K E irqs pid c s)))
      else Inr (Done (- errno K EINVAL) None, s))"

definition waitpid_resume ::
  "kconsts \<Rightarrow> kenv \<Rightarrow> interrupt list \<Rightarrow> int \<Rightarrow> ptr option \<Rightarrow> kstate \<Rightarrow> (wait_result \<times> kstate) res" where
  "waitpid_resume K E irqs pid w s =
     (case w of None \<Rightarrow> waitpid_any K E irqs s | Some c \<Rightarrow> waitpid_child K E irqs pid c s)"

section \<open>Process identifiers\<close>

definition pid_used :: "kstate \<Rightarrow> int \<Rightarrow> bool" where
  "pid_used s pid \<longleftrightarrow> (\<exists>p pr. p \<in> set (proc_list s) \<and> procs s p = Some pr \<and> p_pid pr = pid)"

lemma proc_lookup_loop_find:
  assumes "\<forall>p\<in>set ps. procs s p \<noteq> None"
  shows "proc_lookup_loop s pid ps = Inr (List.find (\<lambda>p. p_pid (the (procs s p)) = pid) ps)"
  using assms by (induction ps) auto

lemma proc_lookup_loop_used:
  assumes "\<forall>p\<in>set (proc_list s). procs s p \<noteq> None"
  shows "\<exists>r. proc_lookup_loop s pid (proc_list s) = Inr r \<and> (r \<noteq> None \<longleftrightarrow> pid_used s pid)"
proof -
  let ?r = "List.find (\<lambda>p. p_pid (the (procs s p)) = pid) (proc_list s)"
  have "?r \<noteq> None \<longleftrightarrow> pid_used s pid" unfolding find_None_iff pid_used_def using assms by force
  then show ?thesis using proc_lookup_loop_find [OF assms, of pid] by blast
qed

text \<open>
  The search starts at \<open>next_pid\<close>; after \<open>j\<close> rounds the pids it has
  passed are all in use.
\<close>

lemma getid_loop_result:
  assumes live: "\<forall>p\<in>set (proc_list s). procs s p \<noteq> None" and np: "0 \<le> next_pid s" "next_pid s < M" and M: "M = PROC_MAX_COUNT K"
  shows "nat M = n + j \<Longrightarrow> 0 < n \<Longrightarrow> \<forall>i<j. pid_used s ((next_pid s + int i) mod M) \<Longrightarrow>
    (\<exists>pid. getid_loop n K s ((next_pid s + int j) mod M) = Inr (pid, s\<lparr>next_pid := (pid + 1) mod M\<rparr>) \<and>
        0 \<le> pid \<and> pid < M \<and> \<not> pid_used s pid) \<or>
    (getid_loop n K s ((next_pid s + int j) mod M) = Inr (- 1, s) \<and> (\<forall>i<nat M. pid_used s ((next_pid s + int i) mod M)))"
proof (induction n arbitrary: j)
  case (Suc n)
  let ?pid = "(next_pid s + int j) mod M"
  have pos: "0 < M" using np by simp
  obtain r where r: "proc_lookup_loop s ?pid (proc_list s) = Inr r" "r \<noteq> None \<longleftrightarrow> pid_used s ?pid"
    using proc_lookup_loop_used [OF live] by blast
  have suc: "(?pid + 1) mod M = (next_pid s + int (Suc j)) mod M"
    unfolding mod_add_left_eq by (simp add: ac_simps)
  show ?case
  proof (cases "pid_used s ?pid")
    case False
    then have "r = None" using r(2) by simp
    then have "getid_loop (Suc n) K s ?pid = Inr (?pid, s\<lparr>next_pid := (?pid + 1) mod M\<rparr>)" using r(1) unfolding M by simp
    then show ?thesis using pos False by (intro disjI1 exI [of _ ?pid]) simp
  next
    case True
    then have all: "\<forall>i<Suc j. pid_used s ((next_pid s + int i) mod M)" using Suc.prems(3) by (auto simp: less_Suc_eq)
    have some: "\<exists>y. r = Some y" using r(2) True by auto
    show ?thesis
    proof (cases "(?pid + 1) mod M = next_pid s")
      case True
      have "Suc j = nat M"
      proof (rule ccontr)
        assume "Suc j \<noteq> nat M"
        then have lt: "int (Suc j) < M" using Suc.prems(1) pos by linarith
        have "(next_pid s + int (Suc j)) mod M = next_pid s" using True suc by simp
        then have "M dvd int (Suc j)" using np mod_eq_dvd_iff [of "next_pid s + int (Suc j)" M "next_pid s"] by simp
        then show False using lt by (simp add: zdvd_not_zless)
      qed
      moreover have "getid_loop (Suc n) K s ?pid = Inr (- 1, s)" using r(1) some True unfolding M by (auto simp: Let_def)
      ultimately show ?thesis using all by (intro disjI2) simp
    next
      case False
      have "0 < n"
      proof (rule ccontr)
        assume "\<not> 0 < n"
        then have "int (Suc j) = M" using Suc.prems(1) pos by linarith
        then have "(?pid + 1) mod M = next_pid s" unfolding suc using np by (simp add: mod_pos_pos_trivial)
        with False show False by simp
      qed
      have "getid_loop (Suc n) K s ?pid = getid_loop n K s ((?pid + 1) mod M)"
        using r(1) some False unfolding M by (auto simp: Let_def)
      then have g: "getid_loop (Suc n) K s ?pid = getid_loop n K s ((next_pid s + int (Suc j)) mod M)" by (simp only: suc)
      show ?thesis unfolding g by (rule Suc.IH) (use Suc.prems(1) all \<open>0 < n\<close> in auto)
    qed
  qed
qed simp

lemma proc_getid_result:
  assumes "\<forall>p\<in>set (proc_list s). procs s p \<noteq> None" "0 \<le> next_pid s" "next_pid s < PROC_MAX_COUNT K"
  shows "(\<exists>pid. proc_getid K s = Inr (pid, s\<lparr>next_pid := (pid + 1) mod PROC_MAX_COUNT K\<rparr>) \<and>
        0 \<le> pid \<and> pid < PROC_MAX_COUNT K \<and> \<not> pid_used s pid) \<or>
    proc_getid K s = Inr (- 1, s) \<and> (\<forall>pid. 0 \<le> pid \<and> pid < PROC_MAX_COUNT K \<longrightarrow> pid_used s pid)"
proof -
  let ?M = "PROC_MAX_COUNT K"
  have all: "\<forall>pid. 0 \<le> pid \<and> pid < ?M \<longrightarrow> pid_used s pid" if u: "\<forall>i<nat ?M. pid_used s ((next_pid s + int i) mod ?M)"
  proof (intro allI impI)
    fix pid assume p: "0 \<le> pid \<and> pid < ?M"
    let ?i = "nat ((pid - next_pid s) mod ?M)"
    have pos: "0 < ?M" using assms by simp
    then have "?i < nat ?M" by simp
    moreover have "(next_pid s + int ?i) mod ?M = pid" using p pos by (simp add: mod_simps)
    ultimately show "pid_used s pid" using u by metis
  qed
  have start: "(next_pid s + int 0) mod ?M = next_pid s" using assms by simp
  have "0 < nat ?M" using assms by simp
  moreover have "\<forall>i<0. pid_used s ((next_pid s + int i) mod ?M)" by simp
  ultimately show ?thesis
    using getid_loop_result [OF assms refl, of "nat ?M" 0, unfolded start, OF add_0_right [symmetric]] all
    unfolding proc_getid_def by blast
qed

section \<open>The process tree\<close>

text \<open>
  Family relations, apart from the state: the list of processes \<open>ps\<close>, the
  set of processes \<open>L\<close>, their pids, which of them run, their parents and
  their lists of children.  The list holds each process once and the pids
  differ; the parent of a process is running; the list of children of a
  running process holds exactly the processes whose parent it is, each once.
\<close>

definition tree_ok :: "ptr list \<Rightarrow> ptr set \<Rightarrow> (ptr \<Rightarrow> int) \<Rightarrow> (ptr \<Rightarrow> bool) \<Rightarrow> (ptr \<Rightarrow> ptr option) \<Rightarrow> (ptr \<Rightarrow> ptr list) \<Rightarrow> bool" where
  "tree_ok ps L pid run par kids \<longleftrightarrow> distinct ps \<and> set ps = L \<and> inj_on pid L \<and>
     (\<forall>c\<in>L. \<forall>p. par c = Some p \<longrightarrow> p \<in> L \<and> run p) \<and>
     (\<forall>p\<in>L. run p \<longrightarrow> distinct (kids p) \<and> set (kids p) = {c\<in>L. par c = Some p})"

lemma tree_okD:
  assumes "tree_ok ps L pid run par kids"
  shows "distinct ps" "set ps = L" "inj_on pid L" "c \<in> L \<Longrightarrow> par c = Some p \<Longrightarrow> p \<in> L \<and> run p"
    "p \<in> L \<Longrightarrow> run p \<Longrightarrow> distinct (kids p)" "p \<in> L \<Longrightarrow> run p \<Longrightarrow> c \<in> set (kids p) \<longleftrightarrow> c \<in> L \<and> par c = Some p"
  using assms by (simp_all add: tree_ok_def)

lemma tree_okI:
  assumes "distinct ps" "set ps = L" "inj_on pid L" "\<And>c p. c \<in> L \<Longrightarrow> par c = Some p \<Longrightarrow> p \<in> L \<and> run p"
    "\<And>p. p \<in> L \<Longrightarrow> run p \<Longrightarrow> distinct (kids p)"
    "\<And>p c. p \<in> L \<Longrightarrow> run p \<Longrightarrow> c \<in> set (kids p) \<longleftrightarrow> c \<in> L \<and> par c = Some p"
  shows "tree_ok ps L pid run par kids"
  using assms unfolding tree_ok_def by blast

lemma tree_ok_cong:
  assumes ok: "tree_ok ps L pid run par kids"
    and eq: "\<And>p. p \<in> L \<Longrightarrow> pid' p = pid p \<and> run' p = run p \<and> par' p = par p \<and> kids' p = kids p"
  shows "tree_ok ps L pid' run' par' kids'"
proof (rule tree_okI)
  show "inj_on pid' L" using tree_okD(3) [OF ok] eq by (subst inj_on_cong [of L pid' pid]) auto
  show "p \<in> L \<and> run' p" if "c \<in> L" "par' c = Some p" for c p using tree_okD(4) [OF ok] that eq by metis
  show "c \<in> set (kids' p) \<longleftrightarrow> c \<in> L \<and> par' c = Some p" if "p \<in> L" "run' p" for p c
    using tree_okD(6) [OF ok, of p c] that eq by metis
qed (use tree_okD(1,2,5) [OF ok] eq in auto)

lemma tree_ok_create:
  assumes ok: "tree_ok ps L pid run par kids" and new: "p \<notin> L" "i \<notin> pid ` L" and c: "c \<in> L" "run c"
  shows "tree_ok (p # ps) (insert p L) (pid(p := i)) (run(p := True)) (par(p := Some c)) (kids(p := [], c := p # kids c))"
proof (rule tree_okI)
  have pc: "p \<noteq> c" using new c by auto
  have np: "par x \<noteq> Some p" if "x \<in> L" for x using tree_okD(4) [OF ok that] new(1) by blast
  show "distinct (p # ps)" "set (p # ps) = insert p L" using tree_okD(1,2) [OF ok] new(1) by auto
  show "inj_on (pid(p := i)) (insert p L)" using tree_okD(3) [OF ok] new by (auto simp: inj_on_def)
  show "q \<in> insert p L \<and> (run(p := True)) q" if "x \<in> insert p L" "(par(p := Some c)) x = Some q" for x q
    using that c tree_okD(4) [OF ok, of x q] by (auto split: if_splits)
  show "distinct ((kids(p := [], c := p # kids c)) q)" if "q \<in> insert p L" "(run(p := True)) q" for q
    using that tree_okD(5) [OF ok] tree_okD(6) [OF ok c] new(1) c by auto
  show "x \<in> set ((kids(p := [], c := p # kids c)) q) \<longleftrightarrow> x \<in> insert p L \<and> (par(p := Some c)) x = Some q"
    if "q \<in> insert p L" "(run(p := True)) q" for q x
    using that tree_okD(6) [OF ok, of q x] np [of x] new(1) pc c by auto
qed

lemma tree_ok_first: "tree_ok [p] {p} (pid(p := i)) (run(p := True)) (par(p := None)) (kids(p := []))"
  by (simp add: tree_ok_def)

text \<open>The children of a process that exits go to another process; then nothing keeps it from dying.\<close>

lemma tree_ok_adopt:
  assumes ok: "tree_ok ps L pid run par kids" and p: "p \<in> L" "run p" and q: "q \<in> L" "run q" and pq: "p \<noteq> q"
  shows "tree_ok ps L pid (run(p := False)) (\<lambda>c. if par c = Some p then Some q else par c)
    (kids(q := rev (kids p) @ kids q))" (is "tree_ok ps L pid ?run ?par ?kids")
proof (rule tree_okI)
  show "r \<in> L \<and> ?run r" if "c \<in> L" "?par c = Some r" for c r
    using that tree_okD(4) [OF ok, of c r] q pq by (auto split: if_splits)
  show "distinct (?kids r)" if "r \<in> L" "?run r" for r
    using that tree_okD(5) [OF ok] tree_okD(6) [OF ok p] tree_okD(6) [OF ok q] p q pq by (auto split: if_splits)
  show "c \<in> set (?kids r) \<longleftrightarrow> c \<in> L \<and> ?par c = Some r" if "r \<in> L" "?run r" for r c
    using that tree_okD(6) [OF ok, of r c] tree_okD(6) [OF ok p, of c] by (auto split: if_splits)
qed (use tree_okD(1-3) [OF ok] in auto)

text \<open>A dead process leaves the tree.\<close>

lemma tree_ok_remove:
  assumes ok: "tree_ok ps L pid run par kids" and c: "c \<in> L" "\<not> run c" "par c = Some p"
  shows "tree_ok (remove1 c ps) (L - {c}) pid run par (kids(p := remove1 c (kids p)))"
proof (rule tree_okI)
  have p: "p \<in> L" "run p" "p \<noteq> c" using tree_okD(4) [OF ok c(1,3)] c(2) by auto
  show "distinct (remove1 c ps)" "set (remove1 c ps) = L - {c}" using tree_okD(1,2) [OF ok] by auto
  show "inj_on pid (L - {c})" using tree_okD(3) [OF ok] by (auto simp: inj_on_def)
  show "r \<in> L - {c} \<and> run r" if "x \<in> L - {c}" "par x = Some r" for x r
    using that tree_okD(4) [OF ok, of x r] c(2) by auto
  show "distinct ((kids(p := remove1 c (kids p))) r)" if "r \<in> L - {c}" "run r" for r
    using that tree_okD(5) [OF ok] by (auto intro: distinct_remove1)
  show "x \<in> set ((kids(p := remove1 c (kids p))) r) \<longleftrightarrow> x \<in> L - {c} \<and> par x = Some r" if "r \<in> L - {c}" "run r" for r x
    using that tree_okD(6) [OF ok, of r x] tree_okD(5) [OF ok p(1,2)] c(3) by auto
qed

definition tree_inv :: "kstate \<Rightarrow> bool" where
  "tree_inv s \<longleftrightarrow> tree_ok (proc_list s) (dom (procs s)) (\<lambda>p. p_pid (the (procs s p)))
     (\<lambda>p. p_state (the (procs s p)) = PROC_RUNNING) (\<lambda>p. p_pproc (the (procs s p)))
     (\<lambda>p. p_children (the (procs s p)))"

lemma tree_inv_list: "tree_inv s \<Longrightarrow> p \<in> set (proc_list s) \<longleftrightarrow> procs s p \<noteq> None"
  by (auto simp: tree_inv_def tree_ok_def)

lemma pid_used_tree: "tree_inv s \<Longrightarrow> pid_used s i \<longleftrightarrow> i \<in> (\<lambda>p. p_pid (the (procs s p))) ` dom (procs s)"
  unfolding pid_used_def image_def using tree_inv_list [of s] by force

section \<open>The routines that process creation relies on\<close>

text \<open>
  Page directories change only page tables; the reference that \<^verbatim>\<open>vget\<close>
  takes on the root directory changes only vnodes, and succeeds on a live one.
  The slab allocators give cells that are not in use.
\<close>

definition pagedir_ok :: "kenv \<Rightarrow> bool" where
  "pagedir_ok E \<longleftrightarrow> (\<forall>s. \<exists>t. snd (pt_create_pagedir E s) = s\<lparr>pagetabs := t\<rparr>) \<and>
     (\<forall>pd s. \<exists>t. pt_destroy_pagedir E pd s = s\<lparr>pagetabs := t\<rparr>)"

text \<open>\<^verbatim>\<open>pt_destroy_pagedir\<close> frees a page directory: it maps nothing any more, and no other one changes.\<close>

definition pagedir_freed :: "kenv \<Rightarrow> bool" where
  "pagedir_freed E \<longleftrightarrow> (\<forall>pd s. pt_destroy_pagedir E (Some pd) s = s\<lparr>pagetabs := (pagetabs s)(pd := (\<lambda>_. None))\<rparr>)"

definition root_ok :: "kenv \<Rightarrow> bool" where
  "root_ok E \<longleftrightarrow> (\<forall>v s. vnodes s v \<noteq> None \<longrightarrow> (\<exists>t. vget_root E v s = Inr (s\<lparr>vnodes := t\<rparr>)))"

lemma pagedir_okD:
  assumes "pagedir_ok E"
  obtains pd t where "pt_create_pagedir E s = (pd, s\<lparr>pagetabs := t\<rparr>)"
  using assms prod.collapse [of "pt_create_pagedir E s"] unfolding pagedir_ok_def by metis

lemma upd_proc_sel [simp]:
  "procs (upd_proc p f s) = (procs s)(p := map_option f (procs s p))" "proc_list (upd_proc p f s) = proc_list s"
  "curproc (upd_proc p f s) = curproc s" "curthr (upd_proc p f s) = curthr s" "next_pid (upd_proc p f s) = next_pid s"
  "threads (upd_proc p f s) = threads s" "queues (upd_proc p f s) = queues s" "vmmaps (upd_proc p f s) = vmmaps s"
  "vmareas (upd_proc p f s) = vmareas s" "mmobjs (upd_proc p f s) = mmobjs s" "pagetabs (upd_proc p f s) = pagetabs s"
  "files (upd_proc p f s) = files s" "vnodes (upd_proc p f s) = vnodes s" "vfs_root_vn (upd_proc p f s) = vfs_root_vn s"
  "proc_initproc (upd_proc p f s) = proc_initproc s" "pframes (upd_proc p f s) = pframes s"
  by (simp_all add: upd_proc_def)

lemma upd_map_proc_sel [simp]:
  "procs (upd_map m f s) = procs s" "proc_list (upd_map m f s) = proc_list s" "curproc (upd_map m f s) = curproc s"
  "vnodes (upd_map m f s) = vnodes s" "vfs_root_vn (upd_map m f s) = vfs_root_vn s" "next_pid (upd_map m f s) = next_pid s"
  by (simp_all add: upd_map_def)

lemma proc_set_cwd_ok:
  assumes "root_ok E" and "\<forall>v. vfs_root_vn s = Some v \<longrightarrow> vnodes s v \<noteq> None" and "procs s p = Some x"
  shows "\<exists>s'. proc_set_cwd E p pid s = Inr s' \<and> proc_list s' = proc_list s \<and> curproc s' = curproc s \<and>
    next_pid s' = next_pid s \<and> vmmaps s' = vmmaps s \<and>
    procs s' = (procs s)(p \<mapsto> (if pid > 1 \<and> vfs_root_vn s \<noteq> None then x\<lparr>p_cwd := vfs_root_vn s\<rparr> else x))"
proof (cases "vfs_root_vn s")
  case None
  then show ?thesis using assms(3) by (auto simp: proc_set_cwd_def)
next
  case (Some v)
  let ?s = "upd_proc p (\<lambda>x. x\<lparr>p_cwd := Some v\<rparr>) s"
  have "vnodes ?s v \<noteq> None" using assms(2) Some by simp
  then obtain t where "vget_root E v ?s = Inr (?s\<lparr>vnodes := t\<rparr>)" using assms(1) unfolding root_ok_def by blast
  then show ?thesis using Some assms(3) by (cases "pid > 1") (auto simp: proc_set_cwd_def)
qed

lemma proc_set_vm_ok:
  assumes "vmmap_slab X s = Some m" and "curproc s = Some c" and "procs s c = Some cr" and "procs s p = Some x"
    and "pid \<noteq> PID_IDLE K" and "p \<noteq> c"
  shows "\<exists>s'. proc_set_vm K X p pid s = Inr s' \<and> proc_list s' = proc_list s \<and> curproc s' = curproc s \<and>
    next_pid s' = next_pid s \<and> vmmaps s' = (vmmaps s)(m \<mapsto> \<lparr>vmm_list = [], vmm_proc = Some p\<rparr>) \<and>
    procs s' = (procs s)(p \<mapsto> x\<lparr>p_vmmap := Some m, p_brk := p_brk cr, p_start_brk := p_start_brk cr\<rparr>)"
  using assms by (simp add: proc_set_vm_def vmmap_create_def Let_def upd_map_def)

section \<open>Creating a process\<close>

text \<open>
  The new process as \<^verbatim>\<open>proc_create\<close> leaves it: running, without threads,
  children and open files, in an empty address space, with the break of its
  parent, and in the root directory once there is one.
\<close>

definition created :: "kconsts \<Rightarrow> int \<Rightarrow> string \<Rightarrow> ptr \<Rightarrow> proc \<Rightarrow> ptr option \<Rightarrow> ptr option \<Rightarrow> ptr \<Rightarrow> proc" where
  "created K pid name c cr root pd m =
     (new_proc K pid name (Some c))\<lparr>p_pagedir := pd, p_cwd := (if pid > 1 then root else None), p_vmmap := Some m,
        p_brk := p_brk cr, p_start_brk := p_start_brk cr\<rparr>"

lemma created_sel [simp]:
  "p_pid (created K pid name c cr root pd m) = pid" "p_state (created K pid name c cr root pd m) = PROC_RUNNING"
  "p_pproc (created K pid name c cr root pd m) = Some c" "p_children (created K pid name c cr root pd m) = []"
  "p_vmmap (created K pid name c cr root pd m) = Some m" "p_threads (created K pid name c cr root pd m) = []"
  by (simp_all add: created_def new_proc_def)

lemma proc_create_effect:
  assumes E: "pagedir_ok E" "root_ok E" and root: "\<forall>v. vfs_root_vn s = Some v \<longrightarrow> vnodes s v \<noteq> None"
    and p: "proc_slab E s = Some p" "procs s p = None" and c: "curproc s = Some c" "procs s c = Some cr"
    and g: "proc_getid K s = Inr (pid, s\<lparr>next_pid := k\<rparr>)" "pid \<noteq> PID_IDLE K" "pid \<noteq> PID_INIT K"
    and m: "\<forall>s'. vmmaps s' = vmmaps s \<longrightarrow> vmmap_slab X s' = Some m"
  shows "\<exists>s' pd. proc_create K X E name s = Inr (p, s') \<and> proc_list s' = p # proc_list s \<and> curproc s' = curproc s \<and>
    next_pid s' = k \<and> vmmaps s' = (vmmaps s)(m \<mapsto> \<lparr>vmm_list = [], vmm_proc = Some p\<rparr>) \<and>
    procs s' = (procs s)(c \<mapsto> cr\<lparr>p_children := p # p_children cr\<rparr>, p \<mapsto> created K pid name c cr (vfs_root_vn s) pd m)"
proof -
  let ?s1 = "s\<lparr>next_pid := k, procs := (procs s)(p \<mapsto> new_proc K pid name (Some c)),
     proc_initproc := (if pid = 1 then Some p else proc_initproc s)\<rparr>"
  let ?s2 = "sched_queue_init (Waitq p) (upd_proc c (\<lambda>x. x\<lparr>p_children := p # p_children x\<rparr>) ?s1)"
  obtain pd t where pd: "pt_create_pagedir E ?s2 = (pd, ?s2\<lparr>pagetabs := t\<rparr>)" using E(1) by (rule pagedir_okD)
  let ?s4 = "upd_proc p (\<lambda>x. x\<lparr>p_pagedir := pd\<rparr>) (?s2\<lparr>pagetabs := t\<rparr>)"
  let ?s5 = "?s4\<lparr>proc_list := p # proc_list ?s4\<rparr>"
  have pc: "p \<noteq> c" using p c by auto
  have s5: "procs ?s5 = (procs s)(c \<mapsto> cr\<lparr>p_children := p # p_children cr\<rparr>, p \<mapsto> (new_proc K pid name (Some c))\<lparr>p_pagedir := pd\<rparr>)"
    "proc_list ?s5 = p # proc_list s" "curproc ?s5 = Some c" "next_pid ?s5 = k" "vmmaps ?s5 = vmmaps s"
    "vfs_root_vn ?s5 = vfs_root_vn s" "vnodes ?s5 = vnodes s"
    using pc c p by (auto simp: sched_queue_init_def)
  obtain s6 where s6: "proc_set_cwd E p pid ?s5 = Inr s6" "proc_list s6 = p # proc_list s" "curproc s6 = Some c" "next_pid s6 = k"
    "vmmaps s6 = vmmaps s" and procs6: "procs s6 = (procs ?s5)(p \<mapsto> (if pid > 1 \<and> vfs_root_vn s \<noteq> None
       then (new_proc K pid name (Some c))\<lparr>p_pagedir := pd, p_cwd := vfs_root_vn s\<rparr>
       else (new_proc K pid name (Some c))\<lparr>p_pagedir := pd\<rparr>))"
    using proc_set_cwd_ok [OF E(2), of ?s5 p "(new_proc K pid name (Some c))\<lparr>p_pagedir := pd\<rparr>" pid] root unfolding s5 by auto
  have c6: "procs s6 c = Some (cr\<lparr>p_children := p # p_children cr\<rparr>)" unfolding procs6 s5 using pc by simp
  have "vmmap_slab X s6 = Some m" using m s6(5) by blast
  then obtain s7 where s7: "proc_set_vm K X p pid s6 = Inr s7" "proc_list s7 = p # proc_list s" "curproc s7 = Some c" "next_pid s7 = k"
    "vmmaps s7 = (vmmaps s)(m \<mapsto> \<lparr>vmm_list = [], vmm_proc = Some p\<rparr>)"
    "procs s7 = (procs s6)(p \<mapsto> (the (procs s6 p))\<lparr>p_vmmap := Some m, p_brk := p_brk cr, p_start_brk := p_start_brk cr\<rparr>)"
    using proc_set_vm_ok [OF _ s6(3) c6 _ g(2) pc, of X m "the (procs s6 p)"] s6 procs6 by auto
  have "procs s7 = (procs s)(c \<mapsto> cr\<lparr>p_children := p # p_children cr\<rparr>, p \<mapsto> created K pid name c cr (vfs_root_vn s) pd m)"
    unfolding s7 procs6 s5 created_def by (auto simp: fun_eq_iff new_proc_def)
  moreover have "proc_create K X E name s = Inr (p, s7)"
    using p g c s6(1) s7(1) pd by (simp add: proc_create_def Let_def split del: if_split cong: if_cong)
  ultimately show ?thesis using s7(2-5) c(1) by (intro exI [of _ s7] exI [of _ pd]) simp
qed


lemma tree_inv_create:
  assumes t: "tree_inv s" and p: "procs s p = None" and c: "procs s c = Some cr" "p_state cr = PROC_RUNNING"
    and i: "\<not> pid_used s (p_pid np)" and np: "p_state np = PROC_RUNNING" "p_pproc np = Some c" "p_children np = []"
    and s': "proc_list s' = p # proc_list s" "procs s' = (procs s)(c \<mapsto> cr\<lparr>p_children := p # p_children cr\<rparr>, p \<mapsto> np)"
  shows "tree_inv s'"
proof -
  have pc: "p \<noteq> c" using p c by auto
  have dom: "dom (procs s') = insert p (dom (procs s))" unfolding s' using c by auto
  show ?thesis unfolding tree_inv_def dom s'(1)
  proof (rule tree_ok_cong [OF tree_ok_create [OF t [unfolded tree_inv_def], of p "p_pid np" c]])
    show "p \<notin> dom (procs s)" using p by auto
    show "p_pid np \<notin> (\<lambda>p. p_pid (the (procs s p))) ` dom (procs s)" using i pid_used_tree [OF t] by blast
  qed (use c np pc in \<open>auto simp: s'(2)\<close>)
qed

section \<open>Handing the children to init\<close>

lemma reparent_loop_effect:
  assumes "\<forall>c\<in>set cs. procs s c \<noteq> None" and "procs s ini \<noteq> None"
  shows "reparent_loop ini cs s = Inr (s\<lparr>procs := \<lambda>x. map_option (\<lambda>pr. pr\<lparr>
     p_children := (if x = ini then rev cs @ p_children pr else p_children pr),
     p_pproc := (if x \<in> set cs then Some ini else p_pproc pr)\<rparr>) (procs s x)\<rparr>)"
  using assms
proof (induction cs arbitrary: s)
  case Nil
  have "map_option (\<lambda>pr. pr\<lparr>p_children := if x = ini then rev [] @ p_children pr else p_children pr,
     p_pproc := if x \<in> set [] then Some ini else p_pproc pr\<rparr>) (procs s x) = procs s x" for x
    by (cases "procs s x") simp_all
  then have "(\<lambda>x. map_option (\<lambda>pr. pr\<lparr>p_children := if x = ini then rev [] @ p_children pr else p_children pr,
     p_pproc := if x \<in> set [] then Some ini else p_pproc pr\<rparr>) (procs s x)) = procs s" by (rule ext)
  then show ?case by simp
next
  case (Cons c cs)
  let ?s = "upd_proc c (\<lambda>x. x\<lparr>p_pproc := Some ini\<rparr>) (upd_proc ini (\<lambda>x. x\<lparr>p_children := c # p_children x\<rparr>) s)"
  have 1: "reparent_loop ini (c # cs) s = reparent_loop ini cs ?s" using Cons.prems by auto
  have 2: "\<forall>c\<in>set cs. procs ?s c \<noteq> None" "procs ?s ini \<noteq> None" using Cons.prems by auto
  have 3: "(\<lambda>x. map_option (\<lambda>pr. pr\<lparr>p_children := (if x = ini then rev cs @ p_children pr else p_children pr),
      p_pproc := (if x \<in> set cs then Some ini else p_pproc pr)\<rparr>) (procs ?s x)) =
    (\<lambda>x. map_option (\<lambda>pr. pr\<lparr>p_children := (if x = ini then rev (c # cs) @ p_children pr else p_children pr),
      p_pproc := (if x \<in> set (c # cs) then Some ini else p_pproc pr)\<rparr>) (procs s x))"
    by (auto simp: fun_eq_iff option.map_comp comp_def intro!: option.map_cong)
  show ?case unfolding 1 Cons.IH [OF 2] 3 by (simp add: upd_proc_def)
qed

lemma reparent_effect:
  assumes t: "tree_inv s" and p: "procs s p = Some pr" "p_state pr = PROC_RUNNING" and ini: "procs s ini \<noteq> None" "p \<noteq> ini"
  shows "reparent p ini s = Inr (s\<lparr>procs := \<lambda>x. map_option (\<lambda>q. q\<lparr>
     p_children := (if x = ini then rev (p_children pr) @ p_children q else p_children q),
     p_pproc := (if x \<in> set (p_children pr) then Some ini else p_pproc q)\<rparr>) (procs s x)\<rparr>)"
proof -
  have "\<forall>c\<in>set (p_children pr). procs s c \<noteq> None"
    using tree_okD(6) [OF t [unfolded tree_inv_def], of p] p by auto
  from reparent_loop_effect [OF this ini(1)] show ?thesis using p ini(2) by (simp add: reparent_def)
qed

lemma tree_inv_exit:
  assumes t: "tree_inv s" and p: "procs s p = Some pr" "p_state pr = PROC_RUNNING"
    and ini: "procs s ini = Some ir" "p_state ir = PROC_RUNNING" "p \<noteq> ini"
    and s': "proc_list s' = proc_list s" "dom (procs s') = dom (procs s)"
    and q: "\<And>x q. procs s x = Some q \<Longrightarrow> \<exists>q'. procs s' x = Some q' \<and> p_pid q' = p_pid q \<and>
      p_state q' = (if x = p then PROC_DEAD else p_state q) \<and>
      p_children q' = (if x = ini then rev (p_children pr) @ p_children q else p_children q) \<and>
      p_pproc q' = (if x \<in> set (p_children pr) then Some ini else p_pproc q)"
  shows "tree_inv s'"
proof -
  have kids: "x \<in> set (p_children pr) \<longleftrightarrow> p_pproc (the (procs s x)) = Some p" if "x \<in> dom (procs s)" for x
    using tree_okD(6) [OF t [unfolded tree_inv_def], of p x] p that by auto
  show ?thesis unfolding tree_inv_def s'
  proof (rule tree_ok_cong [OF tree_ok_adopt [OF t [unfolded tree_inv_def], of p ini]])
    fix x assume x: "x \<in> dom (procs s)"
    then obtain y where y: "procs s x = Some y" by auto
    from q [OF y] kids [OF x] show "p_pid (the (procs s' x)) = p_pid (the (procs s x)) \<and>
       (p_state (the (procs s' x)) = PROC_RUNNING) = ((\<lambda>p. p_state (the (procs s p)) = PROC_RUNNING)(p := False)) x \<and>
       p_pproc (the (procs s' x)) = (if p_pproc (the (procs s x)) = Some p then Some ini else p_pproc (the (procs s x))) \<and>
       p_children (the (procs s' x)) = ((\<lambda>p. p_children (the (procs s p)))
         (ini := rev (p_children (the (procs s p))) @ p_children (the (procs s ini)))) x"
      using y p ini by auto
  qed (use p ini in auto)
qed

section \<open>Reaping\<close>

lemma find_dead_find:
  assumes "\<forall>c\<in>set cs. procs s c \<noteq> None"
  shows "find_dead s cs = Inr (List.find (\<lambda>c. p_state (the (procs s c)) = PROC_DEAD) cs)"
  using assms by (induction cs) auto

lemma find_child_find:
  assumes "\<forall>c\<in>set cs. procs s c \<noteq> None"
  shows "find_child s pid cs = Inr (List.find (\<lambda>c. p_pid (the (procs s c)) = pid) cs)"
  using assms by (induction cs) auto

text \<open>
  A zombie as \<^verbatim>\<open>proc_cleanup\<close> leaves it: dead, with its page directory, and
  with its one thread \<open>t\<close>, which still has its kernel stack.
\<close>

definition zombie :: "kstate \<Rightarrow> ptr \<Rightarrow> ptr \<Rightarrow> bool" where
  "zombie s c t \<longleftrightarrow> (case procs s c of None \<Rightarrow> False
     | Some ch \<Rightarrow> p_state ch = PROC_DEAD \<and> p_pagedir ch \<noteq> None \<and> p_threads ch = [t] \<and>
         (case threads s t of None \<Rightarrow> False | Some thr \<Rightarrow> kt_kstack thr \<noteq> None \<and> kt_plink thr = Some c))"

lemma zombieE:
  assumes "zombie s c t"
  obtains ch thr where "procs s c = Some ch" "p_state ch = PROC_DEAD" "p_pagedir ch \<noteq> None" "p_threads ch = [t]"
    "threads s t = Some thr" "kt_kstack thr \<noteq> None" "kt_plink thr = Some c"
  using assms unfolding zombie_def by (auto split: option.splits)

text \<open>
  What reaping \<open>c\<close> leaves: \<open>c\<close>, its thread and its page directory are gone, and the
  parent no longer lists it.
\<close>

definition reaped :: "ptr \<Rightarrow> ptr \<Rightarrow> ptr \<Rightarrow> kstate \<Rightarrow> kstate \<Rightarrow> bool" where
  "reaped cur c t s s' \<longleftrightarrow> procs s' = (procs s)(cur := map_option (\<lambda>x. x\<lparr>p_children := remove1 c (p_children x)\<rparr>) (procs s cur), c := None) \<and>
     threads s' = (threads s)(t := None) \<and> proc_list s' = remove1 c (proc_list s) \<and> curproc s' = curproc s \<and> curthr s' = curthr s \<and>
     pagetabs s' = (pagetabs s)(the (p_pagedir (the (procs s c))) := (\<lambda>_. None))"

lemma free_proc_sel:
  assumes "pagedir_freed E" "pd \<noteq> None"
  shows "pagetabs (free_proc E c pd s) = (pagetabs s)(the pd := (\<lambda>_. None))" "procs (free_proc E c pd s) = (procs s)(c := None)" "threads (free_proc E c pd s) = threads s"
    "proc_list (free_proc E c pd s) = proc_list s" "curproc (free_proc E c pd s) = curproc s" "curthr (free_proc E c pd s) = curthr s"
  using assms by (auto simp: free_proc_def Let_def pagedir_freed_def)

lemma unlink_proc_sel [simp]:
  "procs (unlink_proc cur c s) = (procs s)(cur := map_option (\<lambda>x. x\<lparr>p_children := remove1 c (p_children x)\<rparr>) (procs s cur))"
  "threads (unlink_proc cur c s) = threads s" "proc_list (unlink_proc cur c s) = remove1 c (proc_list s)"
  "pagetabs (unlink_proc cur c s) = pagetabs s" "curproc (unlink_proc cur c s) = curproc s" "curthr (unlink_proc cur c s) = curthr s"
  by (simp_all add: unlink_proc_def)

lemma dispose_any_reaps:
  assumes "pagedir_freed E" and "zombie s c t" and "procs s c = Some ch" and "cur \<noteq> c"
  shows "\<exists>s'. dispose_any E cur c ch s = Inr (Done (p_pid ch) (Some (p_status ch)), s') \<and> reaped cur c t s s'"
  using assms(2)
proof (rule zombieE)
  fix ch' thr assume z: "procs s c = Some ch'" "p_pagedir ch' \<noteq> None" "p_threads ch' = [t]" "threads s t = Some thr"
    "kt_kstack thr \<noteq> None" "kt_plink thr = Some c"
  then show ?thesis using assms(3,4)
    by (simp add: dispose_any_def first_thread_def kthread_destroy_def reaped_def free_proc_sel [OF assms(1)])
qed

lemma dispose_child_reaps:
  assumes "pagedir_freed E" and "zombie s c t" and "procs s c = Some ch" and "cur \<noteq> c" and "p_pid ch = pid"
  shows "\<exists>s'. dispose_child E cur c ch pid s = Inr (Done (p_pid ch) (Some (p_status ch)), s') \<and> reaped cur c t s s'"
  using assms(2)
proof (rule zombieE)
  fix ch' thr assume z: "procs s c = Some ch'" "p_pagedir ch' \<noteq> None" "p_threads ch' = [t]" "threads s t = Some thr"
    "kt_kstack thr \<noteq> None" "kt_plink thr = Some c"
  then show ?thesis using assms(3-5)
    by (simp add: dispose_child_def first_thread_def kthread_destroy_def reaped_def free_proc_sel [OF assms(1)])
qed

lemma tree_inv_reaped:
  assumes t: "tree_inv s" and c: "procs s c = Some ch" "p_state ch = PROC_DEAD" "p_pproc ch = Some cur" and r: "reaped cur c x s s'"
  shows "tree_inv s'"
proof -
  have cur: "cur \<in> dom (procs s)" "p_state (the (procs s cur)) = PROC_RUNNING"
    using tree_okD(4) [OF t [unfolded tree_inv_def], of c cur] c by auto
  then have ne: "cur \<noteq> c" using c by auto
  have s': "procs s' = (procs s)(cur := map_option (\<lambda>x. x\<lparr>p_children := remove1 c (p_children x)\<rparr>) (procs s cur), c := None)"
    "proc_list s' = remove1 c (proc_list s)" using r by (auto simp: reaped_def)
  have dom: "dom (procs s') = dom (procs s) - {c}" unfolding s' using cur ne by auto
  show ?thesis unfolding tree_inv_def dom s'(2)
    by (rule tree_ok_cong [OF tree_ok_remove [OF t [unfolded tree_inv_def], of c cur]])
      (use c cur ne in \<open>auto simp: s'(1)\<close>)
qed

lemma tree_kids_live:
  assumes "tree_inv s" and "procs s cur = Some pr" and "p_state pr = PROC_RUNNING"
  shows "\<forall>c\<in>set (p_children pr). procs s c \<noteq> None \<and> p_pproc (the (procs s c)) = Some cur"
  using tree_okD(6) [OF assms(1) [unfolded tree_inv_def], of cur] assms(2,3) by auto

lemma tree_find_child:
  assumes t: "tree_inv s" and cur: "procs s cur = Some pr" "p_state pr = PROC_RUNNING" and c: "c \<in> set (p_children pr)"
  shows "find_child s (p_pid (the (procs s c))) (p_children pr) = Inr (Some c)"
proof -
  note live = tree_kids_live [OF t cur]
  have inj: "inj_on (\<lambda>p. p_pid (the (procs s p))) (set (p_children pr))"
    by (rule inj_on_subset [OF tree_okD(3) [OF t [unfolded tree_inv_def]]]) (use live in auto)
  have "List.find (\<lambda>x. p_pid (the (procs s x)) = p_pid (the (procs s c))) (p_children pr) = Some c"
  proof (cases "List.find (\<lambda>x. p_pid (the (procs s x)) = p_pid (the (procs s c))) (p_children pr)")
    case None
    then show ?thesis using c by (auto simp: find_None_iff)
  next
    case (Some d)
    then have "d \<in> set (p_children pr)" "p_pid (the (procs s d)) = p_pid (the (procs s c))"
      by (auto simp: find_Some_iff)
    then have "d = c" using inj c by (auto simp: inj_on_def)
    then show ?thesis using Some by simp
  qed
  then show ?thesis using find_child_find live by auto
qed

lemma waitpid_reaps:
  assumes t: "tree_inv s" and E: "pagedir_freed E" and cur: "curproc s = Some cur" "procs s cur = Some pr" "p_state pr = PROC_RUNNING"
    and z: "zombie s c x" and ch: "procs s c = Some ch"
    and w: "pid = - 1 \<and> List.find (\<lambda>c. p_state (the (procs s c)) = PROC_DEAD) (p_children pr) = Some c \<or>
      0 < pid \<and> pid = p_pid ch \<and> c \<in> set (p_children pr)"
  shows "\<exists>s'. do_waitpid K E irqs pid 0 s = Inr (Done (p_pid ch) (Some (p_status ch)), s') \<and> reaped cur c x s s' \<and> tree_inv s'"
proof -
  note live = tree_kids_live [OF t cur(2,3)]
  have dead: "p_state ch = PROC_DEAD" using z ch by (auto elim: zombieE)
  then have ne: "cur \<noteq> c" using ch cur by auto
  have c: "c \<in> set (p_children pr)" using w by (auto simp: find_Some_iff)
  then have kids: "p_children pr \<noteq> []" and par: "p_pproc ch = Some cur" using live ch by auto
  from w have "\<exists>s'. do_waitpid K E irqs pid 0 s = Inr (Done (p_pid ch) (Some (p_status ch)), s') \<and> reaped cur c x s s'"
  proof
    assume a: "pid = - 1 \<and> List.find (\<lambda>c. p_state (the (procs s c)) = PROC_DEAD) (p_children pr) = Some c"
    then have "do_waitpid K E irqs pid 0 s = dispose_any E cur c ch s"
      using cur kids ch find_dead_find [of "p_children pr" s] live by (simp add: do_waitpid_def waitpid_any_def)
    with dispose_any_reaps [OF E z ch ne] show ?thesis by simp
  next
    assume a: "0 < pid \<and> pid = p_pid ch \<and> c \<in> set (p_children pr)"
    then have "do_waitpid K E irqs pid 0 s = dispose_child E cur c ch pid s"
      using cur kids ch tree_find_child [OF t cur(2,3) c] dead by (simp add: do_waitpid_def waitpid_child_def)
    with dispose_child_reaps [OF E z ch ne, of pid] a show ?thesis by simp
  qed
  then show ?thesis using tree_inv_reaped [OF t ch dead par] by blast
qed

text \<open>The waiter goes to sleep on the queue of its process.\<close>

lemma waitpid_sleeps:
  assumes t: "tree_inv s" and si: "sched_inv s" and thr: "curthr s = Some k" "threads s k = Some th" "kt_wchan th = None"
    and run: "waiting Runq s = r # rs" and cur: "curproc s = Some cur" "procs s cur = Some pr" "p_state pr = PROC_RUNNING"
    and w: "pid = - 1 \<and> p_children pr \<noteq> [] \<and> (\<forall>c\<in>set (p_children pr). p_state (the (procs s c)) \<noteq> PROC_DEAD) \<and> sl = None \<or>
      (\<exists>c. 0 < pid \<and> c \<in> set (p_children pr) \<and> pid = p_pid (the (procs s c)) \<and> p_state (the (procs s c)) \<noteq> PROC_DEAD \<and> sl = Some c)"
  shows "\<exists>s'. do_waitpid K E irqs pid 0 s = Inr (Slept sl, s') \<and> sched_inv s' \<and> curthr s' = Some r \<and>
    waiting (Waitq cur) s' = waiting (Waitq cur) s @ [k]"
proof -
  note live = tree_kids_live [OF t cur(2,3)]
  obtain s' where s': "sched_sleep_on K irqs (Waitq cur) s = Inr s'" "sched_inv s'" "curthr s' = Some r"
    "waiting (Waitq cur) s' = waiting (Waitq cur) s @ [k]"
    using sched_sleep_on_next [OF si thr _ run, of "Waitq cur" K irqs] by auto
  from w have "do_waitpid K E irqs pid 0 s = Inr (Slept sl, s')"
  proof
    assume a: "pid = - 1 \<and> p_children pr \<noteq> [] \<and> (\<forall>c\<in>set (p_children pr). p_state (the (procs s c)) \<noteq> PROC_DEAD) \<and> sl = None"
    then have "List.find (\<lambda>c. p_state (the (procs s c)) = PROC_DEAD) (p_children pr) = None" by (simp add: find_None_iff)
    then show ?thesis
      using cur a s'(1) find_dead_find [of "p_children pr" s] live by (simp add: do_waitpid_def waitpid_any_def)
  next
    assume "\<exists>c. 0 < pid \<and> c \<in> set (p_children pr) \<and> pid = p_pid (the (procs s c)) \<and> p_state (the (procs s c)) \<noteq> PROC_DEAD \<and> sl = Some c"
    then obtain c where a: "0 < pid" "c \<in> set (p_children pr)" "pid = p_pid (the (procs s c))"
      "p_state (the (procs s c)) \<noteq> PROC_DEAD" "sl = Some c" by blast
    then obtain ch where "procs s c = Some ch" using live by blast
    moreover have "p_children pr \<noteq> []" using a(2) by auto
    ultimately show ?thesis
      using cur a s'(1) tree_find_child [OF t cur(2,3) a(2)] by (simp add: do_waitpid_def waitpid_child_def)
  qed
  then show ?thesis using s' by blast
qed

lemma waitpid_errors:
  assumes t: "tree_inv s" and cur: "curproc s = Some cur" "procs s cur = Some pr" "p_state pr = PROC_RUNNING"
  shows "options \<noteq> 0 \<or> pid = 0 \<or> pid < - 1 \<Longrightarrow> do_waitpid K E irqs pid options s = Inr (Done (- errno K EINVAL) None, s)"
    and "pid = - 1 \<and> p_children pr = [] \<or> 0 < pid \<and> (\<forall>c\<in>set (p_children pr). p_pid (the (procs s c)) \<noteq> pid) \<Longrightarrow>
      do_waitpid K E irqs pid 0 s = Inr (Done (- errno K ECHILD) None, s)"
proof -
  note live = tree_kids_live [OF t cur(2,3)]
  show "do_waitpid K E irqs pid options s = Inr (Done (- errno K EINVAL) None, s)" if "options \<noteq> 0 \<or> pid = 0 \<or> pid < - 1"
    using that by (auto simp: do_waitpid_def)
  assume a: "pid = - 1 \<and> p_children pr = [] \<or> 0 < pid \<and> (\<forall>c\<in>set (p_children pr). p_pid (the (procs s c)) \<noteq> pid)"
  have "find_child s pid (p_children pr) = Inr None" if "\<forall>c\<in>set (p_children pr). p_pid (the (procs s c)) \<noteq> pid"
    using that find_child_find [of "p_children pr" s pid] live by (simp add: find_None_iff)
  with a show "do_waitpid K E irqs pid 0 s = Inr (Done (- errno K ECHILD) None, s)"
    using cur by (auto simp: do_waitpid_def)
qed

text \<open>
  An exiting process wakes the thread that has waited longest for one of its
  parent's children.
\<close>

lemma wake_parent_wakes:
  assumes si: "sched_inv s" and thr: "curthr s = Some k" "threads s k = Some th" "kt_proc th = Some p"
    and p: "procs s p = Some pr" "p_pproc pr = Some par"
  shows "\<exists>s'. wake_parent K s = Inr s' \<and> sched_inv s' \<and> kern_rest s' = kern_rest s \<and> curthr s' = curthr s \<and>
    waiting (Waitq par) s' = drop 1 (waiting (Waitq par) s) \<and> waiting Runq s' = waiting Runq s @ take 1 (waiting (Waitq par) s)"
proof (cases "waiting (Waitq par) s")
  case Nil
  moreover have "sched_queue_empty (Waitq par) s"
    using si Nil by (auto simp: sched_inv_def queue_inv_def sched_queue_empty_def waiting_def)
  ultimately show ?thesis using assms by (simp add: wake_parent_def)
next
  case (Cons t ts)
  have qi: "queue_inv s" "state_ok s" using si by (auto simp: sched_inv_def)
  have ne: "\<not> sched_queue_empty (Waitq par) s"
    using si Cons by (auto simp: sched_inv_def queue_inv_def sched_queue_empty_def waiting_def)
  obtain s' where s': "sched_wakeup_on K (Waitq par) s = Inr (Some t, s')" "queue_inv s'" "state_ok s'"
    "\<forall>c. queued_except c s \<longrightarrow> queued_except c s'" "waiting (Waitq par) s' = ts" "waiting Runq s' = waiting Runq s @ [t]"
    "curthr s' = curthr s"
    using sched_wakeup_on_first [OF qi _ Cons, of K] by auto
  moreover have "wake_parent K s = Inr s'" using thr p ne s'(1) by (simp add: wake_parent_def)
  moreover have "kern_rest s' = kern_rest s" using sched_wakeup_on_rest [OF s'(1)] .
  ultimately show ?thesis using si Cons by (auto simp: sched_inv_def)
qed

section \<open>A concrete family\<close>

text \<open>
  Process 20 is idle, 21 is init, 22 a shell with the zombie 23 and the running
  child 24; the shell's thread is current.  The routines outside the repository
  count references and hand out free cells.
\<close>

definition demo_env :: kenv where
  "demo_env = \<lparr>proc_slab = (\<lambda>s. free_cell 400 (procs s)), kthread_slab = (\<lambda>s. free_cell 500 (threads s)),
     page_alloc_n = (\<lambda>s. Some 0), pt_create_pagedir = (\<lambda>s. (Some 40, s)), pt_destroy_pagedir = (\<lambda>pd s. s\<lparr>pagetabs := (pagetabs s)(the pd := (\<lambda>_. None))\<rparr>),
     pt_virt_to_phys = (\<lambda>a. a),
     context_setup = (\<lambda>f a b st sz pd. zero_context\<lparr>c_eip := f, c_kstacksz := sz, c_pdptr := pd\<rparr>),
     fget = (\<lambda>fd s. Inr (None, s)),
     fput = (\<lambda>f s. Inr (s\<lparr>files := (files s)(f := map_option (\<lambda>x. x\<lparr>f_refcount := f_refcount x - 1\<rparr>) (files s f))\<rparr>)),
     fref = (\<lambda>f s. Inr (s\<lparr>files := (files s)(f := map_option (\<lambda>x. x\<lparr>f_refcount := f_refcount x + 1\<rparr>) (files s f))\<rparr>)),
     vref = (\<lambda>v s. Inr (s\<lparr>vnodes := (vnodes s)(v := map_option (\<lambda>x. x\<lparr>vn_refcount := vn_refcount x + 1\<rparr>) (vnodes s v))\<rparr>)),
     vput = (\<lambda>v s. Inr (s\<lparr>vnodes := (vnodes s)(v := map_option (\<lambda>x. x\<lparr>vn_refcount := vn_refcount x - 1\<rparr>) (vnodes s v))\<rparr>)),
     vget_root = (\<lambda>v s. Inr (s\<lparr>vnodes := (vnodes s)(v := map_option (\<lambda>x. x\<lparr>vn_refcount := vn_refcount x + 1\<rparr>) (vnodes s v))\<rparr>)),
     fs_lookup = Map.empty, fs_create = Map.empty, fs_mknod = Map.empty, fs_link = Map.empty, fs_unlink = Map.empty,
     fs_mkdir = Map.empty, fs_rmdir = Map.empty, fs_readdir = Map.empty, fs_stat = Map.empty, fs_read = Map.empty,
     fs_write = Map.empty, fs_root_stat = Map.empty, bytedev_lookup = Map.empty, blockdev_lookup = Map.empty,
     cd_read = Map.empty, cd_write = Map.empty, cd_mmap = Map.empty, kmalloc_ok = (\<lambda>n s. True), kmalloc_slack = (\<lambda>n. [CHR 0x00])\<rparr>"

lemma demo_pagedir_ok: "pagedir_ok demo_env"
  unfolding pagedir_ok_def
proof (intro conjI allI)
  fix s show "\<exists>t. snd (pt_create_pagedir demo_env s) = s\<lparr>pagetabs := t\<rparr>"
    by (rule exI [of _ "pagetabs s"]) (simp add: demo_env_def)
  fix pd s show "\<exists>t. pt_destroy_pagedir demo_env pd s = s\<lparr>pagetabs := t\<rparr>" by (auto simp: demo_env_def)
qed

lemma demo_pagedir_freed: "pagedir_freed demo_env"
  by (simp add: pagedir_freed_def demo_env_def)

lemma demo_root_ok: "root_ok demo_env"
  unfolding root_ok_def by (auto simp: demo_env_def)

lemma i386_pids: "PID_IDLE i386 = 0" "PID_INIT i386 = 1" "PROC_MAX_COUNT i386 = 65536" "errno i386 = i386_errno"
  "PID_IDLE (i386\<lparr>PROC_MAX_COUNT := n\<rparr>) = 0" "PID_INIT (i386\<lparr>PROC_MAX_COUNT := n\<rparr>) = 1"
  by (simp_all add: i386_def)

definition kin :: "int \<Rightarrow> ptr option \<Rightarrow> ptr list \<Rightarrow> proc_state \<Rightarrow> int \<Rightarrow> ptr \<Rightarrow> proc" where
  "kin pid par kids st status t = \<lparr>p_pid = pid, p_comm = ''demo'', p_threads = [t], p_children = kids, p_pproc = par,
     p_status = status, p_state = st, p_pagedir = Some (t + 10), p_files = replicate 32 None, p_cwd = None, p_brk = 0,
     p_start_brk = 0, p_vmmap = None\<rparr>"

definition demo_family :: kstate where
  "demo_family = blank_state\<lparr>
     procs := [20 \<mapsto> kin 0 None [21] PROC_RUNNING 0 30, 21 \<mapsto> kin 1 (Some 20) [22] PROC_RUNNING 0 31,
       22 \<mapsto> kin 2 (Some 21) [24, 23] PROC_RUNNING 0 32, 23 \<mapsto> kin 3 (Some 22) [] PROC_DEAD 7 33,
       24 \<mapsto> kin 4 (Some 22) [] PROC_RUNNING 0 34],
     threads := [30 \<mapsto> (mk_thread KT_RUN (Some Runq))\<lparr>kt_proc := Some 20, kt_plink := Some 20\<rparr>,
       32 \<mapsto> (mk_thread KT_RUN None)\<lparr>kt_proc := Some 22, kt_plink := Some 22\<rparr>,
       33 \<mapsto> (mk_thread KT_EXITED None)\<lparr>kt_proc := Some 23, kt_plink := Some 23\<rparr>],
     queues := (\<lambda>_. empty_queue)(Runq := \<lparr>tq_list = [30], tq_size = 1\<rparr>),
     proc_list := [24, 23, 22, 21, 20], next_pid := 3, curproc := Some 22, curthr := Some 32, proc_initproc := Some 21\<rparr>"

lemmas demo_family_defs = demo_family_def kin_def mk_thread_def blank_state_def empty_queue_def

lemma demo_family_procs: "procs demo_family = [20 \<mapsto> kin 0 None [21] PROC_RUNNING 0 30, 21 \<mapsto> kin 1 (Some 20) [22] PROC_RUNNING 0 31,
       22 \<mapsto> kin 2 (Some 21) [24, 23] PROC_RUNNING 0 32, 23 \<mapsto> kin 3 (Some 22) [] PROC_DEAD 7 33,
       24 \<mapsto> kin 4 (Some 22) [] PROC_RUNNING 0 34]" "proc_list demo_family = [24, 23, 22, 21, 20]"
  "curproc demo_family = Some 22" "next_pid demo_family = 3" "vfs_root_vn demo_family = None" "vmmaps demo_family = Map.empty"
  by (simp_all add: demo_family_def blank_state_def)

lemma demo_family_dom: "dom (procs demo_family) = {20, 21, 22, 23, 24}"
  unfolding demo_family_procs by auto

lemma demo_family_proc:
  "procs demo_family 20 = Some (kin 0 None [21] PROC_RUNNING 0 30)" "procs demo_family 21 = Some (kin 1 (Some 20) [22] PROC_RUNNING 0 31)"
  "procs demo_family 22 = Some (kin 2 (Some 21) [24, 23] PROC_RUNNING 0 32)" "procs demo_family 23 = Some (kin 3 (Some 22) [] PROC_DEAD 7 33)"
  "procs demo_family 24 = Some (kin 4 (Some 22) [] PROC_RUNNING 0 34)"
  unfolding demo_family_procs by simp_all

lemma kin_sel [simp]:
  "p_pid (kin pid par kids st status t) = pid" "p_pproc (kin pid par kids st status t) = par"
  "p_children (kin pid par kids st status t) = kids" "p_state (kin pid par kids st status t) = st"
  "p_status (kin pid par kids st status t) = status"
  by (simp_all add: kin_def)

lemma demo_family_tree: "tree_inv demo_family"
  unfolding tree_inv_def demo_family_dom demo_family_procs(2)
proof (rule tree_okI)
  show "inj_on (\<lambda>p. p_pid (the (procs demo_family p))) {20, 21, 22, 23, 24}" by (simp add: demo_family_proc)
  show "p \<in> {20, 21, 22, 23, 24} \<and> p_state (the (procs demo_family p)) = PROC_RUNNING"
    if "c \<in> {20, 21, 22, 23, 24}" "p_pproc (the (procs demo_family c)) = Some p" for c p
    using that by (elim insertE) (auto simp: demo_family_proc)
  show "distinct (p_children (the (procs demo_family p)))" if "p \<in> {20, 21, 22, 23, 24}" for p
    using that by (elim insertE) (simp_all add: demo_family_proc)
  show "c \<in> set (p_children (the (procs demo_family p))) \<longleftrightarrow> c \<in> {20, 21, 22, 23, 24} \<and> p_pproc (the (procs demo_family c)) = Some p"
    if "p \<in> {20, 21, 22, 23, 24}" "p_state (the (procs demo_family p)) = PROC_RUNNING" for p c
    using that by (elim insertE) (auto simp: demo_family_proc)
qed auto

lemma demo_family_pids: "pid_used demo_family pid \<longleftrightarrow> pid \<in> {0, 1, 2, 3, 4}"
  unfolding pid_used_tree [OF demo_family_tree] demo_family_dom by (simp add: demo_family_proc)

lemma demo_family_sched: "sched_inv demo_family"
  by (auto simp: demo_family_defs sched_inv_def queue_inv_def state_ok_def queued_except_def
      sleeping_def live_state_def)

lemma free_cell_first: "m lo = None \<Longrightarrow> free_cell lo m = Some lo"
  by (simp add: free_cell_def upt_conv_Cons)

lemma demo_family_cell: "free_cell 400 (procs demo_family) = Some 400" "free_cell 100 (vmmaps demo_family) = Some 100"
  by (rule free_cell_first; simp add: demo_family_procs)+

lemma demo_family_slab:
  "proc_slab demo_env demo_family = Some 400" "\<forall>s'. vmmaps s' = vmmaps demo_family \<longrightarrow> vmmap_slab demo_ext s' = Some 100"
  by (simp_all add: demo_env_def demo_ext_def demo_family_cell)

section \<open>Properties\<close>

text \<open>C14: \<^verbatim>\<open>proc_create\<close> makes a child of the current process.  As long as some pid is free it
  returns a running process with a pid no other process has, without threads or children, at the head
  of the children of the current process and of the process list; no other process changes, and the
  process tree stays well-formed: pids differ, parents run, and the children of a running process are
  exactly those that name it as their parent.\<close>

theorem proc_create_keeps_tree:
  assumes "tree_inv s" and "pagedir_ok E" and "root_ok E" and "\<forall>v. vfs_root_vn s = Some v \<longrightarrow> vnodes s v \<noteq> None"
    and "proc_slab E s = Some p" and "procs s p = None" and "curproc s = Some c" and "procs s c = Some cr"
    and "p_state cr = PROC_RUNNING" and "0 \<le> next_pid s" and "next_pid s < PROC_MAX_COUNT K"
    and "pid_used s (PID_IDLE K)" and "pid_used s (PID_INIT K)"
    and "0 \<le> i" and "i < PROC_MAX_COUNT K" and "\<not> pid_used s i"
    and "\<forall>s'. vmmaps s' = vmmaps s \<longrightarrow> vmmap_slab X s' = Some m"
  shows "\<exists>s' np. proc_create K X E name s = Inr (p, s') \<and> tree_inv s' \<and> procs s' p = Some np \<and>
    \<not> pid_used s (p_pid np) \<and> 0 \<le> p_pid np \<and> p_pid np < PROC_MAX_COUNT K \<and> p_pproc np = Some c \<and>
    p_state np = PROC_RUNNING \<and> p_children np = [] \<and> p_threads np = [] \<and> p_vmmap np = Some m \<and>
    procs s' c = Some (cr\<lparr>p_children := p # p_children cr\<rparr>) \<and> proc_list s' = p # proc_list s \<and>
    (\<forall>q. q \<noteq> p \<longrightarrow> q \<noteq> c \<longrightarrow> procs s' q = procs s q)"
proof -
  have live: "\<forall>p\<in>set (proc_list s). procs s p \<noteq> None" using tree_inv_list [OF assms(1)] by blast
  have "\<not> (\<forall>pid. 0 \<le> pid \<and> pid < PROC_MAX_COUNT K \<longrightarrow> pid_used s pid)" using assms(14-16) by blast
  then obtain pid where pid: "proc_getid K s = Inr (pid, s\<lparr>next_pid := (pid + 1) mod PROC_MAX_COUNT K\<rparr>)"
    "0 \<le> pid" "pid < PROC_MAX_COUNT K" "\<not> pid_used s pid"
    using proc_getid_result [OF live assms(10,11)] by blast
  then have "pid \<noteq> PID_IDLE K" "pid \<noteq> PID_INIT K" using assms(12,13) by auto
  from proc_create_effect [OF assms(2-8) pid(1) this assms(17), of name] obtain s' pd where
    s': "proc_create K X E name s = Inr (p, s')" "proc_list s' = p # proc_list s"
    "procs s' = (procs s)(c \<mapsto> cr\<lparr>p_children := p # p_children cr\<rparr>, p \<mapsto> created K pid name c cr (vfs_root_vn s) pd m)" by blast
  have "tree_inv s'" by (rule tree_inv_create [OF assms(1,6,8,9) _ _ _ _ s'(2,3)]) (use pid in simp_all)
  moreover have "p \<noteq> c" using assms(6,8) by auto
  ultimately show ?thesis using s' pid by (intro exI [of _ s'] exI [of _ "created K pid name c cr (vfs_root_vn s) pd m"]) simp
qed

theorem proc_create_keeps_tree_witness:
  "\<exists>s' np. proc_create i386 demo_ext demo_env ''sh'' demo_family = Inr (400, s') \<and> tree_inv s' \<and> procs s' 400 = Some np \<and>
     p_pid np \<notin> {0, 1, 2, 3, 4} \<and> p_pproc np = Some 22 \<and> proc_list s' = [400, 24, 23, 22, 21, 20]"
proof -
  have "\<not> pid_used demo_family 9" "pid_used demo_family (PID_IDLE i386)" "pid_used demo_family (PID_INIT i386)"
    by (simp_all add: demo_family_pids i386_pids)
  moreover have "\<forall>v. vfs_root_vn demo_family = Some v \<longrightarrow> vnodes demo_family v \<noteq> None" by (simp add: demo_family_procs(5))
  ultimately obtain s' np where "proc_create i386 demo_ext demo_env ''sh'' demo_family = Inr (400, s')" "tree_inv s'"
    "procs s' 400 = Some np" "\<not> pid_used demo_family (p_pid np)" "p_pproc np = Some 22" "proc_list s' = 400 # proc_list demo_family"
    using proc_create_keeps_tree [OF demo_family_tree demo_pagedir_ok demo_root_ok _ demo_family_slab(1) _ demo_family_procs(3)
        demo_family_proc(3) _ _ _ _ _ _ _ _ demo_family_slab(2), of i386 9 "''sh''"] free_cell_free [OF demo_family_cell(1)]
    by (auto simp: demo_family_procs(4) i386_pids)
  then show ?thesis by (intro exI [of _ s'] exI [of _ np]) (simp add: demo_family_procs(2) demo_family_pids)
qed

text \<open>\<^verbatim>\<open>proc_create\<close> does not notice that the pids have run out.  When every pid below
  \<^verbatim>\<open>PROC_MAX_COUNT\<close> is in use, \<^verbatim>\<open>_proc_getid\<close> returns -1 and the new process gets
  that as its pid, so that the second such process shares it with the first.\<close>

lemma proc_create_out_of_pids:
  assumes "\<forall>q\<in>set (proc_list s). procs s q \<noteq> None" and "pagedir_ok E" and "root_ok E"
    and "\<forall>v. vfs_root_vn s = Some v \<longrightarrow> vnodes s v \<noteq> None"
    and "proc_slab E s = Some p" and "procs s p = None" and "curproc s = Some c" and "procs s c = Some cr"
    and "0 \<le> next_pid s" and "next_pid s < PROC_MAX_COUNT K" and "PID_IDLE K \<ge> 0" and "PID_INIT K \<ge> 0"
    and "\<forall>pid. 0 \<le> pid \<and> pid < PROC_MAX_COUNT K \<longrightarrow> pid_used s pid"
    and "\<forall>s'. vmmaps s' = vmmaps s \<longrightarrow> vmmap_slab X s' = Some m"
  shows "\<exists>s' np. proc_create K X E name s = Inr (p, s') \<and> procs s' p = Some np \<and> p_pid np = - 1"
proof -
  have g: "proc_getid K s = Inr (- 1, s\<lparr>next_pid := next_pid s\<rparr>)" using proc_getid_result [OF assms(1,9,10)] assms(13) by auto
  have "- 1 \<noteq> PID_IDLE K" "- 1 \<noteq> PID_INIT K" using assms(11,12) by auto
  from proc_create_effect [OF assms(2-8) g this assms(14), of name] show ?thesis by auto
qed

lemma proc_create_out_of_pids_example:
  "\<exists>s' np. proc_create (i386\<lparr>PROC_MAX_COUNT := 5\<rparr>) demo_ext demo_env ''sh'' demo_family = Inr (400, s') \<and>
     procs s' 400 = Some np \<and> p_pid np = - 1"
proof -
  have "\<forall>pid. 0 \<le> pid \<and> pid < PROC_MAX_COUNT (i386\<lparr>PROC_MAX_COUNT := 5\<rparr>) \<longrightarrow> pid_used demo_family pid"
    by (auto simp: demo_family_pids)
  moreover have "\<forall>v. vfs_root_vn demo_family = Some v \<longrightarrow> vnodes demo_family v \<noteq> None" by (simp add: demo_family_procs(5))
  moreover have "\<forall>q\<in>set (proc_list demo_family). procs demo_family q \<noteq> None" using tree_inv_list [OF demo_family_tree] by blast
  ultimately show ?thesis
    using proc_create_out_of_pids [OF _ demo_pagedir_ok demo_root_ok _ demo_family_slab(1) _ demo_family_procs(3)
        demo_family_proc(3) _ _ _ _ _ demo_family_slab(2), of "i386\<lparr>PROC_MAX_COUNT := 5\<rparr>" "''sh''"]
      free_cell_free [OF demo_family_cell(1)] by (simp add: demo_family_procs(4) i386_pids)
qed

text \<open>C13: \<^verbatim>\<open>do_waitpid\<close> reaps.  Called with pid -1 it takes the first dead child in the list of
  children, called with the pid of a dead child it takes that one; it returns the child's pid and exit
  status.  The child and its thread are gone from every list and store and the page directory of the child
  maps nothing any more; no other process changes but for the list of children of the caller, no other page
  directory changes, and the process tree stays well-formed.\<close>

theorem do_waitpid_reaps:
  assumes "tree_inv s" and "pagedir_freed E" and "curproc s = Some cur" and "procs s cur = Some pr"
    and "p_state pr = PROC_RUNNING" and "zombie s c t" and "procs s c = Some ch"
    and "pid = - 1 \<and> List.find (\<lambda>c. p_state (the (procs s c)) = PROC_DEAD) (p_children pr) = Some c \<or>
      0 < pid \<and> pid = p_pid ch \<and> c \<in> set (p_children pr)"
  shows "\<exists>s'. do_waitpid K E irqs pid 0 s = Inr (Done (p_pid ch) (Some (p_status ch)), s') \<and>
    reaped cur c t s s' \<and> tree_inv s'"
  by (rule waitpid_reaps [OF assms])

definition demo_tables :: "ptr \<Rightarrow> u32 \<Rightarrow> pte option" where
  "demo_tables = (\<lambda>_ _. Some \<lparr>pte_frame = 0, pte_pdflags = 0, pte_ptflags = 0\<rparr>)"

theorem do_waitpid_reaps_witness:
  "\<exists>s'. do_waitpid i386 demo_env [] (- 1) 0 (demo_family\<lparr>pagetabs := demo_tables\<rparr>) = Inr (Done 3 (Some 7), s') \<and>
     procs s' 23 = None \<and> threads s' 33 = None \<and> pagetabs s' 43 0x500000 = None \<and> pagetabs s' 44 0x500000 \<noteq> None \<and> tree_inv s'"
proof -
  let ?s = "demo_family\<lparr>pagetabs := demo_tables\<rparr>"
  have "zombie ?s 23 33" by (simp add: zombie_def demo_family_defs)
  moreover have "tree_inv ?s" using demo_family_tree by (simp add: tree_inv_def)
  ultimately have "\<exists>s'. do_waitpid i386 demo_env [] (- 1) 0 ?s = Inr (Done 3 (Some 7), s') \<and> reaped 22 23 33 ?s s' \<and> tree_inv s'"
    using do_waitpid_reaps [of ?s demo_env 22 "kin 2 (Some 21) [24, 23] PROC_RUNNING 0 32" 23 33
        "kin 3 (Some 22) [] PROC_DEAD 7 33" "- 1" i386 "[]"] demo_pagedir_freed
    by (simp add: demo_family_procs(3) demo_family_proc)
  then show ?thesis by (auto simp: reaped_def demo_family_proc kin_def demo_tables_def)
qed

text \<open>C37: the errors of \<^verbatim>\<open>do_waitpid\<close>.  Options, pid 0 and pids below -1 give -EINVAL; a caller
  without children, or a pid that is no child of the caller, gives -ECHILD; nothing changes.\<close>

theorem do_waitpid_errors:
  assumes "tree_inv s" and "curproc s = Some cur" and "procs s cur = Some pr" and "p_state pr = PROC_RUNNING"
  shows "(options \<noteq> 0 \<or> pid = 0 \<or> pid < - 1 \<longrightarrow> do_waitpid K E irqs pid options s = Inr (Done (- errno K EINVAL) None, s)) \<and>
    (pid = - 1 \<and> p_children pr = [] \<or> 0 < pid \<and> (\<forall>c\<in>set (p_children pr). p_pid (the (procs s c)) \<noteq> pid) \<longrightarrow>
      do_waitpid K E irqs pid 0 s = Inr (Done (- errno K ECHILD) None, s))"
  using waitpid_errors [OF assms] by blast

theorem do_waitpid_errors_witness:
  "do_waitpid i386 demo_env [] 9 0 demo_family = Inr (Done (- 10) None, demo_family) \<and>
   do_waitpid i386 demo_env [] 0 0 demo_family = Inr (Done (- 22) None, demo_family)"
  using do_waitpid_errors [OF demo_family_tree, of 22 "kin 2 (Some 21) [24, 23] PROC_RUNNING 0 32" 0 9 i386 demo_env "[]"]
    do_waitpid_errors [OF demo_family_tree, of 22 "kin 2 (Some 21) [24, 23] PROC_RUNNING 0 32" 0 0 i386 demo_env "[]"]
  by (simp add: demo_family_procs(3) demo_family_proc i386_pids)

text \<open>C38: waiting for a running child.  When no child is dead, or the child asked for is not, the
  caller goes to the end of the wait queue of its own process and the next runnable thread runs; no
  thread is lost.\<close>

theorem do_waitpid_sleeps:
  assumes "tree_inv s" and "sched_inv s" and "curthr s = Some k" and "threads s k = Some th" and "kt_wchan th = None"
    and "waiting Runq s = r # rs" and "curproc s = Some cur" and "procs s cur = Some pr" and "p_state pr = PROC_RUNNING"
    and "pid = - 1 \<and> p_children pr \<noteq> [] \<and> (\<forall>c\<in>set (p_children pr). p_state (the (procs s c)) \<noteq> PROC_DEAD) \<and> sl = None \<or>
      (\<exists>c. 0 < pid \<and> c \<in> set (p_children pr) \<and> pid = p_pid (the (procs s c)) \<and> p_state (the (procs s c)) \<noteq> PROC_DEAD \<and> sl = Some c)"
  shows "\<exists>s'. do_waitpid K E irqs pid 0 s = Inr (Slept sl, s') \<and> sched_inv s' \<and> curthr s' = Some r \<and>
    waiting (Waitq cur) s' = waiting (Waitq cur) s @ [k]"
  by (rule waitpid_sleeps [OF assms])

theorem do_waitpid_sleeps_witness:
  "\<exists>s'. do_waitpid i386 demo_env [] 4 0 demo_family = Inr (Slept (Some 24), s') \<and> sched_inv s' \<and> curthr s' = Some 30 \<and>
     waiting (Waitq 22) s' = waiting (Waitq 22) demo_family @ [32]"
proof (rule do_waitpid_sleeps [OF demo_family_tree demo_family_sched])
  show "curthr demo_family = Some 32" "waiting Runq demo_family = [30]"
    "threads demo_family 32 = Some ((mk_thread KT_RUN None)\<lparr>kt_proc := Some 22, kt_plink := Some 22\<rparr>)"
    by (simp_all add: demo_family_def waiting_def)
  let ?pr = "kin 2 (Some 21) [24, 23] PROC_RUNNING 0 32"
  have "(0::int) < 4 \<and> 24 \<in> set (p_children ?pr) \<and> 4 = p_pid (the (procs demo_family 24)) \<and>
     p_state (the (procs demo_family 24)) \<noteq> PROC_DEAD \<and> Some 24 = Some (24::nat)" by (simp add: demo_family_proc)
  then show "(4::int) = - 1 \<and> p_children ?pr \<noteq> [] \<and>
     (\<forall>c\<in>set (p_children ?pr). p_state (the (procs demo_family c)) \<noteq> PROC_DEAD) \<and> Some 24 = (None :: nat option) \<or>
     (\<exists>c. 0 < (4::int) \<and> c \<in> set (p_children ?pr) \<and> 4 = p_pid (the (procs demo_family c)) \<and>
        p_state (the (procs demo_family c)) \<noteq> PROC_DEAD \<and> Some 24 = Some c)" by blast
qed (simp_all add: demo_family_procs(3) demo_family_proc mk_thread_def)

end
