(* ===== verification/Special.thy ===== *)
theory Special
  imports Proc
begin

text \<open>
  The operation tables of vnodes, \<^verbatim>\<open>kernel/fs/vn_special.c\<close>.  A vnode of
  a file system calls the routines of that file system, which are not in the
  repository; a device node has one of the two tables of
  \<^verbatim>\<open>vn_special.c\<close>, whose entries pass the call to the byte device.  Calling a
  null entry is a null dereference.
\<close>

section \<open>Device nodes\<close>

definition upd_vnode :: "ptr \<Rightarrow> (vnode \<Rightarrow> vnode) \<Rightarrow> kstate \<Rightarrow> kstate" where
  "upd_vnode v f s = s\<lparr>vnodes := (vnodes s)(v := map_option f (vnodes s v))\<rparr>"

definition init_special_vnode :: "kconsts \<Rightarrow> kenv \<Rightarrow> ptr \<Rightarrow> kstate \<Rightarrow> kstate res" where
  "init_special_vnode K E v s =
     bindE (deref (vnodes s v)) (\<lambda>vn.
       if S_ISCHR K (vn_mode vn) then
         Inr (upd_vnode v (\<lambda>x. x\<lparr>vn_ops := Some Bytedev_spec_vops, vn_cdev := bytedev_lookup E (vn_devid vn)\<rparr>) s)
       else if \<not> S_ISBLK K (vn_mode vn) then Inl KASSERT_failed
       else Inr (upd_vnode v (\<lambda>x. x\<lparr>vn_ops := Some Blockdev_spec_vops, vn_bdev := blockdev_lookup E (vn_devid vn)\<rparr>) s))"

definition special_file_stat :: "kenv \<Rightarrow> ptr \<Rightarrow> kstate \<Rightarrow> (int \<times> bytes \<times> kstate) res" where
  "special_file_stat E v s =
     (case fs_root_stat E v of
        None \<Rightarrow> Inl KASSERT_failed
      | Some st \<Rightarrow> st s)"

definition special_file_read :: "kconsts \<Rightarrow> kenv \<Rightarrow> ptr option \<Rightarrow> int \<Rightarrow> u32 \<Rightarrow> kstate \<Rightarrow> (int \<times> bytes \<times> kstate) res" where
  "special_file_read K E vp offset count s =
     (case vp of
        None \<Rightarrow> Inl KASSERT_failed
      | Some v \<Rightarrow>
          bindE (deref (vnodes s v)) (\<lambda>vn.
            if \<not> (S_ISCHR K (vn_mode vn) \<or> S_ISBLK K (vn_mode vn)) then Inl KASSERT_failed
            else
              case vn_cdev vn of
                None \<Rightarrow> Inl KASSERT_failed
              | Some d \<Rightarrow>
                  (case cd_read E d of
                     None \<Rightarrow> Inl KASSERT_failed
                   | Some rd \<Rightarrow> rd offset (sint count) s)))"

definition special_file_write :: "kconsts \<Rightarrow> kenv \<Rightarrow> ptr option \<Rightarrow> int \<Rightarrow> bytes \<Rightarrow> u32 \<Rightarrow> kstate \<Rightarrow> (int \<times> kstate) res" where
  "special_file_write K E vp offset buf count s =
     (case vp of
        None \<Rightarrow> Inl KASSERT_failed
      | Some v \<Rightarrow>
          bindE (deref (vnodes s v)) (\<lambda>vn.
            if \<not> (S_ISCHR K (vn_mode vn) \<or> S_ISBLK K (vn_mode vn)) then Inl KASSERT_failed
            else
              case vn_cdev vn of
                None \<Rightarrow> Inl KASSERT_failed
              | Some d \<Rightarrow>
                  (case cd_write E d of
                     None \<Rightarrow> Inl KASSERT_failed
                   | Some wr \<Rightarrow> wr offset buf (sint count) s)))"

definition special_file_mmap :: "kenv \<Rightarrow> ptr \<Rightarrow> ptr \<Rightarrow> kstate \<Rightarrow> (int \<times> ptr option \<times> kstate) res" where
  "special_file_mmap E v vma s =
     bindE (deref (vnodes s v)) (\<lambda>vn.
     bindE (deref (vn_cdev vn)) (\<lambda>d.
     bindE (deref (cd_mmap E d)) (\<lambda>mm. mm v vma s)))"

definition special_file_fillpage :: "ptr \<Rightarrow> int \<Rightarrow> kstate \<Rightarrow> int \<times> kstate" where
  "special_file_fillpage v offset s = (0, s)"

definition special_file_dirtypage :: "ptr \<Rightarrow> int \<Rightarrow> kstate \<Rightarrow> int \<times> kstate" where
  "special_file_dirtypage v offset s = (0, s)"

definition special_file_cleanpage :: "ptr \<Rightarrow> int \<Rightarrow> kstate \<Rightarrow> int \<times> kstate" where
  "special_file_cleanpage v offset s = (0, s)"

section \<open>Calls through the table of a vnode\<close>

text \<open>
  The entries of \<^verbatim>\<open>vn_ops\<close>, by table: those of the file system, of
  \<^verbatim>\<open>bytedev_spec_vops\<close> and of \<^verbatim>\<open>blockdev_spec_vops\<close>.
\<close>

fun vop_read :: "kconsts \<Rightarrow> kenv \<Rightarrow> vn_ops_table \<Rightarrow> ptr \<Rightarrow> (int \<Rightarrow> u32 \<Rightarrow> kstate \<Rightarrow> (int \<times> bytes \<times> kstate) res) option" where
  "vop_read K E Fs_ops v = fs_read E v"
| "vop_read K E Bytedev_spec_vops v = Some (special_file_read K E (Some v))"
| "vop_read K E Blockdev_spec_vops v = None"

fun vop_write :: "kconsts \<Rightarrow> kenv \<Rightarrow> vn_ops_table \<Rightarrow> ptr \<Rightarrow> (int \<Rightarrow> bytes \<Rightarrow> u32 \<Rightarrow> kstate \<Rightarrow> (int \<times> kstate) res) option" where
  "vop_write K E Fs_ops v = fs_write E v"
| "vop_write K E Bytedev_spec_vops v = Some (special_file_write K E (Some v))"
| "vop_write K E Blockdev_spec_vops v = None"

fun vop_stat :: "kenv \<Rightarrow> vn_ops_table \<Rightarrow> ptr \<Rightarrow> (kstate \<Rightarrow> (int \<times> bytes \<times> kstate) res) option" where
  "vop_stat E Fs_ops v = fs_stat E v"
| "vop_stat E Bytedev_spec_vops v = Some (special_file_stat E v)"
| "vop_stat E Blockdev_spec_vops v = Some (special_file_stat E v)"

text \<open>The entries that both tables of \<^verbatim>\<open>vn_special.c\<close> leave null.\<close>

definition only_fs :: "vn_ops_table \<Rightarrow> 'a option \<Rightarrow> 'a option" where
  "only_fs t f = (case t of Fs_ops \<Rightarrow> f | Bytedev_spec_vops \<Rightarrow> None | Blockdev_spec_vops \<Rightarrow> None)"

definition vop_lookup where "vop_lookup E t v = only_fs t (fs_lookup E v)"
definition vop_create where "vop_create E t v = only_fs t (fs_create E v)"
definition vop_mknod where "vop_mknod E t v = only_fs t (fs_mknod E v)"
definition vop_link where "vop_link E t v = only_fs t (fs_link E v)"
definition vop_unlink where "vop_unlink E t v = only_fs t (fs_unlink E v)"
definition vop_mkdir where "vop_mkdir E t v = only_fs t (fs_mkdir E v)"
definition vop_rmdir where "vop_rmdir E t v = only_fs t (fs_rmdir E v)"
definition vop_readdir where "vop_readdir E t v = only_fs t (fs_readdir E v)"

text \<open>\<^verbatim>\<open>vnode->vn_ops->op\<close>: the table of the vnode, then the entry.\<close>

definition vnode_op :: "ptr \<Rightarrow> kstate \<Rightarrow> (vn_ops_table \<Rightarrow> ptr \<Rightarrow> 'a) \<Rightarrow> 'a res" where
  "vnode_op v s sel =
     bindE (deref (vnodes s v)) (\<lambda>vn. bindE (deref (vn_ops vn)) (\<lambda>t. Inr (sel t v)))"

lemma vnode_op_live [simp]:
  "vnodes s v = Some vn \<Longrightarrow> vn_ops vn = Some t \<Longrightarrow> vnode_op v s sel = Inr (sel t v)"
  by (simp add: vnode_op_def)

end
