(* ===== verification/Namev.thy ===== *)
theory Namev
  imports Special
begin

text \<open>
  Resolving path names, \<^verbatim>\<open>kernel/fs/namev.c\<close>.  A C string is its
  characters up to the terminator; the copy of the path that
  \<^verbatim>\<open>dir_namev\<close> cuts into components is an array of bytes, the path, its
  terminator and whatever the allocated cell holds behind it, because the loop
  that looks for slashes starts at index 1 whether the string is that long or
  not.
\<close>

unbundle bit_operations_syntax

section \<open>C strings\<close>

definition NUL :: char where
  "NUL = CHR 0x00"

definition SLASH :: char where
  "SLASH = CHR ''/''"

definition c_str :: "string \<Rightarrow> nat \<Rightarrow> string" where
  "c_str buf k = takeWhile (\<lambda>c. c \<noteq> NUL) (drop k buf)"

fun strstr :: "string \<Rightarrow> string \<Rightarrow> string option" where
  "strstr [] n = (if n = [] then Some [] else None)"
| "strstr (c # h) n = (if take (length n) (c # h) = n then Some (c # h) else strstr h n)"

definition strncmp_eq :: "string \<Rightarrow> string \<Rightarrow> nat \<Rightarrow> bool" where
  "strncmp_eq a b n \<longleftrightarrow> take n a = take n b"

section \<open>Operations\<close>

definition lookup :: "kconsts \<Rightarrow> kenv \<Rightarrow> ptr option \<Rightarrow> string option \<Rightarrow> nat \<Rightarrow> kstate \<Rightarrow> (int \<times> ptr option \<times> kstate) res" where
  "lookup K E dirp namep len s =
     (case dirp of
        None \<Rightarrow> Inl KASSERT_failed
      | Some dir \<Rightarrow>
          (case namep of
             None \<Rightarrow> Inl KASSERT_failed
           | Some name \<Rightarrow>
               bindE (deref (vnodes s dir)) (\<lambda>vn.
                 case vn_ops vn of
                   None \<Rightarrow> Inr (- errno K ENOTDIR, None, s)
                 | Some t \<Rightarrow>
                     (case vop_lookup E t dir of
                        None \<Rightarrow> Inr (- errno K ENOTDIR, None, s)
                      | Some f \<Rightarrow> f (take len name) s))))"

text \<open>
  The loop over the characters from index 1 on: a slash ends a component and
  the next begins behind it.  \<open>b\<close> is where \<^verbatim>\<open>path_to_resolve\<close> points
  into the array, and the result is where the components begin.
\<close>

function split_loop :: "nat \<Rightarrow> nat \<Rightarrow> string \<Rightarrow> nat list \<Rightarrow> (nat list \<times> string) res" where
  "split_loop b i buf components =
     (if \<not> b + i < length buf then Inl Out_of_bounds
      else if buf ! (b + i) = NUL then Inr (components, buf)
      else if buf ! (b + i) = SLASH then
        if \<not> length components < 50 then Inl Out_of_bounds
        else split_loop b (i + 1) (buf[b + i := NUL]) (components @ [b + i + 1])
      else split_loop b (i + 1) buf components)"
  by pat_completeness auto
termination
  by (relation "measure (\<lambda>(b, i, buf, _). length buf - (b + i))") auto

declare split_loop.simps [simp del]

definition put_opt :: "kenv \<Rightarrow> ptr option \<Rightarrow> kstate \<Rightarrow> kstate res" where
  "put_opt E prev s = (case prev of Some v \<Rightarrow> vput E v s | None \<Rightarrow> Inr s)"

fun namev_loop :: "kconsts \<Rightarrow> kenv \<Rightarrow> string list \<Rightarrow> ptr \<Rightarrow> ptr option \<Rightarrow> kstate \<Rightarrow> ((int + ptr) \<times> kstate) res" where
  "namev_loop K E [] curr_base prev s = Inr (Inr curr_base, s)"
| "namev_loop K E (component # cs) curr_base prev s =
     (if component = [] then namev_loop K E cs curr_base prev s
      else
        bindE (lookup K E (Some curr_base) (Some component) (length component) s) (\<lambda>(ret, result, s1).
        bindE (put_opt E prev s1) (\<lambda>s2.
          if ret < 0 then Inr (Inl ret, s2)
          else
            bindE (deref result) (\<lambda>v.
            bindE (deref (vnodes s2 v)) (\<lambda>vn.
              if \<not> S_ISDIR K (vn_mode vn) then bindE (vput E v s2) (\<lambda>s3. Inr (Inl (- errno K ENOTDIR), s3))
              else namev_loop K E cs v (Some v) s2)))))"

definition start_dir :: "string \<Rightarrow> ptr option \<Rightarrow> kstate \<Rightarrow> ptr option res" where
  "start_dir buf base s =
     (if buf ! 0 = SLASH then Inr (vfs_root_vn s)
      else
        case base of
          Some v \<Rightarrow> Inr (Some v)
        | None \<Rightarrow> bindE (deref (curproc s)) (\<lambda>p. bindE (deref (procs s p)) (\<lambda>pr. Inr (p_cwd pr))))"

text \<open>
  The results are the return value, and when that is 0 the pointer into
  \<^verbatim>\<open>pathname\<close> where \<^verbatim>\<open>strstr\<close> finds the last component, its length
  and the directory.  The two calls of \<^verbatim>\<open>kmalloc\<close> are not checked.
\<close>

type_synonym name_result = "string option \<times> nat \<times> ptr"

definition dir_namev ::
  "kconsts \<Rightarrow> kenv \<Rightarrow> string \<Rightarrow> ptr option \<Rightarrow> kstate \<Rightarrow> (int \<times> name_result option \<times> kstate) res" where
  "dir_namev K E pathname base s =
     (let len = length pathname in
      if \<not> kmalloc_ok E (len + 1) s then Inl Null_deref
      else
        let path_to_resolve = pathname @ [NUL] @ kmalloc_slack E (len + 1);
            b = (if path_to_resolve ! 0 = SLASH then 1 else 0)
        in bindE (start_dir path_to_resolve base s) (\<lambda>curr_base.
             case curr_base of
               None \<Rightarrow> Inl KASSERT_failed
             | Some cb \<Rightarrow>
                 if \<not> kmalloc_ok E 200 s then Inl Null_deref
                 else
                   bindE (split_loop b 1 path_to_resolve [b]) (\<lambda>(components, buf).
                     let cs = map (c_str buf) components; name = last cs in
                     if length components = 1 then
                       bindE (vref E cb s) (\<lambda>s1. Inr (0, Some (strstr pathname name, length name, cb), s1))
                     else
                       bindE (namev_loop K E (butlast cs) cb None s) (\<lambda>(r, s1).
                         case r of
                           Inl ret \<Rightarrow> Inr (ret, None, s1)
                         | Inr v \<Rightarrow> Inr (0, Some (strstr pathname name, length name, v), s1)))))"

definition create_in :: "kenv \<Rightarrow> ptr \<Rightarrow> string \<Rightarrow> nat \<Rightarrow> kstate \<Rightarrow> (int \<times> ptr option \<times> kstate) res" where
  "create_in E dir_vnode file_name file_len s =
     bindE (vnode_op dir_vnode s (vop_create E)) (\<lambda>cr.
       case cr of
         None \<Rightarrow> Inl KASSERT_failed
       | Some f \<Rightarrow>
           bindE (f (take file_len file_name) s) (\<lambda>(retval, res_vnode, s1).
           bindE (vput E dir_vnode s1) (\<lambda>s2.
             if retval \<noteq> 0 then Inr (retval, None, s2) else Inr (0, res_vnode, s2))))"

definition open_namev ::
  "kconsts \<Rightarrow> kenv \<Rightarrow> string \<Rightarrow> u32 \<Rightarrow> ptr option \<Rightarrow> kstate \<Rightarrow> (int \<times> ptr option \<times> kstate) res" where
  "open_namev K E pathname flag base s =
     bindE (dir_namev K E pathname base s) (\<lambda>(retval, out, s1).
       if retval \<noteq> 0 then Inr (retval, None, s1)
       else
         bindE (deref out) (\<lambda>(namep, file_len, dir_vnode).
         bindE (deref namep) (\<lambda>file_name.
           if strncmp_eq file_name [] file_len then Inr (0, Some dir_vnode, s1)
           else
             bindE (lookup K E (Some dir_vnode) (Some file_name) file_len s1) (\<lambda>(retval, res_vnode, s2).
               if retval \<noteq> 0 then
                 if flag AND O_CREAT K \<noteq> 0 \<and> retval = - errno K ENOENT then create_in E dir_vnode file_name file_len s2
                 else bindE (vput E dir_vnode s2) (\<lambda>s3. Inr (retval, res_vnode, s3))
               else
                 bindE (if (file_name @ [NUL]) ! file_len = SLASH
                        then bindE (deref res_vnode) (\<lambda>v. bindE (deref (vnodes s2 v)) (\<lambda>vn. Inr (\<not> S_ISDIR K (vn_mode vn))))
                        else Inr False) (\<lambda>notdir.
                   if notdir then
                     bindE (vput E dir_vnode s2) (\<lambda>s3.
                     bindE (deref res_vnode) (\<lambda>v.
                     bindE (vput E v s3) (\<lambda>s4. Inr (- errno K ENOTDIR, res_vnode, s4))))
                   else bindE (vput E dir_vnode s2) (\<lambda>s3. Inr (0, res_vnode, s3)))))))"

section \<open>Cutting a path into components\<close>

text \<open>
  The reference: split at every slash.  The first character of the path never
  separates, as the loop does not look at it.
\<close>

fun split_slash :: "string \<Rightarrow> string list" where
  "split_slash [] = [[]]"
| "split_slash (c # p) = (if c = SLASH then [] # split_slash p else (c # hd (split_slash p)) # tl (split_slash p))"

fun path_comps :: "string \<Rightarrow> string list" where
  "path_comps [] = [[]]"
| "path_comps (c # p) = (c # hd (split_slash p)) # tl (split_slash p)"

lemma split_slash_ne [simp]: "split_slash p \<noteq> []"
  by (cases p) auto

fun slash_pos :: "nat \<Rightarrow> string \<Rightarrow> nat list" where
  "slash_pos k [] = []"
| "slash_pos k (c # p) = (if c = SLASH then (k + 1) # slash_pos (k + 1) p else slash_pos (k + 1) p)"

definition cut :: "char \<Rightarrow> char" where
  "cut c = (if c = SLASH then NUL else c)"

lemma length_slash_pos: "Suc (length (slash_pos k p)) = length (split_slash p)"
proof (induction p arbitrary: k)
  case (Cons c p)
  have "length (tl (split_slash p)) = length (slash_pos (k + 1) p)" using Cons.IH [of "k + 1"] by simp
  then show ?case using Cons.IH [of "k + 1"] by simp
qed simp

lemma split_loop_positions:
  assumes "NUL \<notin> set rest" and "length ini = b + i" and "length cs + length (slash_pos (b + i) rest) \<le> 50"
  shows "split_loop b i (ini @ rest @ NUL # sl) cs =
    Inr (cs @ slash_pos (b + i) rest, ini @ map cut rest @ NUL # sl)"
  using assms
proof (induction rest arbitrary: ini i cs)
  case Nil
  then show ?case by (subst split_loop.simps) (simp add: nth_append)
next
  case (Cons c rest)
  have c: "(ini @ (c # rest) @ NUL # sl) ! (b + i) = c" using Cons.prems(2) by (simp add: nth_append)
  have nn: "c \<noteq> NUL" "NUL \<notin> set rest" using Cons.prems(1) by auto
  have len: "b + i < length (ini @ (c # rest) @ NUL # sl)" using Cons.prems(2) by simp
  show ?case
  proof (cases "c = SLASH")
    case True
    have upd: "(ini @ (c # rest) @ NUL # sl)[b + i := NUL] = (ini @ [NUL]) @ rest @ NUL # sl"
      using Cons.prems(2) by (simp add: list_update_append)
    have "split_loop b i (ini @ (c # rest) @ NUL # sl) cs = split_loop b (i + 1) ((ini @ [NUL]) @ rest @ NUL # sl) (cs @ [b + i + 1])"
      using len c nn True Cons.prems(3) upd by (subst split_loop.simps) simp
    also have "\<dots> = Inr ((cs @ [b + i + 1]) @ slash_pos (b + (i + 1)) rest, (ini @ [NUL]) @ map cut rest @ NUL # sl)"
      by (rule Cons.IH) (use nn Cons.prems True in simp_all)
    finally show ?thesis using True by (simp add: cut_def)
  next
    case False
    have "split_loop b i (ini @ (c # rest) @ NUL # sl) cs = split_loop b (i + 1) ((ini @ [c]) @ rest @ NUL # sl) cs"
      using len c nn False by (subst split_loop.simps) simp
    also have "\<dots> = Inr (cs @ slash_pos (b + (i + 1)) rest, (ini @ [c]) @ map cut rest @ NUL # sl)"
      by (rule Cons.IH) (use nn Cons.prems False in simp_all)
    finally show ?thesis using False by (simp add: cut_def)
  qed
qed

lemma takeWhile_cut:
  assumes "NUL \<notin> set p"
  shows "takeWhile (\<lambda>c. c \<noteq> NUL) (map cut p @ NUL # sl) = hd (split_slash p)"
  using assms by (induction p) (auto simp: cut_def)

lemma c_str_positions:
  assumes "NUL \<notin> set p" and "length ini = k"
  shows "map (c_str (ini @ map cut p @ NUL # sl)) (slash_pos k p) = tl (split_slash p)"
  using assms
proof (induction p arbitrary: ini k)
  case (Cons c p)
  have IH: "map (c_str ((ini @ [cut c]) @ map cut p @ NUL # sl)) (slash_pos (k + 1) p) = tl (split_slash p)"
    by (rule Cons.IH) (use Cons.prems in simp_all)
  have "c_str ((ini @ [cut c]) @ map cut p @ NUL # sl) (k + 1) = takeWhile (\<lambda>c. c \<noteq> NUL) (map cut p @ NUL # sl)"
    using Cons.prems(2) by (simp add: c_str_def)
  then have h: "c_str ((ini @ [cut c]) @ map cut p @ NUL # sl) (k + 1) = hd (split_slash p)"
    using takeWhile_cut [of p sl] Cons.prems(1) by simp
  have "hd (split_slash p) # tl (split_slash p) = split_slash p" by simp
  then show ?case using IH h by (cases "c = SLASH") simp_all
qed simp

lemma split_loop_comps:
  assumes p: "NUL \<notin> set p" and b: "b < length p" and n: "length (path_comps (drop b p)) \<le> 50"
  shows "\<exists>components buf. split_loop b 1 (p @ [NUL] @ sl) [b] = Inr (components, buf) \<and>
    map (c_str buf) components = path_comps (drop b p)"
proof -
  obtain c q where q: "drop b p = c # q" using b by (cases "drop b p") auto
  let ?pre = "take b p @ [c]"
  have pq: "p = ?pre @ q" using append_take_drop_id [of b p] q by simp
  have c: "c \<noteq> NUL" and nq: "NUL \<notin> set q" using p arg_cong [OF pq, of set] by auto
  have len: "length ?pre = b + 1" using b by simp
  have eq: "p @ [NUL] @ sl = ?pre @ q @ NUL # sl" using pq by simp
  have 1: "split_loop b 1 (p @ [NUL] @ sl) [b] = Inr ([b] @ slash_pos (b + 1) q, ?pre @ map cut q @ NUL # sl)"
    unfolding eq by (rule split_loop_positions [OF nq len]) (use n length_slash_pos [of "b + 1" q] in \<open>simp add: q\<close>)
  have "c_str (?pre @ map cut q @ NUL # sl) b = c # hd (split_slash q)"
    using c b takeWhile_cut [OF nq, of sl] by (simp add: c_str_def)
  then have "map (c_str (?pre @ map cut q @ NUL # sl)) ([b] @ slash_pos (b + 1) q) = path_comps (c # q)"
    using c_str_positions [OF nq len, of sl] by simp
  with 1 show ?thesis unfolding q by blast
qed

text \<open>The last component ends the path, so \<^verbatim>\<open>strstr\<close> finds an occurrence of it.\<close>

lemma strstr_found: "\<exists>r. strstr (p @ n) n = Some r \<and> take (length n) r = n \<and> (\<exists>pre. p @ n = pre @ r)"
proof (induction p)
  case Nil
  then show ?case by (cases n) auto
next
  case (Cons c p)
  show ?case
  proof (cases "take (length n) (c # p @ n) = n")
    case False
    from Cons.IH obtain r pre where r: "strstr (p @ n) n = Some r" "take (length n) r = n" "p @ n = pre @ r" by blast
    then have "(c # p) @ n = (c # pre) @ r" by simp
    moreover have "strstr ((c # p) @ n) n = Some r" using False r(1) by simp
    ultimately show ?thesis using r(2) by blast
  qed auto
qed

lemma split_slash_single: "tl (split_slash p) = [] \<Longrightarrow> hd (split_slash p) = p"
  by (induction p) (auto split: if_splits)

lemma split_slash_last: "\<exists>pre. p = pre @ last (split_slash p)"
proof (induction p)
  case (Cons c p)
  then obtain pre where pre: "p = pre @ last (split_slash p)" by blast
  show ?case
  proof (cases "c = SLASH \<or> tl (split_slash p) \<noteq> []")
    case True
    then have "last (split_slash (c # p)) = last (split_slash p)" by (cases "split_slash p") auto
    then show ?thesis using pre by (intro exI [of _ "c # pre"]) simp
  next
    case False
    then have "last (split_slash (c # p)) = c # p" using split_slash_single [of p] by simp
    then show ?thesis by (intro exI [of _ "[]"]) simp
  qed
qed simp

section \<open>Directories\<close>

text \<open>
  What the code relies on, as documented: \<^verbatim>\<open>vref\<close> and \<^verbatim>\<open>vput\<close>
  count references, and the \<^verbatim>\<open>lookup\<close> of a file system finds the entry
  \<open>child d name\<close> and returns it with a reference, or returns
  -ENOENT.  \<open>resident\<close> are the states in which the entries of every
  directory are in memory; there \<^verbatim>\<open>vput\<close> of a reference that is not the last
  only counts.
\<close>

definition bump :: "ptr \<Rightarrow> int \<Rightarrow> kstate \<Rightarrow> kstate" where
  "bump v k s = upd_vnode v (\<lambda>x. x\<lparr>vn_refcount := vn_refcount x + k\<rparr>) s"

definition refs_ok :: "kenv \<Rightarrow> bool" where
  "refs_ok E \<longleftrightarrow> (\<forall>v s vn. vnodes s v = Some vn \<longrightarrow> vref E v s = Inr (bump v 1 s) \<and>
     (1 < vn_refcount vn \<longrightarrow> vput E v s = Inr (bump v (- 1) s)))"

type_synonym dirs = "ptr \<Rightarrow> string \<Rightarrow> ptr option"

definition dirs_ok :: "kconsts \<Rightarrow> kenv \<Rightarrow> dirs \<Rightarrow> bool" where
  "dirs_ok K E child \<longleftrightarrow> (\<forall>d f name s. fs_lookup E d = Some f \<longrightarrow>
     f name s = Inr (case child d name of None \<Rightarrow> (- errno K ENOENT, None, s) | Some v \<Rightarrow> (0, Some v, bump v 1 s)))"

definition resident :: "dirs \<Rightarrow> kstate \<Rightarrow> bool" where
  "resident child s \<longleftrightarrow> (\<forall>d name v. child d name = Some v \<longrightarrow> (\<exists>vn. vnodes s v = Some vn \<and> 0 < vn_refcount vn))"

lemma bump_sel [simp]:
  "vnodes (bump v k s) = (vnodes s)(v := map_option (\<lambda>x. x\<lparr>vn_refcount := vn_refcount x + k\<rparr>) (vnodes s v))"
  "files (bump v k s) = files s" "procs (bump v k s) = procs s" "curproc (bump v k s) = curproc s" "curthr (bump v k s) = curthr s"
  "vfs_root_vn (bump v k s) = vfs_root_vn s" "threads (bump v k s) = threads s"
  by (simp_all add: bump_def upd_vnode_def)

lemma upd_vnode_same: "(\<And>x. vnodes s v = Some x \<Longrightarrow> f x = x) \<Longrightarrow> upd_vnode v f s = s"
  unfolding upd_vnode_def by (cases "vnodes s v") (auto simp: fun_upd_idem)

lemma bump_bump [simp]: "bump v k (bump v l s) = bump v (l + k) s"
  by (simp add: bump_def upd_vnode_def option.map_comp comp_def add.assoc)

lemma bump_zero [simp]: "bump v 0 s = s"
  by (simp add: bump_def upd_vnode_same)

lemma bump_commute: "bump v k (bump w l s) = bump w l (bump v k s)"
  by (cases "v = w") (auto simp: bump_def upd_vnode_def fun_upd_twist option.map_comp comp_def ac_simps)

lemma bump_back: "bump w (- 1) (bump v 1 (bump w 1 s)) = bump v 1 s"
  by (subst bump_commute) simp

definition searchable :: "kenv \<Rightarrow> kstate \<Rightarrow> ptr \<Rightarrow> bool" where
  "searchable E s d \<longleftrightarrow> (\<exists>vn. vnodes s d = Some vn \<and> vn_ops vn = Some Fs_ops) \<and> fs_lookup E d \<noteq> None"

definition is_dir :: "kconsts \<Rightarrow> kstate \<Rightarrow> ptr \<Rightarrow> bool" where
  "is_dir K s v \<longleftrightarrow> S_ISDIR K (vn_mode (the (vnodes s v)))"

text \<open>The entry of a directory, and the walk along the components.\<close>

definition entry :: "kconsts \<Rightarrow> kenv \<Rightarrow> dirs \<Rightarrow> kstate \<Rightarrow> ptr \<Rightarrow> string \<Rightarrow> int + ptr" where
  "entry K E child s d name =
     (if \<not> searchable E s d then Inl (- errno K ENOTDIR)
      else case child d name of None \<Rightarrow> Inl (- errno K ENOENT) | Some v \<Rightarrow> Inr v)"

fun walk :: "kconsts \<Rightarrow> kenv \<Rightarrow> dirs \<Rightarrow> kstate \<Rightarrow> string list \<Rightarrow> ptr \<Rightarrow> int + ptr" where
  "walk K E child s [] d = Inr d"
| "walk K E child s (c # cs) d =
     (if c = [] then walk K E child s cs d
      else
        case entry K E child s d c of
          Inl e \<Rightarrow> Inl e
        | Inr v \<Rightarrow> if is_dir K s v then walk K E child s cs v else Inl (- errno K ENOTDIR))"

lemma bump_live: "vnodes s w \<noteq> None \<Longrightarrow> vnodes (bump v k s) w \<noteq> None"
  by auto

lemma searchable_bump [simp]: "searchable E (bump v k s) d = searchable E s d"
  unfolding searchable_def by (cases "vnodes s d") auto

lemma is_dir_bump [simp]: "vnodes s w \<noteq> None \<Longrightarrow> is_dir K (bump v k s) w = is_dir K s w"
  by (auto simp: is_dir_def)

lemma entry_bump [simp]: "entry K E child (bump v k s) d c = entry K E child s d c"
  by (simp add: entry_def)

lemma resident_bump: "resident child s \<Longrightarrow> resident child (bump v 1 s)"
  unfolding resident_def by force

lemma residentD: "resident child s \<Longrightarrow> child d name = Some v \<Longrightarrow> \<exists>vn. vnodes s v = Some vn \<and> 0 < vn_refcount vn"
  unfolding resident_def by blast

lemma lookup_entry:
  assumes "dirs_ok K E child" and "vnodes s d \<noteq> None"
  shows "lookup K E (Some d) (Some n) len s =
    (case entry K E child s d (take len n) of Inl e \<Rightarrow> Inr (e, None, s) | Inr v \<Rightarrow> Inr (0, Some v, bump v 1 s))"
proof -
  obtain vn where vn: "vnodes s d = Some vn" using assms(2) by blast
  show ?thesis
  proof (cases "searchable E s d")
    case True
    then obtain f where f: "fs_lookup E d = Some f" "vn_ops vn = Some Fs_ops" using vn by (auto simp: searchable_def)
    have "f (take len n) s = Inr (case child d (take len n) of None \<Rightarrow> (- errno K ENOENT, None, s) | Some v \<Rightarrow> (0, Some v, bump v 1 s))"
      using assms(1) f(1) unfolding dirs_ok_def by blast
    with True vn f show ?thesis
      by (cases "child d (take len n)") (simp_all add: lookup_def vop_lookup_def only_fs_def entry_def)
  next
    case False
    then show ?thesis using vn
      by (auto simp: lookup_def vop_lookup_def only_fs_def entry_def searchable_def split: option.splits vn_ops_table.splits)
  qed
qed

text \<open>One reference is held while walking, on the directory reached.\<close>

lemma namev_loop_walk:
  assumes E: "dirs_ok K E child" "refs_ok E" and er: "\<forall>e. 0 < errno K e" and r: "resident child s"
    and d: "vnodes s d = Some dn" "0 < vn_refcount dn"
  shows "namev_loop K E cs d (Some d) (bump d 1 s) =
    (case walk K E child s cs d of Inl e \<Rightarrow> Inr (Inl e, s) | Inr v \<Rightarrow> Inr (Inr v, bump v 1 s))"
  using d
proof (induction cs arbitrary: d dn)
  case (Cons c cs)
  have put: "vput E w (bump w 1 s') = Inr s'" if "vnodes s' w = Some x" "0 < vn_refcount x" for w x s'
    using E(2) that by (auto simp: refs_ok_def)
  have put': "vput E d (bump v 1 (bump d 1 s)) = Inr (bump v 1 s)" if "vnodes s v \<noteq> None" for v
    using put [of "bump v 1 s" d] that Cons.prems bump_commute [of v 1 d 1 s] by (cases "v = d") auto
  show ?case
  proof (cases "c = []")
    case False
    have lk: "lookup K E (Some d) (Some c) (length c) (bump d 1 s) =
       (case entry K E child s d c of Inl e \<Rightarrow> Inr (e, None, bump d 1 s) | Inr v \<Rightarrow> Inr (0, Some v, bump v 1 (bump d 1 s)))"
      using lookup_entry [OF E(1), of "bump d 1 s" d c "length c"] Cons.prems(1) by simp
    show ?thesis
    proof (cases "entry K E child s d c")
      case (Inl e)
      then have "e < 0" using er [rule_format, of ENOENT] er [rule_format, of ENOTDIR] by (auto simp: entry_def split: if_splits option.splits)
      then show ?thesis using False lk Inl put [OF Cons.prems] by (simp add: put_opt_def)
    next
      case (Inr v)
      then have "child d c = Some v" by (auto simp: entry_def split: if_splits option.splits)
      then obtain vn where vn: "vnodes s v = Some vn" "0 < vn_refcount vn" using residentD [OF r] by blast
      then have v1: "vnodes (bump v 1 s) v = Some (vn\<lparr>vn_refcount := vn_refcount vn + 1\<rparr>)" by simp
      show ?thesis
        using False lk Inr put' [of v] vn v1 put [OF vn] Cons.IH [OF vn] by (simp add: put_opt_def is_dir_def)
    qed
  qed (use Cons in simp)
qed simp

lemma namev_loop_first:
  assumes E: "dirs_ok K E child" "refs_ok E" and er: "\<forall>e. 0 < errno K e" and r: "resident child s"
    and d: "vnodes s d \<noteq> None" and c: "c \<noteq> []"
  shows "namev_loop K E (c # cs) d None s =
    (case walk K E child s (c # cs) d of Inl e \<Rightarrow> Inr (Inl e, s) | Inr v \<Rightarrow> Inr (Inr v, bump v 1 s))"
proof -
  note lk = lookup_entry [OF E(1) d, of c "length c"]
  show ?thesis
  proof (cases "entry K E child s d c")
    case (Inl e)
    then have "e < 0" using er [rule_format, of ENOENT] er [rule_format, of ENOTDIR] by (auto simp: entry_def split: if_splits option.splits)
    then show ?thesis using c lk Inl by (simp add: put_opt_def)
  next
    case (Inr v)
    then have "child d c = Some v" by (auto simp: entry_def split: if_splits option.splits)
    then obtain vn where vn: "vnodes s v = Some vn" "0 < vn_refcount vn" using residentD [OF r] by blast
    have put: "vput E v (bump v 1 s) = Inr s" using E(2) vn by (auto simp: refs_ok_def)
    show ?thesis
      using c lk Inr vn put namev_loop_walk [OF E er r vn, of cs] by (simp add: put_opt_def is_dir_def)
  qed
qed

text \<open>
  A path that the code can cut: no terminator inside, something behind the
  leading slash, and no more components than the array has room for.
\<close>

definition lead :: "string \<Rightarrow> nat" where
  "lead p = (if p \<noteq> [] \<and> hd p = SLASH then 1 else 0)"

definition path_ok :: "string \<Rightarrow> bool" where
  "path_ok p \<longleftrightarrow> NUL \<notin> set p \<and> lead p < length p \<and> length (path_comps (drop (lead p) p)) \<le> 50"

definition comps :: "string \<Rightarrow> string list" where
  "comps p = path_comps (drop (lead p) p)"

definition base_name :: "string \<Rightarrow> string" where
  "base_name p = last (comps p)"

lemma path_comps_first: "q \<noteq> [] \<Longrightarrow> \<exists>c cs. path_comps q = c # cs \<and> c \<noteq> []"
  by (cases q) auto

lemma path_comps_last:
  assumes "q \<noteq> []"
  shows "\<exists>pre. q = pre @ last (path_comps q)"
proof -
  obtain c p where q: "q = c # p" using assms by (cases q) auto
  show ?thesis
  proof (cases "tl (split_slash p) = []")
    case True
    then show ?thesis using split_slash_single [OF True] q by (intro exI [of _ "[]"]) simp
  next
    case False
    then have "last (path_comps q) = last (split_slash p)" using q by (cases "split_slash p") auto
    moreover obtain pre where "p = pre @ last (split_slash p)" using split_slash_last by blast
    ultimately show ?thesis using q by (intro exI [of _ "c # pre"]) simp
  qed
qed

lemma base_name_found:
  assumes "path_ok p"
  obtains r where "strstr p (base_name p) = Some r" "take (length (base_name p)) r = base_name p"
proof -
  have "drop (lead p) p \<noteq> []" using assms by (simp add: path_ok_def)
  then obtain pre where "drop (lead p) p = pre @ base_name p" using path_comps_last unfolding base_name_def comps_def by blast
  then have "p = (take (lead p) p @ pre) @ base_name p" by (metis append.assoc append_take_drop_id)
  then obtain r where "strstr p (base_name p) = Some r" "take (length (base_name p)) r = base_name p" using strstr_found by metis
  then show ?thesis by (rule that)
qed

lemma dir_namev_walk:
  assumes E: "dirs_ok K E child" "refs_ok E" and er: "\<forall>e. 0 < errno K e" and r: "resident child s"
    and mem: "\<forall>n. kmalloc_ok E n s" and p: "path_ok p"
    and cb: "start_dir p base s = Inr (Some cb)" "vnodes s cb \<noteq> None"
  shows "dir_namev K E p base s =
    (case walk K E child s (butlast (comps p)) cb of
       Inl e \<Rightarrow> Inr (e, None, s)
     | Inr d \<Rightarrow> Inr (0, Some (strstr p (base_name p), length (base_name p), d), bump d 1 s))"
proof -
  have ne: "p \<noteq> []" "drop (lead p) p \<noteq> []" using p by (auto simp: path_ok_def)
  let ?sl = "kmalloc_slack E (length p + 1)"
  have b: "(if (p @ [NUL] @ ?sl) ! 0 = SLASH then 1 else 0) = lead p" using ne(1) by (cases p) (auto simp: lead_def)
  have st: "start_dir (p @ [NUL] @ ?sl) base s = Inr (Some cb)" using cb(1) ne(1) by (cases p) (auto simp: start_dir_def)
  obtain cs buf where sp: "split_loop (lead p) 1 (p @ [NUL] @ ?sl) [lead p] = Inr (cs, buf)" "map (c_str buf) cs = comps p"
    using split_loop_comps [of p "lead p" ?sl] p by (auto simp: path_ok_def comps_def)
  have len: "length cs = length (comps p)" using sp(2) by (metis length_map)
  have nm: "base_name p = last (map (c_str buf) cs)" using sp(2) by (simp add: base_name_def)
  have eq: "dir_namev K E p base s =
     (if length (comps p) = 1 then bindE (vref E cb s) (\<lambda>s1. Inr (0, Some (strstr p (base_name p), length (base_name p), cb), s1))
      else bindE (namev_loop K E (butlast (comps p)) cb None s) (\<lambda>(r, s1). case r of Inl ret \<Rightarrow> Inr (ret, None, s1)
        | Inr v \<Rightarrow> Inr (0, Some (strstr p (base_name p), length (base_name p), v), s1)))"
    unfolding dir_namev_def Let_def b st nm using mem sp by (simp add: len)
  obtain c rest where c: "comps p = c # rest" "c \<noteq> []" using path_comps_first [OF ne(2)] by (auto simp: comps_def)
  show ?thesis
  proof (cases rest)
    case Nil
    then show ?thesis using eq c cb(2) E(2) by (auto simp: refs_ok_def)
  next
    case (Cons a t)
    then have bl: "butlast (comps p) = c # butlast rest" using c by simp
    show ?thesis unfolding eq bl namev_loop_first [OF E er r cb(2) c(2)] using c Cons
      by (cases "walk K E child s (c # butlast rest) cb") (simp_all del: walk.simps)
  qed
qed

lemma walk_live:
  assumes "resident child s" and "walk K E child s cs d = Inr v" and "vnodes s d = Some dn" "0 < vn_refcount dn"
  shows "\<exists>vn. vnodes s v = Some vn \<and> 0 < vn_refcount vn"
  using assms(2-4)
proof (induction cs arbitrary: d dn)
  case (Cons c cs)
  show ?case
  proof (cases "c = []")
    case False
    with Cons.prems(1) obtain w where w: "entry K E child s d c = Inr w" "walk K E child s cs w = Inr v"
      by (auto split: sum.splits if_splits)
    then have "child d c = Some w" by (auto simp: entry_def split: if_splits option.splits)
    then show ?thesis using Cons.IH [OF w(2)] residentD [OF assms(1)] by blast
  qed (use Cons in simp)
qed simp

lemma entry_live:
  assumes "resident child s" and "entry K E child s d n = Inr v"
  shows "\<exists>vn. vnodes s v = Some vn \<and> 0 < vn_refcount vn"
  using assms residentD [OF assms(1), of d n v] by (auto simp: entry_def split: if_splits option.splits)

lemma refs_back:
  assumes "refs_ok E" and "vnodes s v = Some vn" and "0 < vn_refcount vn"
  shows "vput E v (bump v 1 s) = Inr s"
  using assms by (auto simp: refs_ok_def)

lemma refs_back_other:
  assumes "refs_ok E" and "vnodes s d = Some dn" "0 < vn_refcount dn" and "vnodes s v \<noteq> None"
  shows "vput E d (bump v 1 (bump d 1 s)) = Inr (bump v 1 s)"
  using refs_back [OF assms(1), of "bump v 1 s" d] assms bump_commute [of v 1 d 1 s] by (cases "v = d") auto

text \<open>
  What follows the name that \<^verbatim>\<open>strstr\<close> found, which is not the end of the path
  when the name also occurs earlier in it.
\<close>

definition slash_after :: "string \<Rightarrow> bool" where
  "slash_after p \<longleftrightarrow> (the (strstr p (base_name p)) @ [NUL]) ! length (base_name p) = SLASH"

lemma open_namev_walk:
  assumes E: "dirs_ok K E child" "refs_ok E" and er: "\<forall>e. 0 < errno K e" and r: "resident child s"
    and mem: "\<forall>n. kmalloc_ok E n s" and p: "path_ok p"
    and cb: "start_dir p base s = Inr (Some cb)" "vnodes s cb = Some cn" "0 < vn_refcount cn"
  shows "open_namev K E p flag base s =
    (case walk K E child s (butlast (comps p)) cb of
       Inl e \<Rightarrow> Inr (e, None, s)
     | Inr d \<Rightarrow>
         if base_name p = [] then Inr (0, Some d, bump d 1 s)
         else
           case entry K E child s d (base_name p) of
             Inl e \<Rightarrow> if flag AND O_CREAT K \<noteq> 0 \<and> e = - errno K ENOENT
                       then create_in E d (the (strstr p (base_name p))) (length (base_name p)) (bump d 1 s)
                       else Inr (e, None, s)
           | Inr v \<Rightarrow> if slash_after p \<and> \<not> is_dir K s v then Inr (- errno K ENOTDIR, Some v, s) else Inr (0, Some v, bump v 1 s))"
proof -
  obtain q where q: "strstr p (base_name p) = Some q" "take (length (base_name p)) q = base_name p"
    using base_name_found [OF p] by blast
  have neg: "- errno K ENOENT \<noteq> 0" "- errno K ENOTDIR \<noteq> 0" using er [rule_format, of ENOENT] er [rule_format, of ENOTDIR] by auto
  have we: "e \<noteq> 0" if "walk K E child s cs d = Inl e" for cs d e
    using that neg by (induction cs arbitrary: d) (auto simp: entry_def split: if_splits option.splits sum.splits)
  have dn: "dir_namev K E p base s = (case walk K E child s (butlast (comps p)) cb of
       Inl e \<Rightarrow> Inr (e, None, s)
     | Inr d \<Rightarrow> Inr (0, Some (Some q, length (base_name p), d), bump d 1 s))"
    using dir_namev_walk [OF E er r mem p cb(1), unfolded q(1)] cb(2) by simp
  show ?thesis
  proof (cases "walk K E child s (butlast (comps p)) cb")
    case (Inl e)
    then show ?thesis using dn we [OF Inl] by (simp add: open_namev_def)
  next
    case (Inr d)
    obtain dvn where d: "vnodes s d = Some dvn" "0 < vn_refcount dvn" using walk_live [OF r Inr cb(2,3)] by blast
    have nm: "strncmp_eq q [] (length (base_name p)) \<longleftrightarrow> base_name p = []" using q(2) by (simp add: strncmp_eq_def)
    have lk: "lookup K E (Some d) (Some q) (length (base_name p)) (bump d 1 s) =
       (case entry K E child s d (base_name p) of Inl e \<Rightarrow> Inr (e, None, bump d 1 s) | Inr v \<Rightarrow> Inr (0, Some v, bump v 1 (bump d 1 s)))"
      using lookup_entry [OF E(1), of "bump d 1 s" d q "length (base_name p)"] d(1) q(2) by simp
    show ?thesis
    proof (cases "base_name p = []")
      case True
      then show ?thesis using dn Inr nm by (simp add: open_namev_def)
    next
      case False
      show ?thesis
      proof (cases "entry K E child s d (base_name p)")
        case (Inl e)
        then have "e \<noteq> 0" using neg by (auto simp: entry_def split: if_splits option.splits)
        then show ?thesis using dn Inr nm lk False Inl refs_back [OF E(2) d] q(1) by (simp add: open_namev_def)
      next
        case v: (Inr v)
        obtain vn where vn: "vnodes s v = Some vn" "0 < vn_refcount vn" using entry_live [OF r v] by blast
        have put: "vput E d (bump v 1 (bump d 1 s)) = Inr (bump v 1 s)" using refs_back_other [OF E(2) d] vn by simp
        have "\<exists>x. vnodes (bump v 1 (bump d 1 s)) v = Some x \<and> vn_mode x = vn_mode vn" using vn by auto
        then show ?thesis using dn Inr nm lk False v put refs_back [OF E(2) vn] q(1) vn
          by (auto simp: open_namev_def slash_after_def is_dir_def)
      qed
    qed
  qed
qed

text \<open>One more slash than the array of components has room for is written behind it.\<close>

lemma split_loop_overflow:
  assumes "NUL \<notin> set rest" and "length ini = b + i" and "50 < length cs + length (slash_pos (b + i) rest)" and "length cs \<le> 50"
  shows "split_loop b i (ini @ rest @ NUL # sl) cs = Inl Out_of_bounds"
  using assms
proof (induction rest arbitrary: ini i cs)
  case (Cons c rest)
  have c: "(ini @ (c # rest) @ NUL # sl) ! (b + i) = c" using Cons.prems(2) by (simp add: nth_append)
  have nn: "c \<noteq> NUL" "NUL \<notin> set rest" using Cons.prems(1) by auto
  have len: "b + i < length (ini @ (c # rest) @ NUL # sl)" using Cons.prems(2) by simp
  show ?case
  proof (cases "c = SLASH")
    case True
    have upd: "(ini @ (c # rest) @ NUL # sl)[b + i := NUL] = (ini @ [NUL]) @ rest @ NUL # sl"
      using Cons.prems(2) by (simp add: list_update_append)
    show ?thesis
    proof (cases "length cs < 50")
      case lt: True
      have "split_loop b i (ini @ (c # rest) @ NUL # sl) cs = split_loop b (i + 1) ((ini @ [NUL]) @ rest @ NUL # sl) (cs @ [b + i + 1])"
        using len c nn True lt upd by (subst split_loop.simps) simp
      also have "\<dots> = Inl Out_of_bounds" by (rule Cons.IH) (use nn Cons.prems True lt in simp_all)
      finally show ?thesis .
    next
      case False
      then show ?thesis using len c nn True by (subst split_loop.simps) simp
    qed
  next
    case False
    have "split_loop b i (ini @ (c # rest) @ NUL # sl) cs = split_loop b (i + 1) ((ini @ [c]) @ rest @ NUL # sl) cs"
      using len c nn False by (subst split_loop.simps) simp
    also have "\<dots> = Inl Out_of_bounds" by (rule Cons.IH) (use nn Cons.prems False in simp_all)
    finally show ?thesis .
  qed
qed simp

lemma dir_namev_overflow:
  assumes mem: "\<forall>n. kmalloc_ok E n s" and p: "NUL \<notin> set p" "50 < length (comps p)"
    and cb: "start_dir p base s = Inr (Some cb)"
  shows "dir_namev K E p base s = Inl Out_of_bounds"
proof -
  let ?sl = "kmalloc_slack E (length p + 1)" and ?b = "lead p"
  have ne: "p \<noteq> []" using p(2) by (cases p) (auto simp: comps_def)
  have "drop ?b p \<noteq> []" using p(2) by (auto simp: comps_def)
  then obtain c q where q: "drop ?b p = c # q" by (cases "drop ?b p") auto
  let ?pre = "take ?b p @ [c]"
  have pq: "p = ?pre @ q" using append_take_drop_id [of ?b p] q by simp
  have nq: "NUL \<notin> set q" using p(1) arg_cong [OF pq, of set] by auto
  have len: "length ?pre = ?b + 1" using q by (cases p) (auto simp: lead_def split: if_splits)
  have eq: "p @ [NUL] @ ?sl = ?pre @ q @ NUL # ?sl" using pq by simp
  have sp: "split_loop ?b 1 (p @ [NUL] @ ?sl) [?b] = Inl Out_of_bounds"
    unfolding eq by (rule split_loop_overflow [OF nq len])
      (use p(2) length_slash_pos [of "?b + 1" q] in \<open>simp_all add: comps_def q\<close>)
  have b: "(if (p @ [NUL] @ ?sl) ! 0 = SLASH then 1 else 0) = ?b" using ne by (cases p) (auto simp: lead_def)
  have st: "start_dir (p @ [NUL] @ ?sl) base s = Inr (Some cb)" using cb ne by (cases p) (auto simp: start_dir_def)
  show ?thesis unfolding dir_namev_def Let_def b st using mem sp by simp
qed

section \<open>A small file system\<close>

text \<open>
  The root directory 60 has the directories 61, called \<^verbatim>\<open>bin\<close>, and 63,
  called \<^verbatim>\<open>a\<close>; the regular file 62 is \<^verbatim>\<open>/bin/ls\<close> and 64 is
  \<^verbatim>\<open>/a/a\<close>.
\<close>

definition demo_child :: dirs where
  "demo_child d n =
     (if d = 60 \<and> n = ''bin'' then Some 61 else if d = 60 \<and> n = ''a'' then Some 63
      else if d = 61 \<and> n = ''ls'' then Some 62 else if d = 63 \<and> n = ''a'' then Some 64 else None)"

definition demo_lookup :: "ptr \<Rightarrow> vop_node" where
  "demo_lookup d name s =
     Inr (case demo_child d name of None \<Rightarrow> (- errno i386 ENOENT, None, s) | Some v \<Rightarrow> (0, Some v, bump v 1 s))"

definition demo_fs :: kenv where
  "demo_fs = demo_env\<lparr>fs_lookup := (\<lambda>d. Some (demo_lookup d)), vref := (\<lambda>v s. Inr (bump v 1 s)), vput := (\<lambda>v s. Inr (bump v (- 1) s))\<rparr>"

definition demo_vnode :: "u32 \<Rightarrow> vnode" where
  "demo_vnode mode = \<lparr>vn_ops = Some Fs_ops, vn_mode = mode, vn_len = 100, vn_refcount = 1, vn_devid = 0, vn_cdev = None, vn_bdev = None\<rparr>"

definition disk_state :: kstate where
  "disk_state = demo_family\<lparr>vnodes := [60 \<mapsto> demo_vnode 2, 61 \<mapsto> demo_vnode 2, 62 \<mapsto> demo_vnode 8, 63 \<mapsto> demo_vnode 2, 64 \<mapsto> demo_vnode 8],
     vfs_root_vn := Some 60\<rparr>"

lemma demo_fs_laws: "dirs_ok i386 demo_fs demo_child" "refs_ok demo_fs" "\<forall>n. kmalloc_ok demo_fs n s"
  by (simp_all add: dirs_ok_def refs_ok_def demo_fs_def demo_lookup_def demo_env_def)

lemma disk_state_resident: "resident demo_child disk_state"
  by (auto simp: resident_def disk_state_def demo_child_def demo_vnode_def split: if_splits)

lemma i386_errno_pos: "\<forall>e. 0 < errno i386 e"
proof
  fix e show "0 < errno i386 e" by (cases e) (simp_all add: i386_pids)
qed

lemma disk_state_start: "start_dir (SLASH # p) base disk_state = Inr (Some 60)" "vnodes disk_state 60 = Some (demo_vnode 2)"
  by (simp_all add: start_dir_def disk_state_def)

lemmas path_eval = path_ok_def comps_def base_name_def lead_def SLASH_def NUL_def slash_after_def

lemma demo_paths:
  "path_ok ''/bin/ls''" "comps ''/bin/ls'' = [''bin'', ''ls'']" "base_name ''/bin/ls'' = ''ls''" "\<not> slash_after ''/bin/ls''"
  "path_ok ''/a/a''" "comps ''/a/a'' = [''a'', ''a'']" "base_name ''/a/a'' = ''a''" "slash_after ''/a/a''"
  by (simp_all add: path_eval)

lemma disk_state_files: "vnodes disk_state 61 = Some (demo_vnode 2)" "vnodes disk_state 62 = Some (demo_vnode 8)"
  "vnodes disk_state 63 = Some (demo_vnode 2)" "vnodes disk_state 64 = Some (demo_vnode 8)"
  by (simp_all add: disk_state_def)

lemma demo_searchable: "vnodes disk_state d = Some (demo_vnode m) \<Longrightarrow> searchable demo_fs disk_state d"
  by (simp add: searchable_def demo_fs_def demo_vnode_def)

lemma demo_is_dir: "vnodes disk_state d = Some (demo_vnode m) \<Longrightarrow> is_dir i386 disk_state d \<longleftrightarrow> m = 2"
  by (simp add: is_dir_def demo_vnode_def i386_def)

lemmas disk_state_eval = demo_searchable demo_is_dir disk_state_start(2) disk_state_files

lemma demo_walk:
  "walk i386 demo_fs demo_child disk_state [''bin''] 60 = Inr 61" "walk i386 demo_fs demo_child disk_state [''a''] 60 = Inr 63"
  "entry i386 demo_fs demo_child disk_state 61 ''ls'' = Inr 62" "entry i386 demo_fs demo_child disk_state 63 ''a'' = Inr 64"
  by (simp_all add: entry_def demo_child_def disk_state_eval)

section \<open>Properties\<close>

text \<open>C16: \<^verbatim>\<open>dir_namev\<close> resolves a path the way the reference walk does: it starts at the root
  or at the base directory, looks every component but the last up in turn, and fails with -ENOENT or
  -ENOTDIR where the walk fails.  On success the result is the directory reached, with one reference
  more, and the last component; on failure every reference it took is given back and the state is as
  before.\<close>

theorem dir_namev_resolves:
  assumes "dirs_ok K E child" and "refs_ok E" and "\<forall>e. 0 < errno K e" and "resident child s"
    and "\<forall>n. kmalloc_ok E n s" and "path_ok p" and "start_dir p base s = Inr (Some cb)" and "vnodes s cb \<noteq> None"
  shows "case walk K E child s (butlast (comps p)) cb of
      Inl e \<Rightarrow> dir_namev K E p base s = Inr (e, None, s)
    | Inr d \<Rightarrow> \<exists>name. dir_namev K E p base s = Inr (0, Some (Some name, length (base_name p), d), bump d 1 s) \<and>
        take (length (base_name p)) name = base_name p"
proof -
  obtain q where q: "strstr p (base_name p) = Some q" "take (length (base_name p)) q = base_name p"
    using base_name_found [OF assms(6)] by blast
  show ?thesis using dir_namev_walk [OF assms, unfolded q(1)] q(2) by (simp split: sum.splits)
qed

theorem dir_namev_resolves_witness:
  "\<exists>name. dir_namev i386 demo_fs ''/bin/ls'' None disk_state = Inr (0, Some (Some name, 2, 61), bump 61 1 disk_state) \<and>
     take 2 name = ''ls''"
proof -
  have "start_dir ''/bin/ls'' None disk_state = Inr (Some 60)" using disk_state_start(1) [of "''bin/ls''" None] by (simp add: SLASH_def)
  from dir_namev_resolves [OF demo_fs_laws(1,2) i386_errno_pos disk_state_resident demo_fs_laws(3) demo_paths(1) this]
  show ?thesis unfolding demo_paths by (simp add: demo_walk disk_state_eval numeral_2_eq_2 del: walk.simps)
qed

text \<open>C29: \<^verbatim>\<open>open_namev\<close> without \<^verbatim>\<open>O_CREAT\<close> finds the vnode that the path names and holds
  exactly one reference to it, on every path: an error of the walk, a missing last component, a path
  that ends in a slash, and the vnode found; on errors the state is as before.  The name must not be
  followed by a slash where it occurs first in the path.\<close>

theorem open_namev_finds:
  assumes "dirs_ok K E child" and "refs_ok E" and "\<forall>e. 0 < errno K e" and "resident child s"
    and "\<forall>n. kmalloc_ok E n s" and "path_ok p" and "start_dir p base s = Inr (Some cb)"
    and "vnodes s cb = Some cn" and "0 < vn_refcount cn" and "flag AND O_CREAT K = 0" and "\<not> slash_after p"
  shows "open_namev K E p flag base s =
    (case walk K E child s (butlast (comps p)) cb of
       Inl e \<Rightarrow> Inr (e, None, s)
     | Inr d \<Rightarrow>
         if base_name p = [] then Inr (0, Some d, bump d 1 s)
         else case entry K E child s d (base_name p) of Inl e \<Rightarrow> Inr (e, None, s) | Inr v \<Rightarrow> Inr (0, Some v, bump v 1 s))"
  unfolding open_namev_walk [OF assms(1-9)] using assms(10,11) by (auto split: sum.splits)

theorem open_namev_finds_witness:
  "open_namev i386 demo_fs ''/bin/ls'' 0 None disk_state = Inr (0, Some 62, bump 62 1 disk_state)"
proof -
  have "start_dir ''/bin/ls'' None disk_state = Inr (Some 60)" using disk_state_start(1) [of "''bin/ls''" None] by (simp add: SLASH_def)
  from open_namev_finds [OF demo_fs_laws(1,2) i386_errno_pos disk_state_resident demo_fs_laws(3) demo_paths(1) this disk_state_start(2)]
  show ?thesis unfolding demo_paths by (simp add: demo_walk demo_vnode_def demo_paths(4) del: walk.simps)
qed

text \<open>C39: \<^verbatim>\<open>open_namev\<close> takes the wrong slash for the end of the name.  \<^verbatim>\<open>dir_namev\<close> returns
  the first place where the last component occurs in the path; if a slash follows there, as in
  \<^verbatim>\<open>/a/a\<close>, opening a regular file fails with -ENOTDIR although the file exists.\<close>

theorem open_namev_repeated_name:
  assumes "dirs_ok K E child" and "refs_ok E" and "\<forall>e. 0 < errno K e" and "resident child s"
    and "\<forall>n. kmalloc_ok E n s" and "path_ok p" and "start_dir p base s = Inr (Some cb)"
    and "vnodes s cb = Some cn" and "0 < vn_refcount cn" and "slash_after p"
    and "walk K E child s (butlast (comps p)) cb = Inr d" and "base_name p \<noteq> []"
    and "entry K E child s d (base_name p) = Inr v" and "\<not> is_dir K s v"
  shows "open_namev K E p flag base s = Inr (- errno K ENOTDIR, Some v, s)"
  unfolding open_namev_walk [OF assms(1-9)] using assms(10-14) by simp

theorem open_namev_repeated_name_witness:
  "open_namev i386 demo_fs ''/a/a'' 0 None disk_state = Inr (- 20, Some 64, disk_state)"
proof -
  have "start_dir ''/a/a'' None disk_state = Inr (Some 60)" using disk_state_start(1) [of "''a/a''" None] by (simp add: SLASH_def)
  from open_namev_repeated_name [OF demo_fs_laws(1,2) i386_errno_pos disk_state_resident demo_fs_laws(3) demo_paths(5) this
      disk_state_start(2) _ demo_paths(8), of 63 64 0]
  show ?thesis unfolding demo_paths by (simp add: demo_walk demo_vnode_def demo_is_dir [OF disk_state_files(4)] i386_pids del: walk.simps)
qed

text \<open>\<^verbatim>\<open>dir_namev\<close> overruns its array of components.  The array has room for 50, and a path
  with more of them makes the loop store behind its end.\<close>

lemma dir_namev_overruns:
  assumes "\<forall>n. kmalloc_ok E n s" and "NUL \<notin> set p" and "50 < length (comps p)" and "start_dir p base s = Inr (Some cb)"
  shows "dir_namev K E p base s = Inl Out_of_bounds"
  by (rule dir_namev_overflow [OF assms])

definition deep_path :: "nat \<Rightarrow> string" where
  "deep_path n = concat (replicate n ''/a'')"

lemma dir_namev_overruns_example:
  "dir_namev i386 demo_fs (deep_path 51) None disk_state = Inl Out_of_bounds"
proof (rule dir_namev_overruns [OF demo_fs_laws(3)])
  have e: "deep_path 51 = SLASH # drop 1 (deep_path 51)" by (simp add: deep_path_def SLASH_def numeral_eq_Suc)
  show "start_dir (deep_path 51) None disk_state = Inr (Some 60)" by (subst e) (rule disk_state_start)
  show "NUL \<notin> set (deep_path 51)" by (simp add: deep_path_def NUL_def)
  have sp: "length (split_slash (concat (replicate n ''/a''))) = n + 1" for n by (induction n) (simp_all add: SLASH_def)
  have "deep_path 51 = SLASH # CHR ''a'' # concat (replicate 50 ''/a'')"
    unfolding deep_path_def by (simp add: SLASH_def replicate_Suc [of 50, symmetric] numeral_eq_Suc)
  then show "50 < length (comps (deep_path 51))" using sp [of 50] by (simp add: comps_def lead_def)
qed

end
