(* ===== verification/Files.thy ===== *)
theory Files
  imports Namev
begin

text \<open>
  Open files: \<^verbatim>\<open>kernel/fs/open.c\<close> and the operations on file descriptors
  of \<^verbatim>\<open>kernel/fs/vfs_syscall.c\<close>.  A routine that fills a buffer returns what
  it stored there, \<open>None\<close> when it did not get that far.  File positions
  are C integers, whose sums wrap.
\<close>

unbundle bit_operations_syntax

section \<open>Operations\<close>

definition upd_file :: "ptr \<Rightarrow> (ofile \<Rightarrow> ofile) \<Rightarrow> kstate \<Rightarrow> kstate" where
  "upd_file f g s = s\<lparr>files := (files s)(f := map_option g (files s f))\<rparr>"

text \<open>\<^verbatim>\<open>p->p_files[fd]\<close>, read and written; an index outside the table is a fault.\<close>

definition get_fd :: "ptr \<Rightarrow> int \<Rightarrow> kstate \<Rightarrow> ptr option res" where
  "get_fd p fd s =
     bindE (deref (procs s p)) (\<lambda>pr.
       if fd < 0 \<or> int (length (p_files pr)) \<le> fd then Inl Out_of_bounds else Inr (p_files pr ! nat fd))"

definition set_fd :: "ptr \<Rightarrow> int \<Rightarrow> ptr option \<Rightarrow> kstate \<Rightarrow> kstate res" where
  "set_fd p fd f s =
     bindE (deref (procs s p)) (\<lambda>pr.
       if fd < 0 \<or> int (length (p_files pr)) \<le> fd then Inl Out_of_bounds
       else Inr (upd_proc p (\<lambda>x. x\<lparr>p_files := (p_files x)[nat fd := f]\<rparr>) s))"

fun empty_fd_loop :: "kconsts \<Rightarrow> ptr \<Rightarrow> nat list \<Rightarrow> kstate \<Rightarrow> int res" where
  "empty_fd_loop K p [] s = Inr (- errno K EMFILE)"
| "empty_fd_loop K p (fd # fds) s =
     bindE (get_fd p (int fd) s) (\<lambda>f. if f = None then Inr (int fd) else empty_fd_loop K p fds s)"

definition get_empty_fd :: "kconsts \<Rightarrow> ptr \<Rightarrow> kstate \<Rightarrow> int res" where
  "get_empty_fd K p s = empty_fd_loop K p [0..<NFILES K] s"

definition open_mode :: "kconsts \<Rightarrow> u32 \<Rightarrow> u32" where
  "open_mode K oflags =
     (let m0 = 0;
          m1 = (if oflags AND 3 = O_RDONLY K then m0 OR FMODE_READ K else m0);
          m2 = (if oflags AND 3 = O_WRONLY K then m1 OR FMODE_WRITE K else m1);
          m3 = (if oflags AND 3 = O_RDWR K then (m2 OR FMODE_READ K) OR FMODE_WRITE K else m2)
      in if oflags AND O_APPEND K \<noteq> 0 then m3 OR FMODE_APPEND K else m3)"

definition do_open :: "kconsts \<Rightarrow> kenv \<Rightarrow> string \<Rightarrow> u32 \<Rightarrow> kstate \<Rightarrow> (int \<times> kstate) res" where
  "do_open K E filename oflags s =
     (if oflags AND O_WRONLY K \<noteq> 0 \<and> oflags AND O_RDWR K \<noteq> 0 then Inr (- errno K EINVAL, s)
      else if length filename > NAME_LEN K then Inr (- errno K ENAMETOOLONG, s)
      else
        bindE (deref (curproc s)) (\<lambda>cp.
        bindE (get_empty_fd K cp s) (\<lambda>fd.
        bindE (fget E (- 1) s) (\<lambda>(filep, s1).
        bindE (set_fd cp fd filep s1) (\<lambda>s2.
        bindE (deref filep) (\<lambda>f.
        bindE (deref (files s2 f)) (\<lambda>_.
          let s3 = upd_file f (\<lambda>x. x\<lparr>f_mode := open_mode K oflags\<rparr>) s2 in
          bindE (open_namev K E filename oflags None s3) (\<lambda>(retval, file_vnode, s4).
            if retval \<noteq> 0 then
              bindE (fput E f s4) (\<lambda>s5. bindE (set_fd cp fd None s5) (\<lambda>s6. Inr (retval, s6)))
            else
              let s5 = upd_file f (\<lambda>x. x\<lparr>f_vnode := file_vnode\<rparr>) s4 in
              bindE (deref file_vnode) (\<lambda>v.
              bindE (deref (vnodes s5 v)) (\<lambda>vn.
                if S_ISDIR K (vn_mode vn) \<and> (oflags AND 3 = O_WRONLY K \<or> oflags AND 3 = O_RDWR K) then
                  bindE (fput E f s5) (\<lambda>s6. bindE (set_fd cp fd None s6) (\<lambda>s7. Inr (- errno K EISDIR, s7)))
                else Inr (fd, upd_file f (\<lambda>x. x\<lparr>f_refcount := 1, f_pos := 0\<rparr>) s5)))))))))))"

text \<open>\<^verbatim>\<open>fput\<close> and return \<open>r\<close>.\<close>

definition fput_ret :: "kenv \<Rightarrow> ptr \<Rightarrow> int \<Rightarrow> kstate \<Rightarrow> (int \<times> kstate) res" where
  "fput_ret E f r s = bindE (fput E f s) (\<lambda>s1. Inr (r, s1))"

definition do_read :: "kconsts \<Rightarrow> kenv \<Rightarrow> int \<Rightarrow> u32 \<Rightarrow> kstate \<Rightarrow> (int \<times> bytes option \<times> kstate) res" where
  "do_read K E fd nbytes s =
     bindE (fget E fd s) (\<lambda>(fp, s1).
       case fp of
         None \<Rightarrow> Inr (- errno K EBADF, None, s1)
       | Some f \<Rightarrow>
           bindE (deref (files s1 f)) (\<lambda>file_to_read.
             let mode = f_mode file_to_read in
             if mode = 0 \<or> mode = FMODE_WRITE K \<or> mode = FMODE_WRITE K AND FMODE_APPEND K then
               bindE (fput E f s1) (\<lambda>s2. Inr (- errno K EBADF, None, s2))
             else
               bindE (deref (f_vnode file_to_read)) (\<lambda>v.
               bindE (deref (vnodes s1 v)) (\<lambda>vn.
                 if S_ISDIR K (vn_mode vn) then bindE (fput E f s1) (\<lambda>s2. Inr (- errno K EISDIR, None, s2))
                 else
                   bindE (vnode_op v s1 (vop_read K E)) (\<lambda>rdp.
                   bindE (deref rdp) (\<lambda>rd.
                   bindE (rd (f_pos file_to_read) nbytes s1) (\<lambda>(res, buf, s2).
                     let s3 = (if res > 0 then upd_file f (\<lambda>x. x\<lparr>f_pos := int32 (f_pos x + res)\<rparr>) s2 else s2) in
                     bindE (fput E f s3) (\<lambda>s4. Inr (res, Some buf, s4)))))))))"

definition do_lseek :: "kconsts \<Rightarrow> kenv \<Rightarrow> int \<Rightarrow> int \<Rightarrow> int \<Rightarrow> kstate \<Rightarrow> (int \<times> kstate) res" where
  "do_lseek K E fd offset whence s =
     (if whence \<noteq> SEEK_SET K \<and> whence \<noteq> SEEK_CUR K \<and> whence \<noteq> SEEK_END K then Inr (- errno K EINVAL, s)
      else
        bindE (fget E fd s) (\<lambda>(fp, s1).
          case fp of
            None \<Rightarrow> Inr (- errno K EBADF, s1)
          | Some f \<Rightarrow>
              bindE (deref (files s1 f)) (\<lambda>op_file.
                if f_mode op_file = 0 then fput_ret E f (- errno K EBADF) s1
                else
                  bindE (if whence = SEEK_SET K then Inr offset
                         else if whence = SEEK_CUR K then Inr (int32 (f_pos op_file + offset))
                         else bindE (deref (f_vnode op_file)) (\<lambda>v.
                              bindE (deref (vnodes s1 v)) (\<lambda>vn. Inr (int32 (vn_len vn + offset))))) (\<lambda>pos.
                    if pos \<ge> 0 then
                      bindE (fput E f (upd_file f (\<lambda>x. x\<lparr>f_pos := pos\<rparr>) s1)) (\<lambda>s2. Inr (pos, s2))
                    else fput_ret E f (- errno K EINVAL) s1))))"

definition do_write :: "kconsts \<Rightarrow> kenv \<Rightarrow> int \<Rightarrow> bytes \<Rightarrow> u32 \<Rightarrow> kstate \<Rightarrow> (int \<times> kstate) res" where
  "do_write K E fd buf nbytes s =
     bindE (fget E fd s) (\<lambda>(fp, s1).
       case fp of
         None \<Rightarrow> Inr (- errno K EBADF, s1)
       | Some f \<Rightarrow>
           bindE (deref (files s1 f)) (\<lambda>file0.
             let mode = f_mode file0 in
             if mode = 0 \<or> mode AND FMODE_APPEND K = 0 \<and> mode AND FMODE_WRITE K = 0 then
               fput_ret E f (- errno K EBADF) s1
             else
               bindE (if mode AND FMODE_APPEND K \<noteq> 0 then do_lseek K E fd 0 (SEEK_END K) s1
                      else do_lseek K E fd 0 (SEEK_CUR K) s1) (\<lambda>(_, s2).
               bindE (deref (files s2 f)) (\<lambda>file_to_write.
               bindE (deref (f_vnode file_to_write)) (\<lambda>v.
               bindE (vnode_op v s2 (vop_write K E)) (\<lambda>wrp.
               bindE (deref wrp) (\<lambda>wr.
               bindE (wr (f_pos file_to_write) buf nbytes s2) (\<lambda>(res, s3).
                 if res > 0 then
                   let s4 = upd_file f (\<lambda>x. x\<lparr>f_pos := int32 (f_pos x + res)\<rparr>) s3 in
                   bindE (deref (vnodes s4 v)) (\<lambda>vn.
                   bindE (deref (files s4 f)) (\<lambda>file1.
                     if \<not> (S_ISCHR K (vn_mode vn) \<or> S_ISBLK K (vn_mode vn) \<or>
                            S_ISREG K (vn_mode vn) \<and> f_pos file1 \<le> vn_len vn) then Inl KASSERT_failed
                     else fput_ret E f res s4))
                 else fput_ret E f res s3))))))))"

definition do_close :: "kconsts \<Rightarrow> kenv \<Rightarrow> int \<Rightarrow> kstate \<Rightarrow> (int \<times> kstate) res" where
  "do_close K E fd s =
     bindE (fget E fd s) (\<lambda>(fp, s1).
       case fp of
         None \<Rightarrow> Inr (- errno K EBADF, s1)
       | Some f \<Rightarrow>
           bindE (deref (files s1 f)) (\<lambda>fl.
             if f_mode fl = 0 then fput_ret E f (- errno K EBADF) s1
             else
               bindE (fput E f s1) (\<lambda>s2.
               bindE (deref (curproc s2)) (\<lambda>cp.
               bindE (set_fd cp fd None s2) (\<lambda>s3. fput_ret E f 0 s3)))))"

definition do_dup :: "kconsts \<Rightarrow> kenv \<Rightarrow> int \<Rightarrow> kstate \<Rightarrow> (int \<times> kstate) res" where
  "do_dup K E fd s =
     bindE (fget E fd s) (\<lambda>(fp, s1).
       case fp of
         None \<Rightarrow> Inr (- errno K EBADF, s1)
       | Some f \<Rightarrow>
           bindE (deref (files s1 f)) (\<lambda>fl.
             if f_mode fl = 0 then fput_ret E f (- errno K EBADF) s1
             else
               bindE (deref (curproc s1)) (\<lambda>cp.
               bindE (get_empty_fd K cp s1) (\<lambda>nfd.
               bindE (set_fd cp nfd (Some f) s1) (\<lambda>s2. Inr (nfd, s2))))))"

definition do_dup2 :: "kconsts \<Rightarrow> kenv \<Rightarrow> int \<Rightarrow> int \<Rightarrow> kstate \<Rightarrow> (int \<times> kstate) res" where
  "do_dup2 K E ofd nfd s =
     (if ofd < 0 \<or> ofd \<ge> MAX_FILES K \<or> nfd < 0 \<or> nfd \<ge> MAX_FILES K then Inr (- errno K EBADF, s)
      else
        bindE (fget E ofd s) (\<lambda>(fp, s1).
          case fp of
            None \<Rightarrow> Inr (- errno K EBADF, s1)
          | Some f \<Rightarrow>
              bindE (deref (files s1 f)) (\<lambda>fl.
                if f_mode fl = 0 then fput_ret E f (- errno K EBADF) s1
                else
                  bindE (deref (curproc s1)) (\<lambda>cp.
                  bindE (get_fd cp nfd s1) (\<lambda>cur.
                    if cur \<noteq> None \<and> nfd = ofd then fput_ret E f nfd s1
                    else if cur = None then bindE (set_fd cp nfd (Some f) s1) (\<lambda>s2. Inr (nfd, s2))
                    else Inr (nfd, s1))))))"

definition do_getdent :: "kconsts \<Rightarrow> kenv \<Rightarrow> int \<Rightarrow> kstate \<Rightarrow> (int \<times> bytes option \<times> kstate) res" where
  "do_getdent K E fd s =
     bindE (fget E fd s) (\<lambda>(fp, s1).
       case fp of
         None \<Rightarrow> Inr (- errno K EBADF, None, s1)
       | Some f \<Rightarrow>
           bindE (deref (files s1 f)) (\<lambda>fl.
             if f_mode fl = 0 then bindE (fput E f s1) (\<lambda>s2. Inr (- errno K EBADF, None, s2))
             else
               bindE (deref (f_vnode fl)) (\<lambda>v.
               bindE (vnode_op v s1 (vop_readdir E)) (\<lambda>rdp.
                 case rdp of
                   None \<Rightarrow> bindE (fput E f s1) (\<lambda>s2. Inr (- errno K ENOTDIR, None, s2))
                 | Some readdir \<Rightarrow>
                     bindE (readdir (f_pos fl) s1) (\<lambda>(retval, dirp, s2).
                       if retval \<noteq> 0 then
                         bindE (fput E f (upd_file f (\<lambda>x. x\<lparr>f_pos := int32 (f_pos x + retval)\<rparr>) s2)) (\<lambda>s3.
                           Inr (sizeof_dirent K, Some dirp, s3))
                       else bindE (fput E f s2) (\<lambda>s3. Inr (0, Some dirp, s3)))))))"

section \<open>The file table\<close>

text \<open>
  What the code relies on of \<^verbatim>\<open>fs/file.c\<close>, as documented:
  \<^verbatim>\<open>fget\<close> of an open
  descriptor gives its file with one reference more, of any other a null pointer;
  \<^verbatim>\<open>fput\<close> drops a reference, and with the last one the file and its
  reference to the vnode.
\<close>

definition new_file :: ofile where
  "new_file = \<lparr>f_pos = 0, f_mode = 0, f_refcount = 1, f_vnode = None\<rparr>"

definition bumpf :: "ptr \<Rightarrow> int \<Rightarrow> kstate \<Rightarrow> kstate" where
  "bumpf f k s = upd_file f (\<lambda>x. x\<lparr>f_refcount := f_refcount x + k\<rparr>) s"

definition fget_ok :: "kenv \<Rightarrow> bool" where
  "fget_ok E \<longleftrightarrow> (\<forall>fd s p pr. curproc s = Some p \<longrightarrow> procs s p = Some pr \<longrightarrow> fd \<noteq> - 1 \<longrightarrow>
     fget E fd s = (if 0 \<le> fd \<and> fd < int (length (p_files pr))
       then case p_files pr ! nat fd of Some f \<Rightarrow> Inr (Some f, bumpf f 1 s) | None \<Rightarrow> Inr (None, s)
       else Inr (None, s)))"

definition fput_ok :: "kenv \<Rightarrow> bool" where
  "fput_ok E \<longleftrightarrow> (\<forall>f s fl. files s f = Some fl \<longrightarrow>
     (1 < f_refcount fl \<longrightarrow> fput E f s = Inr (bumpf f (- 1) s)) \<and>
     (f_refcount fl = 1 \<longrightarrow> fput E f s = bindE (put_opt E (f_vnode fl) s) (\<lambda>s1. Inr (s1\<lparr>files := (files s1)(f := None)\<rparr>))))"

lemma upd_file_sel [simp]:
  "files (upd_file f g s) = (files s)(f := map_option g (files s f))" "procs (upd_file f g s) = procs s"
  "vnodes (upd_file f g s) = vnodes s" "curproc (upd_file f g s) = curproc s" "vfs_root_vn (upd_file f g s) = vfs_root_vn s"
  by (simp_all add: upd_file_def)

lemma bumpf_sel [simp]:
  "files (bumpf f k s) = (files s)(f := map_option (\<lambda>x. x\<lparr>f_refcount := f_refcount x + k\<rparr>) (files s f))"
  "procs (bumpf f k s) = procs s" "vnodes (bumpf f k s) = vnodes s" "curproc (bumpf f k s) = curproc s"
  by (simp_all add: bumpf_def)

lemma upd_file_same: "(\<And>x. files s f = Some x \<Longrightarrow> g x = x) \<Longrightarrow> upd_file f g s = s"
  unfolding upd_file_def by (cases "files s f") (auto simp: fun_upd_idem)

lemma bumpf_bumpf [simp]: "bumpf f k (bumpf f l s) = bumpf f (l + k) s"
  by (simp add: bumpf_def upd_file_def option.map_comp comp_def add.assoc)

lemma bumpf_zero [simp]: "bumpf f 0 s = s"
  by (simp add: bumpf_def upd_file_same)

lemma fput_back:
  assumes "fput_ok E" and "files s f = Some fl" and "0 < f_refcount fl"
  shows "fput E f (bumpf f 1 s) = Inr s"
  using assms by (auto simp: fput_ok_def)

lemma fget_open:
  assumes "fget_ok E" and "curproc s = Some p" and "procs s p = Some pr" and "0 \<le> fd" "fd < int (length (p_files pr))"
    and "p_files pr ! nat fd = Some f"
  shows "fget E fd s = Inr (Some f, bumpf f 1 s)"
  using assms by (simp add: fget_ok_def)

section \<open>Descriptors\<close>

lemma empty_fd_loop_find:
  assumes "procs s p = Some pr" and "\<forall>i\<in>set is. i < length (p_files pr)"
  shows "empty_fd_loop K p is s = Inr (case List.find (\<lambda>i. p_files pr ! i = None) is of Some i \<Rightarrow> int i | None \<Rightarrow> - errno K EMFILE)"
  using assms by (induction "is") (auto simp: get_fd_def)

text \<open>The lowest descriptor that is free.\<close>

definition free_fd :: "ptr option list \<Rightarrow> nat \<Rightarrow> bool" where
  "free_fd fs i \<longleftrightarrow> i < length fs \<and> fs ! i = None \<and> (\<forall>j<i. fs ! j \<noteq> None)"

lemma get_empty_fd_free:
  assumes "procs s p = Some pr" and "length (p_files pr) = NFILES K" and "free_fd (p_files pr) i"
  shows "get_empty_fd K p s = Inr (int i)"
proof -
  have "List.find (\<lambda>i. p_files pr ! i = None) [0..<NFILES K] = Some i"
    unfolding find_Some_iff by (intro exI [of _ i]) (use assms in \<open>simp add: free_fd_def\<close>)
  then show ?thesis using empty_fd_loop_find [OF assms(1), of "[0..<NFILES K]" K] assms(2) by (simp add: get_empty_fd_def)
qed

lemma get_empty_fd_full:
  assumes "procs s p = Some pr" and "length (p_files pr) = NFILES K" and "\<forall>i<length (p_files pr). p_files pr ! i \<noteq> None"
  shows "get_empty_fd K p s = Inr (- errno K EMFILE)"
proof -
  have "List.find (\<lambda>i. p_files pr ! i = None) [0..<NFILES K] = None" using assms by (auto simp: find_None_iff)
  then show ?thesis using empty_fd_loop_find [OF assms(1), of "[0..<NFILES K]" K] assms(2) by (simp add: get_empty_fd_def)
qed

definition with_fd :: "ptr \<Rightarrow> nat \<Rightarrow> ptr option \<Rightarrow> kstate \<Rightarrow> kstate" where
  "with_fd p i f s = upd_proc p (\<lambda>x. x\<lparr>p_files := (p_files x)[i := f]\<rparr>) s"

lemma with_fd_sel [simp]:
  "procs (with_fd p i f s) = (procs s)(p := map_option (\<lambda>x. x\<lparr>p_files := (p_files x)[i := f]\<rparr>) (procs s p))"
  "files (with_fd p i f s) = files s" "vnodes (with_fd p i f s) = vnodes s" "curproc (with_fd p i f s) = curproc s"
  "vfs_root_vn (with_fd p i f s) = vfs_root_vn s"
  by (simp_all add: with_fd_def)

lemma set_fd_ok:
  assumes "procs s p = Some pr" and "i < length (p_files pr)"
  shows "set_fd p (int i) f s = Inr (with_fd p i f s)"
  using assms by (simp add: set_fd_def with_fd_def)

lemma with_fd_back:
  assumes "procs s p = Some pr" and "p_files pr ! i = f"
  shows "with_fd p i f (with_fd p i g s) = s"
proof -
  have "(p_files pr)[i := g, i := f] = p_files pr" using assms(2) by auto
  then have "(procs s)(p \<mapsto> pr\<lparr>p_files := (p_files pr)[i := g, i := f]\<rparr>) = procs s" using assms(1) by (simp add: fun_upd_idem)
  then show ?thesis using assms(1) by (simp add: with_fd_def upd_proc_def)
qed

section \<open>Opening\<close>

lemma walk_cong:
  assumes "vnodes s' = vnodes s"
  shows "walk K E child s' cs d = walk K E child s cs d"
  by (induction cs arbitrary: d) (simp_all add: entry_def searchable_def is_dir_def assms cong: if_cong sum.case_cong)

lemma entry_cong: "vnodes s' = vnodes s \<Longrightarrow> entry K E child s' d n = entry K E child s d n"
  by (simp add: entry_def searchable_def)

lemma resident_cong: "vnodes s' = vnodes s \<Longrightarrow> resident child s' = resident child s"
  by (simp add: resident_def)

text \<open>What the path names, or why it names nothing.\<close>

definition target :: "kconsts \<Rightarrow> kenv \<Rightarrow> dirs \<Rightarrow> kstate \<Rightarrow> ptr \<Rightarrow> string \<Rightarrow> int + ptr" where
  "target K E child s cb p =
     (case walk K E child s (butlast (comps p)) cb of
        Inl e \<Rightarrow> Inl e
      | Inr d \<Rightarrow> if base_name p = [] then Inr d else entry K E child s d (base_name p))"

lemma target_cong:
  assumes "vnodes s' = vnodes s"
  shows "target K E child s' cb p = target K E child s cb p"
  unfolding target_def walk_cong [OF assms] entry_cong [OF assms] ..

lemma target_live:
  assumes "resident child s" and "target K E child s cb p = Inr v" and "vnodes s cb = Some cn" "0 < vn_refcount cn"
  shows "\<exists>vn. vnodes s v = Some vn \<and> 0 < vn_refcount vn"
proof -
  obtain d where d: "walk K E child s (butlast (comps p)) cb = Inr d" using assms(2) by (auto simp: target_def split: sum.splits)
  show ?thesis using walk_live [OF assms(1) d assms(3,4)] entry_live [OF assms(1)] assms(2) d
    by (auto simp: target_def split: if_splits)
qed

lemma target_err:
  assumes "\<forall>e. 0 < errno K e" and "target K E child s cb p = Inl e"
  shows "e < 0"
proof -
  have neg: "- errno K ENOENT < 0" "- errno K ENOTDIR < 0" using assms(1) [rule_format, of ENOENT] assms(1) [rule_format, of ENOTDIR] by auto
  have "e < 0" if "walk K E child s cs d = Inl e" for cs d e
    using that neg by (induction cs arbitrary: d) (auto simp: entry_def split: if_splits option.splits sum.splits)
  then show ?thesis using assms(2) neg by (auto simp: target_def entry_def split: if_splits option.splits sum.splits)
qed

lemma open_namev_target:
  assumes "dirs_ok K E child" and "refs_ok E" and "\<forall>e. 0 < errno K e" and "resident child s"
    and "\<forall>n. kmalloc_ok E n s" and "path_ok p" and "start_dir p base s = Inr (Some cb)"
    and "vnodes s cb = Some cn" and "0 < vn_refcount cn" and "flag AND O_CREAT K = 0" and "\<not> slash_after p"
  shows "open_namev K E p flag base s =
    (case target K E child s cb p of Inl e \<Rightarrow> Inr (e, None, s) | Inr v \<Rightarrow> Inr (0, Some v, bump v 1 s))"
  unfolding open_namev_walk [OF assms(1-9)] target_def using assms(10,11) by (auto split: sum.splits)

definition wants_write :: "kconsts \<Rightarrow> u32 \<Rightarrow> bool" where
  "wants_write K oflags \<longleftrightarrow> oflags AND 3 = O_WRONLY K \<or> oflags AND 3 = O_RDWR K"

text \<open>The state after opening \<open>v\<close> as descriptor \<open>i\<close>.\<close>

definition opened :: "kconsts \<Rightarrow> ptr \<Rightarrow> nat \<Rightarrow> ptr \<Rightarrow> ptr \<Rightarrow> u32 \<Rightarrow> kstate \<Rightarrow> kstate" where
  "opened K p i f v oflags s =
     bump v 1 (with_fd p i (Some f)
       (s\<lparr>files := (files s)(f \<mapsto> \<lparr>f_pos = 0, f_mode = open_mode K oflags, f_refcount = 1, f_vnode = Some v\<rparr>)\<rparr>))"

lemma upd_file_bump: "upd_file f g (bump v k s) = bump v k (upd_file f g s)"
  by (simp add: upd_file_def bump_def upd_vnode_def)

lemma upd_file_with_fd: "upd_file f g (with_fd p i x s) = with_fd p i x (upd_file f g s)"
  by (simp add: upd_file_def with_fd_def upd_proc_def)

lemma start_dir_with_fd: "start_dir q base (with_fd p i x s) = start_dir q base s"
  by (cases "curproc s"; cases "procs s (the (curproc s))") (auto simp: start_dir_def split: option.splits)

lemma start_dir_files: "start_dir q base (s\<lparr>files := fs\<rparr>) = start_dir q base s"
  by (simp add: start_dir_def split: option.splits)

lemma do_open_target:
  assumes E: "dirs_ok K E child" "refs_ok E" "fput_ok E" and er: "\<forall>e. 0 < errno K e" and r: "resident child s"
    and mem: "\<forall>n s. kmalloc_ok E n s" and p: "path_ok p" "\<not> slash_after p" "length p \<le> NAME_LEN K"
    and cb: "start_dir p None s = Inr (Some cb)" "vnodes s cb = Some cn" "0 < vn_refcount cn"
    and fl: "oflags AND O_CREAT K = 0" "oflags AND O_WRONLY K = 0 \<or> oflags AND O_RDWR K = 0"
    and c: "curproc s = Some c" "procs s c = Some pr" "length (p_files pr) = NFILES K" "free_fd (p_files pr) i"
    and f: "files s f = None" "fget E (- 1) s = Inr (Some f, s\<lparr>files := (files s)(f \<mapsto> new_file)\<rparr>)"
  shows "do_open K E p oflags s =
    (case target K E child s cb p of
       Inl e \<Rightarrow> Inr (e, s)
     | Inr v \<Rightarrow> if is_dir K s v \<and> wants_write K oflags then Inr (- errno K EISDIR, s) else Inr (int i, opened K c i f v oflags s))"
proof -
  let ?fl = "new_file\<lparr>f_mode := open_mode K oflags\<rparr>"
  let ?s3 = "with_fd c i (Some f) (s\<lparr>files := (files s)(f \<mapsto> ?fl)\<rparr>)"
  have i: "i < length (p_files pr)" "p_files pr ! i = None" using c(4) by (auto simp: free_fd_def)
  have set1: "set_fd c (int i) (Some f) (s\<lparr>files := (files s)(f \<mapsto> new_file)\<rparr>) = Inr (with_fd c i (Some f) (s\<lparr>files := (files s)(f \<mapsto> new_file)\<rparr>))"
    by (rule set_fd_ok [of _ c pr i]) (use c(2) i(1) in simp_all)
  have s3: "upd_file f (\<lambda>x. x\<lparr>f_mode := open_mode K oflags\<rparr>) (with_fd c i (Some f) (s\<lparr>files := (files s)(f \<mapsto> new_file)\<rparr>)) = ?s3"
    unfolding upd_file_with_fd by (simp add: upd_file_def)
  have on: "open_namev K E p oflags None ?s3 =
     (case target K E child s cb p of Inl e \<Rightarrow> Inr (e, None, ?s3) | Inr v \<Rightarrow> Inr (0, Some v, bump v 1 ?s3))"
  proof -
    have v: "vnodes ?s3 = vnodes s" by simp
    have st: "start_dir p None ?s3 = Inr (Some cb)" unfolding start_dir_with_fd start_dir_files by (rule cb)
    have m: "\<forall>n. kmalloc_ok E n ?s3" using mem by blast
    have rs: "resident child ?s3" using r resident_cong [OF v] by blast
    have cbs: "vnodes ?s3 cb = Some cn" using cb(2) v by (rule_tac trans [OF fun_cong [OF v]])
    show ?thesis
      using open_namev_target [OF E(1,2) er rs m p(1) st cbs cb(3) fl(1) p(2)] unfolding target_cong [OF v] .
  qed
  have restore: "set_fd c (int i) None (with_fd c i (Some f) s) = Inr s"
  proof -
    have "set_fd c (int i) None (with_fd c i (Some f) s) = Inr (with_fd c i None (with_fd c i (Some f) s))"
      by (rule set_fd_ok [of _ c "pr\<lparr>p_files := (p_files pr)[i := Some f]\<rparr>"]) (use c(2) i(1) in simp_all)
    then show ?thesis unfolding with_fd_back [OF c(2) i(2)] .
  qed
  have drop: "(with_fd c i (Some f) (s\<lparr>files := (files s)(f \<mapsto> x)\<rparr>))\<lparr>files := (files s)(f := None)\<rparr> = with_fd c i (Some f) s" for x
    using f(1) by (simp add: with_fd_def upd_proc_def fun_upd_idem)
  have head: "do_open K E p oflags s =
     bindE (open_namev K E p oflags None ?s3) (\<lambda>(retval, file_vnode, s4).
       if retval \<noteq> 0 then bindE (fput E f s4) (\<lambda>s5. bindE (set_fd c (int i) None s5) (\<lambda>s6. Inr (retval, s6)))
       else let s5 = upd_file f (\<lambda>x. x\<lparr>f_vnode := file_vnode\<rparr>) s4 in
         bindE (deref file_vnode) (\<lambda>v. bindE (deref (vnodes s5 v)) (\<lambda>vn.
           if S_ISDIR K (vn_mode vn) \<and> (oflags AND 3 = O_WRONLY K \<or> oflags AND 3 = O_RDWR K) then
             bindE (fput E f s5) (\<lambda>s6. bindE (set_fd c (int i) None s6) (\<lambda>s7. Inr (- errno K EISDIR, s7)))
           else Inr (int i, upd_file f (\<lambda>x. x\<lparr>f_refcount := 1, f_pos := 0\<rparr>) s5))))"
    unfolding do_open_def using fl(2) p(3) c(1) get_empty_fd_free [OF c(2,3,4)] f(2) set1 s3 by (auto simp: Let_def)
  show ?thesis
  proof (cases "target K E child s cb p")
    case (Inl e)
    have "fput E f ?s3 = Inr (with_fd c i (Some f) s)"
      using E(3) drop by (auto simp: fput_ok_def new_file_def put_opt_def)
    then show ?thesis unfolding head on Inl using target_err [OF er Inl] restore by simp
  next
    case (Inr v)
    obtain vn where vn: "vnodes s v = Some vn" "0 < vn_refcount vn" using target_live [OF r Inr cb(2,3)] by blast
    let ?fv = "?fl\<lparr>f_vnode := Some v\<rparr>"
    let ?s3v = "with_fd c i (Some f) (s\<lparr>files := (files s)(f \<mapsto> ?fv)\<rparr>)"
    have s5: "upd_file f (\<lambda>x. x\<lparr>f_vnode := Some v\<rparr>) (bump v 1 ?s3) = bump v 1 ?s3v"
      unfolding upd_file_bump upd_file_with_fd by (simp add: upd_file_def)
    have put: "fput E f (bump v 1 ?s3v) = Inr (with_fd c i (Some f) s)"
      using E(3) refs_back [OF E(2), of ?s3v v vn] vn drop [of ?fv] by (auto simp: fput_ok_def new_file_def put_opt_def)
    have s7: "upd_file f (\<lambda>x. x\<lparr>f_refcount := 1, f_pos := 0\<rparr>) (bump v 1 ?s3v) = opened K c i f v oflags s"
      unfolding upd_file_bump upd_file_with_fd opened_def by (simp add: upd_file_def new_file_def)
    have "vnodes (bump v 1 ?s3v) v = Some (vn\<lparr>vn_refcount := vn_refcount vn + 1\<rparr>)" using vn by simp
    then show ?thesis unfolding head on Inr using s5 put s7 restore vn by (auto simp: is_dir_def wants_write_def Let_def)
  qed
qed

section \<open>Closing and duplicating\<close>

text \<open>Descriptor \<open>i\<close> of the current process \<open>c\<close> is open on the file \<open>f\<close>.\<close>

definition open_fd :: "kstate \<Rightarrow> ptr \<Rightarrow> nat \<Rightarrow> ptr \<Rightarrow> ofile \<Rightarrow> bool" where
  "open_fd s c i f fl \<longleftrightarrow> curproc s = Some c \<and>
     (case procs s c of Some pr \<Rightarrow> i < length (p_files pr) \<and> p_files pr ! i = Some f | None \<Rightarrow> False) \<and>
     files s f = Some fl \<and> 0 < f_refcount fl \<and> f_mode fl \<noteq> 0"

lemma open_fdE:
  assumes "open_fd s c i f fl"
  obtains pr where "curproc s = Some c" "procs s c = Some pr" "i < length (p_files pr)" "p_files pr ! i = Some f"
    "files s f = Some fl" "0 < f_refcount fl" "f_mode fl \<noteq> 0"
  using assms by (auto simp: open_fd_def split: option.splits)

lemma fget_open_fd:
  assumes "fget_ok E" and "open_fd s c i f fl"
  shows "fget E (int i) s = Inr (Some f, bumpf f 1 s)"
  using assms(2) by (rule open_fdE) (rule fget_open [OF assms(1)], auto)

lemma do_close_result:
  assumes E: "fget_ok E" "fput_ok E" and o: "open_fd s c i f fl"
  shows "do_close K E (int i) s = fput_ret E f 0 (with_fd c i None s)"
  using o
proof (rule open_fdE)
  fix pr assume c: "curproc s = Some c" "procs s c = Some pr" "i < length (p_files pr)" "files s f = Some fl" "0 < f_refcount fl" "f_mode fl \<noteq> 0"
  have "fput E f (bumpf f 1 s) = Inr s" by (rule fput_back [OF E(2) c(4,5)])
  moreover have "set_fd c (int i) None s = Inr (with_fd c i None s)" by (rule set_fd_ok [OF c(2,3)])
  ultimately show ?thesis using fget_open_fd [OF E(1) o] c by (simp add: do_close_def)
qed

lemma do_dup_result:
  assumes E: "fget_ok E" and o: "open_fd s c j f fl" and pr: "procs s c = Some pr" "length (p_files pr) = NFILES K" "free_fd (p_files pr) i"
  shows "do_dup K E (int j) s = Inr (int i, with_fd c i (Some f) (bumpf f 1 s))"
  using o
proof (rule open_fdE)
  fix pr' assume c: "curproc s = Some c" "files s f = Some fl" "f_mode fl \<noteq> 0"
  have "get_empty_fd K c (bumpf f 1 s) = Inr (int i)" by (rule get_empty_fd_free) (use pr in simp_all)
  moreover have "set_fd c (int i) (Some f) (bumpf f 1 s) = Inr (with_fd c i (Some f) (bumpf f 1 s))"
    by (rule set_fd_ok [of _ c pr]) (use pr(1,3) in \<open>simp_all add: free_fd_def\<close>)
  ultimately show ?thesis using fget_open_fd [OF E o] c by (simp add: do_dup_def)
qed

lemma with_fd_bumpf: "with_fd c i x (bumpf f k s) = bumpf f k (with_fd c i x s)"
  by (simp add: with_fd_def bumpf_def upd_file_def upd_proc_def)

lemma dup_close:
  assumes E: "fget_ok E" "fput_ok E" and o: "open_fd s c j f fl"
    and pr: "procs s c = Some pr" "length (p_files pr) = NFILES K" "free_fd (p_files pr) i"
  shows "bindE (do_dup K E (int j) s) (\<lambda>(nfd, s1). do_close K E nfd s1) = Inr (0, s)"
proof -
  let ?t = "with_fd c i (Some f) (bumpf f 1 s)"
  have i: "i < length (p_files pr)" "p_files pr ! i = None" using pr(3) by (auto simp: free_fd_def)
  from o have c: "curproc s = Some c" "files s f = Some fl" "0 < f_refcount fl" "f_mode fl \<noteq> 0" by (auto elim: open_fdE)
  have "open_fd ?t c i f (fl\<lparr>f_refcount := f_refcount fl + 1\<rparr>)"
    unfolding open_fd_def using c pr(1) i by simp
  from do_close_result [OF E this] have "do_close K E (int i) ?t = fput_ret E f 0 (with_fd c i None ?t)" .
  also have "with_fd c i None ?t = bumpf f 1 s"
    by (rule with_fd_back [of _ c pr]) (use pr(1) i in simp_all)
  also have "fput_ret E f 0 (bumpf f 1 s) = Inr (0, s)" using fput_back [OF E(2) c(2,3)] by (simp add: fput_ret_def)
  finally show ?thesis unfolding do_dup_result [OF E(1) o pr] by simp
qed

lemma opened_open_fd:
  assumes "curproc s = Some c" "procs s c = Some pr" "free_fd (p_files pr) i" "open_mode K oflags \<noteq> 0"
  shows "open_fd (opened K c i f v oflags s) c i f \<lparr>f_pos = 0, f_mode = open_mode K oflags, f_refcount = 1, f_vnode = Some v\<rparr>"
  using assms unfolding open_fd_def opened_def free_fd_def by auto

lemma open_close:
  assumes E: "fget_ok E" "fput_ok E" "refs_ok E" and c: "curproc s = Some c" "procs s c = Some pr" "free_fd (p_files pr) i"
    and f: "files s f = None" and v: "vnodes s v = Some vn" "0 < vn_refcount vn" and m: "open_mode K oflags \<noteq> 0"
  shows "do_close K E (int i) (opened K c i f v oflags s) = Inr (0, s)"
proof -
  let ?fl = "\<lparr>f_pos = 0, f_mode = open_mode K oflags, f_refcount = 1, f_vnode = Some v\<rparr>"
  let ?u = "s\<lparr>files := (files s)(f \<mapsto> ?fl)\<rparr>"
  let ?t = "opened K c i f v oflags s"
  have i: "i < length (p_files pr)" "p_files pr ! i = None" using c(3) by (auto simp: free_fd_def)
  from do_close_result [OF E(1,2) opened_open_fd [OF c m]] have "do_close K E (int i) ?t = fput_ret E f 0 (with_fd c i None ?t)" .
  also have "with_fd c i None ?t = bump v 1 (with_fd c i None (with_fd c i (Some f) ?u))"
    unfolding opened_def by (simp add: with_fd_def upd_proc_def bump_def upd_vnode_def)
  also have "with_fd c i None (with_fd c i (Some f) ?u) = ?u" by (rule with_fd_back [of _ c pr]) (use c i in simp_all)
  also have "fput_ret E f 0 (bump v 1 ?u) = Inr (0, s)"
  proof -
    have "vput E v (bump v 1 ?u) = Inr ?u" by (rule refs_back [OF E(3)]) (use v in simp_all)
    moreover have "files (bump v 1 ?u) f = Some ?fl" by simp
    ultimately have "fput E f (bump v 1 ?u) = Inr (?u\<lparr>files := (files ?u)(f := None)\<rparr>)" using E(2) by (simp add: fput_ok_def put_opt_def)
    then show ?thesis using f by (simp add: fput_ret_def fun_upd_idem)
  qed
  finally show ?thesis .
qed

section \<open>Moving the file position\<close>

definition seek_pos :: "kconsts \<Rightarrow> ofile \<Rightarrow> int \<Rightarrow> int \<Rightarrow> int \<Rightarrow> int" where
  "seek_pos K fl len offset whence =
     (if whence = SEEK_SET K then offset else if whence = SEEK_CUR K then int32 (f_pos fl + offset) else int32 (len + offset))"

lemma upd_file_bumpf: "(\<And>x. g (x\<lparr>f_refcount := f_refcount x + k\<rparr>) = (g x)\<lparr>f_refcount := f_refcount (g x) + k\<rparr>) \<Longrightarrow>
  upd_file f g (bumpf f k s) = bumpf f k (upd_file f g s)"
  by (simp add: upd_file_def bumpf_def option.map_comp comp_def)

lemma do_lseek_result:
  assumes E: "fget_ok E" "fput_ok E" and o: "open_fd s c i f fl"
    and w: "whence = SEEK_SET K \<or> whence = SEEK_CUR K \<or> whence = SEEK_END K"
    and v: "f_vnode fl = Some v" "vnodes s v = Some vn"
  shows "do_lseek K E (int i) offset whence s =
    (let pos = seek_pos K fl (vn_len vn) offset whence in
     if pos \<ge> 0 then Inr (pos, upd_file f (\<lambda>x. x\<lparr>f_pos := pos\<rparr>) s) else Inr (- errno K EINVAL, s))"
proof -
  from o have fl: "files s f = Some fl" "0 < f_refcount fl" "f_mode fl \<noteq> 0" by (auto elim: open_fdE)
  let ?pos = "seek_pos K fl (vn_len vn) offset whence"
  have put0: "fput E f (bumpf f 1 s) = Inr s" by (rule fput_back [OF E(2) fl(1,2)])
  have put1: "fput E f (upd_file f (\<lambda>x. x\<lparr>f_pos := ?pos\<rparr>) (bumpf f 1 s)) = Inr (upd_file f (\<lambda>x. x\<lparr>f_pos := ?pos\<rparr>) s)"
    by (subst upd_file_bumpf, simp, rule fput_back [OF E(2), where fl = "fl\<lparr>f_pos := ?pos\<rparr>"]) (use fl in simp_all)
  have sel: "(if whence = SEEK_SET K then Inr offset
       else if whence = SEEK_CUR K then Inr (int32 (f_pos fl + offset)) else Inr (int32 (vn_len vn + offset))) = (Inr ?pos :: int res)"
    by (simp add: seek_pos_def)
  have w': "\<not> (whence \<noteq> SEEK_SET K \<and> whence \<noteq> SEEK_CUR K \<and> whence \<noteq> SEEK_END K)" using w by blast
  have "do_lseek K E (int i) offset whence s =
     bindE (if whence = SEEK_SET K then Inr offset
       else if whence = SEEK_CUR K then Inr (int32 (f_pos fl + offset)) else Inr (int32 (vn_len vn + offset))) (\<lambda>pos.
       if pos \<ge> 0 then bindE (fput E f (upd_file f (\<lambda>x. x\<lparr>f_pos := pos\<rparr>) (bumpf f 1 s))) (\<lambda>s2. Inr (pos, s2))
       else fput_ret E f (- errno K EINVAL) (bumpf f 1 s))"
    unfolding do_lseek_def if_not_P [OF w'] fget_open_fd [OF E(1) o] using fl v by simp
  then show ?thesis unfolding sel using put0 put1 by (simp add: Let_def fput_ret_def)
qed

section \<open>Reading and writing\<close>

lemma fput_held:
  assumes "fput_ok E" and "files s f = Some fl" and "1 < f_refcount fl"
  shows "fput E f s = Inr (bumpf f (- 1) s)"
  using assms by (simp add: fput_ok_def)

lemma fput_after:
  assumes E: "fput_ok E" and f: "files s f = Some fl" "0 < f_refcount fl" and s2: "files s2 = files (bumpf f 1 s)"
  shows "fput E f (upd_file f (\<lambda>x. x\<lparr>f_pos := g (f_pos x)\<rparr>) s2) = Inr (s2\<lparr>files := (files s)(f \<mapsto> fl\<lparr>f_pos := g (f_pos fl)\<rparr>)\<rparr>)"
proof -
  let ?t = "upd_file f (\<lambda>x. x\<lparr>f_pos := g (f_pos x)\<rparr>) s2"
  have "files ?t f = Some (fl\<lparr>f_refcount := f_refcount fl + 1, f_pos := g (f_pos fl)\<rparr>)" using s2 f(1) by simp
  from fput_held [OF E this] f(2) have "fput E f ?t = Inr (bumpf f (- 1) ?t)" by simp
  moreover have "bumpf f (- 1) ?t = s2\<lparr>files := (files s)(f \<mapsto> fl\<lparr>f_pos := g (f_pos fl)\<rparr>)\<rparr>"
    using s2 f(1) by (simp add: bumpf_def upd_file_def)
  ultimately show ?thesis by simp
qed

lemma fput_after_same:
  assumes E: "fput_ok E" and f: "files s f = Some fl" "0 < f_refcount fl" and s2: "files s2 = files (bumpf f 1 s)"
  shows "fput E f s2 = Inr (s2\<lparr>files := files s\<rparr>)"
proof -
  have u: "upd_file f (\<lambda>x. x\<lparr>f_pos := f_pos x\<rparr>) s2 = s2" by (rule upd_file_same) simp
  have "fl\<lparr>f_pos := f_pos fl\<rparr> = fl" by simp
  then have "(files s)(f \<mapsto> fl\<lparr>f_pos := f_pos fl\<rparr>) = files s" using f(1) by (simp add: fun_upd_idem)
  then show ?thesis using fput_after [OF assms, of "\<lambda>x. x"] u by simp
qed

definition moved :: "int \<Rightarrow> ofile \<Rightarrow> ofile" where
  "moved res fl = (if res > 0 then fl\<lparr>f_pos := int32 (f_pos fl + res)\<rparr> else fl)"

lemma do_read_result:
  assumes E: "fget_ok E" "fput_ok E" and o: "open_fd s c i f fl" and m: "f_mode fl \<noteq> FMODE_WRITE K" "f_mode fl \<noteq> FMODE_WRITE K AND FMODE_APPEND K"
    and v: "f_vnode fl = Some v" "vnodes s v = Some vn" "\<not> S_ISDIR K (vn_mode vn)" "vn_ops vn = Some t" "vop_read K E t v = Some rd"
    and rd: "rd (f_pos fl) n (bumpf f 1 s) = Inr (res, buf, s2)" "files s2 = files (bumpf f 1 s)"
  shows "do_read K E (int i) n s = Inr (res, Some buf, s2\<lparr>files := (files s)(f \<mapsto> moved res fl)\<rparr>)"
proof -
  from o have fl: "files s f = Some fl" "0 < f_refcount fl" "f_mode fl \<noteq> 0" by (auto elim: open_fdE)
  have s: "(files s)(f \<mapsto> fl) = files s" using fl(1) by (simp add: fun_upd_idem)
  have "fput E f (if res > 0 then upd_file f (\<lambda>x. x\<lparr>f_pos := int32 (f_pos x + res)\<rparr>) s2 else s2) =
     Inr (s2\<lparr>files := (files s)(f \<mapsto> moved res fl)\<rparr>)"
    using fput_after [OF E(2) fl(1,2) rd(2), of "\<lambda>x. int32 (x + res)"] fput_after_same [OF E(2) fl(1,2) rd(2)] s by (simp add: moved_def)
  then show ?thesis using fget_open_fd [OF E(1) o] fl m v rd(1) by (simp add: do_read_def Let_def)
qed

text \<open>Where a write goes: to the end of the file in append mode, else to the position of the file.\<close>

definition write_pos :: "kconsts \<Rightarrow> ofile \<Rightarrow> vnode \<Rightarrow> int" where
  "write_pos K fl vn = (if f_mode fl AND FMODE_APPEND K \<noteq> 0 then int32 (vn_len vn) else int32 (f_pos fl))"

definition seek_ok :: "kconsts \<Rightarrow> bool" where
  "seek_ok K \<longleftrightarrow> SEEK_SET K \<noteq> SEEK_CUR K \<and> SEEK_SET K \<noteq> SEEK_END K \<and> SEEK_CUR K \<noteq> SEEK_END K"

lemma do_write_result:
  assumes E: "fget_ok E" "fput_ok E" and o: "open_fd s c i f fl" and K: "seek_ok K"
    and m: "f_mode fl AND FMODE_APPEND K \<noteq> 0 \<or> f_mode fl AND FMODE_WRITE K \<noteq> 0"
    and v: "f_vnode fl = Some v" "vnodes s v = Some vn" "vn_ops vn = Some t" "vop_write K E t v = Some wr"
    and pos: "0 \<le> write_pos K fl vn"
    and wr: "wr (write_pos K fl vn) buf n (upd_file f (\<lambda>x. x\<lparr>f_pos := write_pos K fl vn\<rparr>) (bumpf f 1 s)) = Inr (res, s2)"
    and s2: "files s2 = files (bumpf f 1 (upd_file f (\<lambda>x. x\<lparr>f_pos := write_pos K fl vn\<rparr>) s))" "vnodes s2 v = Some vn2"
    and ok: "res > 0 \<longrightarrow> S_ISCHR K (vn_mode vn2) \<or> S_ISBLK K (vn_mode vn2) \<or>
      S_ISREG K (vn_mode vn2) \<and> int32 (write_pos K fl vn + res) \<le> vn_len vn2"
  shows "do_write K E (int i) buf n s =
    Inr (res, s2\<lparr>files := (files s)(f \<mapsto> moved res (fl\<lparr>f_pos := write_pos K fl vn\<rparr>))\<rparr>)"
proof -
  let ?p = "write_pos K fl vn" and ?s1 = "bumpf f 1 s"
  let ?sp = "upd_file f (\<lambda>x. x\<lparr>f_pos := write_pos K fl vn\<rparr>) s"
  from o have fl: "files s f = Some fl" "0 < f_refcount fl" "f_mode fl \<noteq> 0" by (auto elim: open_fdE)
  have o1: "open_fd ?s1 c i f (fl\<lparr>f_refcount := f_refcount fl + 1\<rparr>)" using o fl by (auto simp: open_fd_def split: option.splits)
  have seek: "(if f_mode fl AND FMODE_APPEND K \<noteq> 0 then do_lseek K E (int i) 0 (SEEK_END K) ?s1
      else do_lseek K E (int i) 0 (SEEK_CUR K) ?s1) = Inr (?p, upd_file f (\<lambda>x. x\<lparr>f_pos := ?p\<rparr>) ?s1)"
    using do_lseek_result [OF E o1, of "SEEK_END K" K v vn 0] do_lseek_result [OF E o1, of "SEEK_CUR K" K v vn 0] v pos K
    by (auto simp: seek_pos_def write_pos_def Let_def seek_ok_def)
  have sp: "files ?sp f = Some (fl\<lparr>f_pos := ?p\<rparr>)" "0 < f_refcount (fl\<lparr>f_pos := ?p\<rparr>)" using fl by simp_all
  have s2f: "files s2 f = Some (fl\<lparr>f_refcount := f_refcount fl + 1, f_pos := ?p\<rparr>)" using s2(1) fl(1) by simp
  have files: "(files ?sp)(f \<mapsto> x) = (files s)(f \<mapsto> x)" for x by simp
  have spf: "(files s)(f \<mapsto> fl\<lparr>f_pos := ?p\<rparr>) = files ?sp" using fl(1) by simp
  have put: "fput E f (if res > 0 then upd_file f (\<lambda>x. x\<lparr>f_pos := int32 (f_pos x + res)\<rparr>) s2 else s2) =
     Inr (s2\<lparr>files := (files s)(f \<mapsto> moved res (fl\<lparr>f_pos := ?p\<rparr>))\<rparr>)"
    using fput_after [OF E(2) sp s2(1), of "\<lambda>x. int32 (x + res)", unfolded files] fput_after_same [OF E(2) sp s2(1)] spf
    by (simp add: moved_def del: upd_file_sel(1))
  show ?thesis
    using fget_open_fd [OF E(1) o] fl m v seek wr s2f s2(2) ok put
    by (cases "res > 0") (auto simp: do_write_def Let_def fput_ret_def)
qed

section \<open>A concrete file table\<close>

text \<open>The small file system with a table of open files, and the shell's descriptor 0 open on \<^verbatim>\<open>/bin/ls\<close>.\<close>

definition demo_fget :: "int \<Rightarrow> kstate \<Rightarrow> (ptr option \<times> kstate) res" where
  "demo_fget fd s =
     (if fd = - 1 then
        case free_cell 700 (files s) of
          Some f \<Rightarrow> Inr (Some f, s\<lparr>files := (files s)(f \<mapsto> new_file)\<rparr>)
        | None \<Rightarrow> Inr (None, s)
      else
        bindE (deref (curproc s)) (\<lambda>p.
        bindE (deref (procs s p)) (\<lambda>pr.
          if 0 \<le> fd \<and> fd < int (length (p_files pr))
          then case p_files pr ! nat fd of Some f \<Rightarrow> Inr (Some f, bumpf f 1 s) | None \<Rightarrow> Inr (None, s)
          else Inr (None, s))))"

definition demo_fput :: "ptr \<Rightarrow> kstate \<Rightarrow> kstate res" where
  "demo_fput f s =
     bindE (deref (files s f)) (\<lambda>fl.
       if 1 < f_refcount fl then Inr (bumpf f (- 1) s)
       else
         let s1 = (case f_vnode fl of Some v \<Rightarrow> bump v (- 1) s | None \<Rightarrow> s) in
         Inr (s1\<lparr>files := (files s1)(f := None)\<rparr>))"

definition demo_files :: kenv where
  "demo_files = demo_fs\<lparr>fget := demo_fget, fput := demo_fput,
     fs_read := (\<lambda>v. Some (\<lambda>pos n s. Inr (int (unat n), \<lambda>_. 7, s))),
     fs_write := (\<lambda>v. Some (\<lambda>pos buf n s. Inr (int (unat n), upd_vnode v (\<lambda>x. x\<lparr>vn_len := max (vn_len x) (pos + int (unat n))\<rparr>) s)))\<rparr>"

lemma demo_files_laws: "fget_ok demo_files" "fput_ok demo_files" "dirs_ok i386 demo_files demo_child" "refs_ok demo_files"
  "\<forall>n s. kmalloc_ok demo_files n s"
proof -
  show "fget_ok demo_files" by (simp add: fget_ok_def demo_files_def demo_fget_def)
  show "fput_ok demo_files"
    unfolding fput_ok_def by (auto simp: demo_files_def demo_fput_def demo_fs_def put_opt_def split: option.splits)
  show "dirs_ok i386 demo_files demo_child" "refs_ok demo_files"
    by (simp_all add: dirs_ok_def refs_ok_def demo_files_def demo_fs_def demo_lookup_def)
  show "\<forall>n s. kmalloc_ok demo_files n s" by (simp add: demo_files_def demo_fs_def demo_env_def)
qed

definition ls_file :: "u32 \<Rightarrow> ofile" where
  "ls_file mode = \<lparr>f_pos = 5, f_mode = mode, f_refcount = 1, f_vnode = Some 62\<rparr>"

definition file_state :: "u32 \<Rightarrow> kstate" where
  "file_state mode = with_fd 22 0 (Some 70) (disk_state\<lparr>files := [70 \<mapsto> ls_file mode]\<rparr>)"

abbreviation shell_proc :: proc where
  "shell_proc \<equiv> (kin 2 (Some 21) [24, 23] PROC_RUNNING 0 32)\<lparr>p_files := Some 70 # replicate 31 None\<rparr>"

lemma file_state_sel:
  "curproc (file_state m) = Some 22" "procs (file_state m) 22 = Some shell_proc"
  "files (file_state m) = [70 \<mapsto> ls_file m]" "vnodes (file_state m) = vnodes disk_state"
  using replicate_Suc [of 31 "None :: ptr option"]
  by (simp_all add: file_state_def disk_state_def demo_family_procs(3) demo_family_proc kin_def)

lemma file_state_open: "m \<noteq> 0 \<Longrightarrow> open_fd (file_state m) 22 0 70 (ls_file m)"
  by (simp add: open_fd_def file_state_sel ls_file_def)

lemma file_state_free: "free_fd (p_files shell_proc) 1" "length (p_files shell_proc) = NFILES i386"
  by (simp_all add: free_fd_def i386_def)

section \<open>Properties\<close>

text \<open>C30: \<^verbatim>\<open>do_open\<close> opens what the path names.  Without \<^verbatim>\<open>O_CREAT\<close>, with a free
  descriptor and for a path of at most \<^verbatim>\<open>NAME_LEN\<close> characters whose last component does not occur
  earlier with a slash behind it (such as /a/a, which \<^verbatim>\<open>open_namev\<close> gets wrong), it returns the error
  of the path walk, or -EISDIR for a directory opened for writing, and leaves the state as it was; otherwise it returns the
  lowest free descriptor, which is now open on a new file at position 0 with the mode of the flags and one reference to the
  vnode.  There is no other error: the code never looks for the device of a device special file, so that one without a
  device is opened like any other file, where the comment on \<^verbatim>\<open>do_open\<close> asks for -ENXIO.\<close>

theorem do_open_resolves:
  assumes "dirs_ok K E child" and "refs_ok E" and "fput_ok E" and "\<forall>e. 0 < errno K e" and "resident child s"
    and "\<forall>n s. kmalloc_ok E n s" and "path_ok p" and "\<not> slash_after p" and "length p \<le> NAME_LEN K"
    and "start_dir p None s = Inr (Some cb)" and "vnodes s cb = Some cn" and "0 < vn_refcount cn"
    and "oflags AND O_CREAT K = 0" and "oflags AND O_WRONLY K = 0 \<or> oflags AND O_RDWR K = 0"
    and "curproc s = Some c" and "procs s c = Some pr" and "length (p_files pr) = NFILES K" and "free_fd (p_files pr) i"
    and "files s f = None" and "fget E (- 1) s = Inr (Some f, s\<lparr>files := (files s)(f \<mapsto> new_file)\<rparr>)"
  shows "do_open K E p oflags s =
    (case target K E child s cb p of
       Inl e \<Rightarrow> Inr (e, s)
     | Inr v \<Rightarrow> if is_dir K s v \<and> wants_write K oflags then Inr (- errno K EISDIR, s) else Inr (int i, opened K c i f v oflags s))"
  by (rule do_open_target [OF assms])

lemma demo_open:
  "start_dir ''/bin/ls'' None (file_state 1) = Inr (Some 60)" "resident demo_child (file_state 1)"
  "fget demo_files (- 1) (file_state 1) = Inr (Some 700, (file_state 1)\<lparr>files := (files (file_state 1))(700 \<mapsto> new_file)\<rparr>)"
  "target i386 demo_files demo_child (file_state 1) 60 ''/bin/ls'' = Inr 62" "\<not> is_dir i386 (file_state 1) 62"
proof -
  show "start_dir ''/bin/ls'' None (file_state 1) = Inr (Some 60)"
    using disk_state_start(1) [of "''bin/ls''" None] by (simp add: file_state_def start_dir_with_fd start_dir_files SLASH_def)
  show "resident demo_child (file_state 1)" using disk_state_resident resident_cong [OF file_state_sel(4)] by blast
  have "free_cell 700 (files (file_state 1)) = Some 700" by (rule free_cell_first) (simp add: file_state_sel)
  then show "fget demo_files (- 1) (file_state 1) = Inr (Some 700, (file_state 1)\<lparr>files := (files (file_state 1))(700 \<mapsto> new_file)\<rparr>)"
    by (simp add: demo_files_def demo_fget_def)
  show "target i386 demo_files demo_child (file_state 1) 60 ''/bin/ls'' = Inr 62"
    unfolding target_cong [OF file_state_sel(4)] unfolding target_def demo_paths
    by (simp add: entry_def demo_child_def searchable_def disk_state_eval demo_files_def demo_fs_def demo_vnode_def)
  show "\<not> is_dir i386 (file_state 1) 62" by (simp add: is_dir_def file_state_sel disk_state_files demo_vnode_def i386_def)
qed

theorem do_open_resolves_witness:
  "do_open i386 demo_files ''/bin/ls'' 0 (file_state 1) = Inr (1, opened i386 22 1 700 62 0 (file_state 1))"
  using do_open_resolves [OF demo_files_laws(3,4,2) i386_errno_pos demo_open(2) demo_files_laws(5) demo_paths(1,4) _ demo_open(1),
      of "demo_vnode 2" 0 22 shell_proc 1 700] demo_open(3-5) file_state_free
  by (simp add: file_state_sel disk_state_start demo_vnode_def i386_def)

text \<open>C17: opening and closing is a round trip.  When \<^verbatim>\<open>do_open\<close>, called without \<^verbatim>\<open>O_CREAT\<close>, with a free
  descriptor and with a path of at most \<^verbatim>\<open>NAME_LEN\<close> characters whose last component does not occur earlier with a
  slash behind it, finds a file that the flags allow to open, it returns the lowest free descriptor, which is open on that file, and
  \<^verbatim>\<open>do_close\<close> of the descriptor in the state that \<^verbatim>\<open>do_open\<close> left gives back the state before the
  two calls, down to every reference count.\<close>

theorem open_close_roundtrip:
  assumes "dirs_ok K E child" and "refs_ok E" and "fput_ok E" and "\<forall>e. 0 < errno K e" and "resident child s"
    and "\<forall>n s. kmalloc_ok E n s" and "path_ok p" and "\<not> slash_after p" and "length p \<le> NAME_LEN K"
    and "start_dir p None s = Inr (Some cb)" and "vnodes s cb = Some cn" and "0 < vn_refcount cn"
    and "oflags AND O_CREAT K = 0" and "oflags AND O_WRONLY K = 0 \<or> oflags AND O_RDWR K = 0"
    and "curproc s = Some c" and "procs s c = Some pr" and "length (p_files pr) = NFILES K" and "free_fd (p_files pr) i"
    and "files s f = None" and "fget E (- 1) s = Inr (Some f, s\<lparr>files := (files s)(f \<mapsto> new_file)\<rparr>)"
    and "fget_ok E" and "target K E child s cb p = Inr v" and "\<not> (is_dir K s v \<and> wants_write K oflags)" and "open_mode K oflags \<noteq> 0"
  shows "\<exists>s1 fl. do_open K E p oflags s = Inr (int i, s1) \<and> open_fd s1 c i f fl \<and> f_vnode fl = Some v \<and>
    do_close K E (int i) s1 = Inr (0, s)"
proof -
  obtain vn where v: "vnodes s v = Some vn" "0 < vn_refcount vn" using target_live [OF assms(5,22,11,12)] by blast
  have "do_open K E p oflags s = Inr (int i, opened K c i f v oflags s)" using do_open_target [OF assms(1-20)] assms(22,23) by simp
  with open_close [OF assms(21,3,2,15,16,18,19) v assms(24)] opened_open_fd [OF assms(15,16,18,24), of f v]
  show ?thesis by auto
qed

theorem open_close_roundtrip_witness:
  "\<exists>s1. do_open i386 demo_files ''/bin/ls'' 0 (file_state 1) = Inr (1, s1) \<and> do_close i386 demo_files 1 s1 = Inr (0, file_state 1)"
  using open_close_roundtrip [OF demo_files_laws(3,4,2) i386_errno_pos demo_open(2) demo_files_laws(5) demo_paths(1,4) _ demo_open(1),
      of "demo_vnode 2" 0 22 shell_proc 1 700 62] demo_open(3-5) demo_files_laws(1) file_state_free
  by (auto simp: file_state_sel disk_state_start demo_vnode_def i386_def open_mode_def)

text \<open>C31: duplicating and closing is a round trip: \<^verbatim>\<open>do_dup\<close> opens the lowest free
  descriptor on the same file, and closing that descriptor gives back the state before.\<close>

theorem dup_close_roundtrip:
  assumes "fget_ok E" and "fput_ok E" and "open_fd s c j f fl" and "procs s c = Some pr"
    and "length (p_files pr) = NFILES K" and "free_fd (p_files pr) i"
  shows "do_dup K E (int j) s = Inr (int i, with_fd c i (Some f) (bumpf f 1 s)) \<and>
    bindE (do_dup K E (int j) s) (\<lambda>(nfd, s1). do_close K E nfd s1) = Inr (0, s)"
  using do_dup_result [OF assms(1,3-6)] dup_close [OF assms] by blast

theorem dup_close_roundtrip_witness:
  "bindE (do_dup i386 demo_files (int 0) (file_state 1)) (\<lambda>(nfd, s1). do_close i386 demo_files nfd s1) = Inr (0, file_state 1)"
proof -
  have "open_fd (file_state 1) 22 0 70 (ls_file 1)" by (rule file_state_open) simp
  from dup_close_roundtrip [OF demo_files_laws(1,2) this file_state_sel(2) file_state_free(2,1)] show ?thesis by blast
qed

text \<open>C32: \<^verbatim>\<open>do_lseek\<close> keeps file positions in range.  With a valid \<^verbatim>\<open>whence\<close> on an open
  descriptor it either sets the position to the one computed, which is not negative and below 2^31 even
  where the sum wraps, and returns it, or it returns -EINVAL and changes nothing; either way all
  references are as before.\<close>

theorem do_lseek_position:
  assumes "fget_ok E" and "fput_ok E" and "open_fd s c i f fl" and "f_vnode fl = Some v" and "vnodes s v = Some vn"
    and "whence = SEEK_SET K \<or> whence = SEEK_CUR K \<or> whence = SEEK_END K" and "offset < 2 ^ 31"
  shows "\<exists>pos. pos < 2 ^ 31 \<and> pos = seek_pos K fl (vn_len vn) offset whence \<and>
    do_lseek K E (int i) offset whence s =
      (if 0 \<le> pos then Inr (pos, upd_file f (\<lambda>x. x\<lparr>f_pos := pos\<rparr>) s) else Inr (- errno K EINVAL, s))"
proof -
  have "seek_pos K fl (vn_len vn) offset whence < 2 ^ 31"
    using assms(7) int32_less [of "f_pos fl + offset"] int32_less [of "vn_len vn + offset"] by (simp add: seek_pos_def)
  then show ?thesis using do_lseek_result [OF assms(1-3) assms(6,4,5), of offset] by (simp add: Let_def)
qed

theorem do_lseek_position_witness:
  "do_lseek i386 demo_files (int 0) (2 ^ 31 - 1) (SEEK_CUR i386) (file_state 1) = Inr (- 22, file_state 1)"
proof -
  have o: "open_fd (file_state 1) 22 0 70 (ls_file 1)" by (rule file_state_open) simp
  have v: "f_vnode (ls_file 1) = Some 62" "vnodes (file_state 1) 62 = Some (demo_vnode 8)"
    by (simp_all add: ls_file_def file_state_sel disk_state_files)
  have "seek_pos i386 (ls_file 1) (vn_len (demo_vnode 8)) (2 ^ 31 - 1) (SEEK_CUR i386) = - (2 ^ 31) + 4"
    by (simp add: seek_pos_def ls_file_def i386_def int32_eq signed_take_bit_eq_take_bit_shift take_bit_eq_mod)
  with do_lseek_position [OF demo_files_laws(1,2) o v, of "SEEK_CUR i386" i386 "2 ^ 31 - 1"]
  show ?thesis by (simp add: i386_pids)
qed

text \<open>C33: \<^verbatim>\<open>do_read\<close> reads at the position of the file and moves it by what was read.  On a
  descriptor that is open for reading and whose vnode is no directory it returns what the vnode's
  read returned and stored; a positive count is added to the position, and the references to the file
  are as before.\<close>

theorem do_read_advances:
  assumes "fget_ok E" and "fput_ok E" and "open_fd s c i f fl" and "f_mode fl AND FMODE_READ K \<noteq> 0"
    and "FMODE_READ K AND FMODE_WRITE K = 0" and "f_vnode fl = Some v" and "vnodes s v = Some vn"
    and "\<not> S_ISDIR K (vn_mode vn)" and "vn_ops vn = Some t" and "vop_read K E t v = Some rd"
    and "rd (f_pos fl) n (bumpf f 1 s) = Inr (res, buf, s2)" and "files s2 = files (bumpf f 1 s)"
  shows "do_read K E (int i) n s = Inr (res, Some buf, s2\<lparr>files := (files s)(f \<mapsto> moved res fl)\<rparr>)"
proof (rule do_read_result [OF assms(1-3) _ _ assms(6-12)])
  show "f_mode fl \<noteq> FMODE_WRITE K" using assms(4,5) by (auto simp: and.commute)
  have "(FMODE_WRITE K AND FMODE_APPEND K) AND FMODE_READ K = FMODE_APPEND K AND (FMODE_READ K AND FMODE_WRITE K)"
    by (simp only: ac_simps)
  then show "f_mode fl \<noteq> FMODE_WRITE K AND FMODE_APPEND K" using assms(4,5) by auto
qed

theorem do_read_advances_witness:
  "\<exists>buf. do_read i386 demo_files (int 0) 3 (file_state 1) =
     Inr (3, Some buf, (file_state 1)\<lparr>files := [70 \<mapsto> (ls_file 1)\<lparr>f_pos := 8\<rparr>]\<rparr>)"
proof -
  have o: "open_fd (file_state 1) 22 0 70 (ls_file 1)" by (rule file_state_open) simp
  have v: "f_vnode (ls_file 1) = Some 62" "vnodes (file_state 1) 62 = Some (demo_vnode 8)"
    by (simp_all add: ls_file_def file_state_sel disk_state_files)
  let ?rd = "\<lambda>pos n s. Inr (int (unat n), \<lambda>_. 7, s)"
  have "vop_read i386 demo_files Fs_ops 62 = Some ?rd" by (simp add: demo_files_def)
  moreover have "moved 3 (ls_file 1) = (ls_file 1)\<lparr>f_pos := 8\<rparr>"
    by (simp add: moved_def ls_file_def int32_eq signed_take_bit_eq_take_bit_shift take_bit_eq_mod)
  moreover have "bumpf 70 1 (file_state 1)\<lparr>files := [70 \<mapsto> x]\<rparr> = (file_state 1)\<lparr>files := [70 \<mapsto> x]\<rparr>" for x
    by (simp add: bumpf_def upd_file_def)
  ultimately show ?thesis
    using do_read_advances [OF demo_files_laws(1,2) o _ _ v, of i386 Fs_ops ?rd 3 3 "\<lambda>_. 7" "bumpf 70 1 (file_state 1)"]
    by (simp add: demo_vnode_def i386_def ls_file_def file_state_sel)
qed

text \<open>C34: \<^verbatim>\<open>do_write\<close> on a descriptor that is open for writing writes at the end of the file in append mode and at the file's position
  otherwise: the vnode's write is called with that position, and afterwards the position is behind what
  was written; the references to the file are as before.  The vnode's write must leave the file table
  alone and a regular file at least as long as the new position.\<close>

theorem do_write_position:
  assumes "fget_ok E" and "fput_ok E" and "open_fd s c i f fl" and "seek_ok K"
    and "f_mode fl AND FMODE_WRITE K \<noteq> 0" and "f_vnode fl = Some v"
    and "vnodes s v = Some vn" and "vn_ops vn = Some t" and "vop_write K E t v = Some wr" and "0 \<le> write_pos K fl vn"
    and "wr (write_pos K fl vn) buf n (upd_file f (\<lambda>x. x\<lparr>f_pos := write_pos K fl vn\<rparr>) (bumpf f 1 s)) = Inr (res, s2)"
    and "files s2 = files (bumpf f 1 (upd_file f (\<lambda>x. x\<lparr>f_pos := write_pos K fl vn\<rparr>) s))" and "vnodes s2 v = Some vn2"
    and "res > 0 \<longrightarrow> S_ISCHR K (vn_mode vn2) \<or> S_ISBLK K (vn_mode vn2) \<or>
      S_ISREG K (vn_mode vn2) \<and> int32 (write_pos K fl vn + res) \<le> vn_len vn2"
  shows "do_write K E (int i) buf n s =
    Inr (res, s2\<lparr>files := (files s)(f \<mapsto> moved res (fl\<lparr>f_pos := write_pos K fl vn\<rparr>))\<rparr>)"
  by (rule do_write_result [OF assms(1-4) _ assms(6-14)]) (use assms(5) in simp)

theorem do_write_position_witness:
  "\<exists>s'. do_write i386 demo_files (int 0) (\<lambda>_. 9) 4 (file_state 6) = Inr (4, s') \<and>
     files s' = [70 \<mapsto> (ls_file 6)\<lparr>f_pos := 104\<rparr>] \<and> vnodes s' 62 = Some ((demo_vnode 8)\<lparr>vn_len := 104\<rparr>)"
proof -
  let ?fl = "ls_file 6" and ?s = "file_state 6"
  have o: "open_fd ?s 22 0 70 ?fl" by (rule file_state_open) simp
  have v: "f_vnode ?fl = Some 62" "vnodes ?s 62 = Some (demo_vnode 8)" "vn_ops (demo_vnode 8) = Some Fs_ops"
    by (simp_all add: ls_file_def file_state_sel disk_state_files demo_vnode_def)
  have pos: "write_pos i386 ?fl (demo_vnode 8) = 100"
    by (simp add: write_pos_def ls_file_def i386_def demo_vnode_def int32_eq signed_take_bit_eq_take_bit_shift take_bit_eq_mod)
  let ?wr = "\<lambda>pos buf n s. Inr (int (unat n), upd_vnode 62 (\<lambda>x. x\<lparr>vn_len := max (vn_len x) (pos + int (unat n))\<rparr>) s)"
  let ?s1 = "upd_file 70 (\<lambda>x. x\<lparr>f_pos := 100\<rparr>) (bumpf 70 1 ?s)"
  let ?s2 = "upd_vnode 62 (\<lambda>x. x\<lparr>vn_len := max (vn_len x) (100 + int (unat (4 :: u32)))\<rparr>) ?s1"
  have mv: "moved 4 (?fl\<lparr>f_pos := 100\<rparr>) = ?fl\<lparr>f_pos := 104\<rparr>" "int32 (100 + 4) = 104"
    by (simp_all add: moved_def int32_eq signed_take_bit_eq_take_bit_shift take_bit_eq_mod)
  have "do_write i386 demo_files (int 0) (\<lambda>_. 9) 4 ?s = Inr (4, ?s2\<lparr>files := (files ?s)(70 \<mapsto> moved 4 (?fl\<lparr>f_pos := 100\<rparr>))\<rparr>)"
  proof (rule do_write_position [OF demo_files_laws(1,2) o _ _ v, where K = i386 and wr = ?wr, unfolded pos])
    show "vop_write i386 demo_files Fs_ops 62 = Some ?wr" by (simp add: demo_files_def)
    show "vnodes ?s2 62 = Some ((demo_vnode 8)\<lparr>vn_len := 104\<rparr>)" by (simp add: upd_vnode_def v) (simp add: demo_vnode_def)
  qed (use mv(2) in \<open>simp_all add: upd_vnode_def seek_ok_def ls_file_def i386_def demo_vnode_def file_state_sel\<close>)
  then show ?thesis unfolding mv by (auto simp: upd_vnode_def file_state_sel disk_state_files demo_vnode_def)
qed

section \<open>Errors the code does not handle\<close>

text \<open>
  \<^verbatim>\<open>do_read\<close> compares the mode with \<^verbatim>\<open>FMODE_WRITE & FMODE_APPEND\<close>, which is 0,
  where it means the two flags together: a file that is open for appending only can be read.
\<close>

lemma do_read_append_only:
  assumes "fget_ok E" and "fput_ok E" and "open_fd s c i f fl" and m: "f_mode fl = FMODE_WRITE K OR FMODE_APPEND K"
    and K: "FMODE_WRITE K AND FMODE_APPEND K = 0" "FMODE_APPEND K \<noteq> 0" and "f_vnode fl = Some v" and "vnodes s v = Some vn"
    and "\<not> S_ISDIR K (vn_mode vn)" and "vn_ops vn = Some t" and "vop_read K E t v = Some rd"
    and "rd (f_pos fl) n (bumpf f 1 s) = Inr (res, buf, s2)" and "files s2 = files (bumpf f 1 s)"
  shows "do_read K E (int i) n s = Inr (res, Some buf, s2\<lparr>files := (files s)(f \<mapsto> moved res fl)\<rparr>)"
proof (rule do_read_result [OF assms(1-3) _ _ assms(7-13)])
  show "f_mode fl \<noteq> FMODE_WRITE K"
  proof
    assume "f_mode fl = FMODE_WRITE K"
    then have "(FMODE_WRITE K OR FMODE_APPEND K) AND FMODE_APPEND K = 0" using m K(1) by simp
    moreover have "(FMODE_WRITE K OR FMODE_APPEND K) AND FMODE_APPEND K = FMODE_APPEND K" by (rule bit_eqI) (auto simp: bit_simps)
    ultimately show False using K(2) by simp
  qed
  show "f_mode fl \<noteq> FMODE_WRITE K AND FMODE_APPEND K" using assms(3) K(1) by (auto elim: open_fdE)
qed

text \<open>\<^verbatim>\<open>do_write\<close> takes the append flag alone for the permission to write.\<close>

lemma do_write_read_only:
  assumes "fget_ok E" and "fput_ok E" and "open_fd s c i f fl" and "seek_ok K"
    and "f_mode fl = FMODE_READ K OR FMODE_APPEND K" and "FMODE_APPEND K \<noteq> 0" and "f_vnode fl = Some v"
    and "vnodes s v = Some vn" and "vn_ops vn = Some t" and "vop_write K E t v = Some wr" and "0 \<le> write_pos K fl vn"
    and "wr (write_pos K fl vn) buf n (upd_file f (\<lambda>x. x\<lparr>f_pos := write_pos K fl vn\<rparr>) (bumpf f 1 s)) = Inr (res, s2)"
    and "files s2 = files (bumpf f 1 (upd_file f (\<lambda>x. x\<lparr>f_pos := write_pos K fl vn\<rparr>) s))" and "vnodes s2 v = Some vn2"
    and "res > 0 \<longrightarrow> S_ISCHR K (vn_mode vn2) \<or> S_ISBLK K (vn_mode vn2) \<or>
      S_ISREG K (vn_mode vn2) \<and> int32 (write_pos K fl vn + res) \<le> vn_len vn2"
  shows "do_write K E (int i) buf n s =
    Inr (res, s2\<lparr>files := (files s)(f \<mapsto> moved res (fl\<lparr>f_pos := write_pos K fl vn\<rparr>))\<rparr>)"
proof (rule do_write_result [OF assms(1-4) _ assms(7-15)])
  have "f_mode fl AND FMODE_APPEND K = FMODE_APPEND K" unfolding assms(5) by (rule bit_eqI) (auto simp: bit_simps)
  then show "f_mode fl AND FMODE_APPEND K \<noteq> 0 \<or> f_mode fl AND FMODE_WRITE K \<noteq> 0" using assms(6) by simp
qed

text \<open>
  With all descriptors in use \<^verbatim>\<open>get_empty_fd\<close> returns -EMFILE, which
  \<^verbatim>\<open>do_open\<close> and \<^verbatim>\<open>do_dup\<close> use as an index: they store in front of the
  table.
\<close>

lemma do_open_full_table:
  assumes "curproc s = Some c" and "procs s c = Some pr" and "length (p_files pr) = NFILES K"
    and "\<forall>i<length (p_files pr). p_files pr ! i \<noteq> None" and "0 < errno K EMFILE"
    and "fget E (- 1) s = Inr (Some f, s\<lparr>files := (files s)(f \<mapsto> new_file)\<rparr>)"
    and "oflags AND O_WRONLY K = 0" and "length p \<le> NAME_LEN K"
  shows "do_open K E p oflags s = Inl Out_of_bounds"
  using assms get_empty_fd_full [OF assms(2-4)] by (simp add: do_open_def set_fd_def)

lemma do_dup_full_table:
  assumes "fget_ok E" and "open_fd s c j f fl" and "procs s c = Some pr" and "length (p_files pr) = NFILES K"
    and "\<forall>i<length (p_files pr). p_files pr ! i \<noteq> None" and "0 < errno K EMFILE"
  shows "do_dup K E (int j) s = Inl Out_of_bounds"
  using assms(2)
proof (rule open_fdE)
  fix pr' assume c: "curproc s = Some c" "files s f = Some fl" "f_mode fl \<noteq> 0"
  have "get_empty_fd K c (bumpf f 1 s) = Inr (- errno K EMFILE)" by (rule get_empty_fd_full [of _ c pr]) (use assms(3-5) in simp_all)
  then show ?thesis using fget_open_fd [OF assms(1,2)] c assms(3,6) by (simp add: do_dup_def set_fd_def)
qed

text \<open>
  \<^verbatim>\<open>do_dup2\<close> onto another open descriptor neither closes nor redirects it; it
  reports success and keeps a reference that nobody will drop.
\<close>

lemma do_dup2_onto_open:
  assumes "fget_ok E" and "open_fd s c j f fl" and "open_fd s c k g gl" and "j \<noteq> k"
    and "int j < MAX_FILES K" and "int k < MAX_FILES K"
  shows "do_dup2 K E (int j) (int k) s = Inr (int k, bumpf f 1 s)"
  using assms(3)
proof (rule open_fdE)
  fix pr assume c: "curproc s = Some c" "procs s c = Some pr" "k < length (p_files pr)" "p_files pr ! k = Some g"
  from assms(2) have fl: "files s f = Some fl" "f_mode fl \<noteq> 0" by (auto elim: open_fdE)
  show ?thesis using fget_open_fd [OF assms(1,2)] c fl assms(4-6) by (simp add: do_dup2_def get_fd_def)
qed

text \<open>
  \<^verbatim>\<open>do_getdent\<close> adds a negative result of \<^verbatim>\<open>readdir\<close> to the position
  and reports a full entry.
\<close>

lemma do_getdent_hides_error:
  assumes E: "fget_ok E" "fput_ok E" and o: "open_fd s c i f fl"
    and v: "f_vnode fl = Some v" "vnodes s v = Some vn" "vn_ops vn = Some Fs_ops" "fs_readdir E v = Some rd"
    and rd: "rd (f_pos fl) (bumpf f 1 s) = Inr (- e, buf, bumpf f 1 s)" "0 < e"
  shows "\<exists>s'. do_getdent K E (int i) s = Inr (sizeof_dirent K, Some buf, s') \<and>
    files s' f = Some (fl\<lparr>f_pos := int32 (f_pos fl - e)\<rparr>)"
proof -
  from o have fl: "files s f = Some fl" "0 < f_refcount fl" "f_mode fl \<noteq> 0" by (auto elim: open_fdE)
  show ?thesis
    using fget_open_fd [OF E(1) o] fl v rd fput_after [OF E(2) fl(1,2), of "bumpf f 1 s" "\<lambda>x. int32 (x - e)"]
    by (simp add: do_getdent_def vop_readdir_def only_fs_def)
qed

end
