(* ===== verification/Quiet.thy ===== *)
theory Quiet
  imports Address_Space
begin

text \<open>
  Two properties of the page frames that every page operation keeps: a frame has
  an address, and no frame is busy except those in a set \<open>B\<close> that are
  being filled further up.
\<close>

definition quiet :: "ptr set \<Rightarrow> kstate \<Rightarrow> bool" where
  "quiet B s \<longleftrightarrow> (\<forall>p pf. pframes s p = Some pf \<longrightarrow> pf_addr pf \<noteq> 0 \<and> (p \<notin> B \<longrightarrow> \<not> pf_busy pf))"

text \<open>
  What is relied on of the page allocator and of the objects that belong to files:
  the address of a page is not null, and they leave no frame busy.
\<close>

definition quiet_ext :: "kext \<Rightarrow> bool" where
  "quiet_ext X \<longleftrightarrow>
     (\<forall>s a b. page_alloc X s = Some (a, b) \<longrightarrow> a \<noteq> 0) \<and>
     (\<forall>B obj s s'. quiet B s \<longrightarrow> o_ref X obj s = Inr s' \<longrightarrow> quiet B s') \<and>
     (\<forall>B obj s s'. quiet B s \<longrightarrow> o_put X obj s = Inr s' \<longrightarrow> quiet B s') \<and>
     (\<forall>B obj pn fw s r. quiet B s \<longrightarrow> o_lookuppage X obj pn fw s = Inr r \<longrightarrow> quiet B (snd (snd r))) \<and>
     (\<forall>B obj p s r. quiet B s \<longrightarrow> o_fillpage X obj p s = Inr r \<longrightarrow> quiet B (snd r))"

lemma quiet_extD:
  assumes "quiet_ext X" "quiet B s"
  shows "o_lookuppage X obj pn fw s = Inr (ret, r, s') \<Longrightarrow> quiet B s'" "o_fillpage X obj p s = Inr (ret, s') \<Longrightarrow> quiet B s'"
proof -
  from assms have "\<forall>r. o_lookuppage X obj pn fw s = Inr r \<longrightarrow> quiet B (snd (snd r))"
      "\<forall>r. o_fillpage X obj p s = Inr r \<longrightarrow> quiet B (snd r)"
    unfolding quiet_ext_def by blast+
  then show "o_lookuppage X obj pn fw s = Inr (ret, r, s') \<Longrightarrow> quiet B s'" "o_fillpage X obj p s = Inr (ret, s') \<Longrightarrow> quiet B s'"
    by force+
qed

lemma quietD: "quiet B s \<Longrightarrow> pframes s p = Some pf \<Longrightarrow> pf_addr pf \<noteq> 0 \<and> (p \<notin> B \<longrightarrow> \<not> pf_busy pf)"
  by (auto simp: quiet_def)

lemma quiet_cong: "pframes s' = pframes s \<Longrightarrow> quiet B s' = quiet B s"
  by (simp add: quiet_def)

lemma quiet_upd_pf:
  assumes "quiet B s" "\<And>x. pf_addr (f x) = pf_addr x" "\<And>x. pf_busy (f x) \<longrightarrow> pf_busy x"
  shows "quiet B (upd_pf p f s)"
  using assms by (auto simp: quiet_def split: if_splits)

lemma quiet_busy: "quiet B s \<Longrightarrow> quiet (insert p B) (upd_pf p (\<lambda>x. x\<lparr>pf_busy := True\<rparr>) s)"
  by (auto simp: quiet_def split: if_splits)

lemma quiet_idle: "quiet (insert p B) s \<Longrightarrow> quiet B (upd_pf p (\<lambda>x. x\<lparr>pf_busy := False\<rparr>) s)"
  by (auto simp: quiet_def split: if_splits)

lemma quiet_free: "quiet B s \<Longrightarrow> quiet B (s\<lparr>pframes := (pframes s)(p := None)\<rparr>)"
  by (auto simp: quiet_def split: if_splits)

lemma sched_broadcast_on_pframes: "sched_broadcast_on K q s = Inr s' \<Longrightarrow> pframes s' = pframes s"
  using sched_broadcast_on_rest [of K q s s'] by (auto dest: kern_restD)

lemma mmobj_ref_quiet:
  assumes X: "quiet_ext X" and q: "quiet B s" and r: "mmobj_ref X obj s = Inr s'"
  shows "quiet B s'"
proof -
  have o: "o_ref X obj s = Inr s' \<Longrightarrow> quiet B s'" using X q unfolding quiet_ext_def by blast
  obtain ob where "mmobjs s obj = Some ob" using r by (auto simp: mmobj_ref_def bindE_deref)
  then have "pframes s' = pframes s \<or> o_ref X obj s = Inr s'"
    using r by (cases "mmo_ops ob") (auto simp: mmobj_ref_def anon_ref_def shadow_ref_def split: if_splits)
  then show ?thesis using o q quiet_cong by blast
qed

lemma pframe_pin_quiet:
  assumes "quiet B s" "pframe_pin p s = Inr s'"
  shows "quiet B s'"
proof -
  have "pframes s' = pframes (upd_pf p (\<lambda>x. x\<lparr>pf_pincount := pf_pincount x + 1\<rparr>) s)"
    using assms(2) by (auto simp: pframe_pin_def Let_def bindE_deref split: if_splits)
  moreover have "quiet B (upd_pf p (\<lambda>x. x\<lparr>pf_pincount := pf_pincount x + 1\<rparr>) s)"
    by (rule quiet_upd_pf [OF assms(1)]) simp_all
  ultimately show ?thesis using quiet_cong by blast
qed

lemma pframe_unpin_quiet:
  assumes "quiet B s" "pframe_unpin p s = Inr s'"
  shows "quiet B s'"
proof -
  have "pframes s' = pframes (upd_pf p (\<lambda>x. x\<lparr>pf_pincount := pf_pincount x - 1\<rparr>) s)"
    using assms(2) by (auto simp: pframe_unpin_def Let_def bindE_deref split: if_splits)
  moreover have "quiet B (upd_pf p (\<lambda>x. x\<lparr>pf_pincount := pf_pincount x - 1\<rparr>) s)"
    by (rule quiet_upd_pf [OF assms(1)]) simp_all
  ultimately show ?thesis using quiet_cong by blast
qed

lemma remove_from_pts_loop_pframes:
  assumes "pt_frame X"
  shows "remove_from_pts_loop K X pn vs s = Inr s' \<Longrightarrow> pframes s' = pframes s"
proof (induction vs arbitrary: s)
  case (Cons v vs)
  have u: "pframes (pt_unmap X pd a u) = pframes u" for pd a u
  proof -
    from assms obtain pt where "pt_unmap X pd a u = u\<lparr>pagetabs := pt\<rparr>" unfolding pt_frame_def by blast
    then show ?thesis by simp
  qed
  from Cons show ?case by (auto simp: u elim!: bindE_InrE split: if_splits option.splits)
qed simp

lemma pframe_free_quiet:
  assumes "pt_frame X" and put: "\<forall>obj u u'. quiet B u \<longrightarrow> put obj u = Inr u' \<longrightarrow> quiet B u'"
    and "quiet B s" and "pframe_free K X put p s = Inr s'"
  shows "quiet B s'"
proof -
  from assms(4) obtain obj u1 u2 where u: "pframe_remove_from_pts K X p s = Inr u1" "put obj u2 = Inr s'"
      "pframes u2 = (pframes u1)(p := None)"
    by (auto simp: pframe_free_def Let_def elim!: bindE_InrE split: if_splits)
  have "pframes u1 = pframes s"
    using u(1) by (auto simp: pframe_remove_from_pts_def elim!: bindE_InrE dest: remove_from_pts_loop_pframes [OF assms(1)])
  then have "quiet B u2" using quiet_free [OF assms(3), of p] u(3) quiet_cong [of u2 "s\<lparr>pframes := (pframes s)(p := None)\<rparr>"] by simp
  then show ?thesis using put u(2) by blast
qed

lemma uncache_loop_quiet:
  assumes "\<And>p u u'. quiet B u \<Longrightarrow> free p u = Inr u' \<Longrightarrow> quiet B u'"
  shows "quiet B s \<Longrightarrow> uncache_loop free ps s = Inr s' \<Longrightarrow> quiet B s'"
proof (induction ps arbitrary: s)
  case (Cons p ps)
  from Cons.prems(2) obtain s1 s2 where "pframe_unpin p s = Inr s1" "free p s1 = Inr s2" "uncache_loop free ps s2 = Inr s'"
    by (auto elim!: bindE_InrE)
  with Cons.IH [of s2] assms pframe_unpin_quiet [OF Cons.prems(1)] show ?case by blast
qed simp

lemma mmobj_put_quiet:
  assumes X: "pt_frame X" "quiet_ext X"
  shows "quiet B s \<Longrightarrow> mmobj_put n K X obj s = Inr s' \<Longrightarrow> quiet B s'"
proof (induction n arbitrary: obj s s')
  case (Suc n)
  have loop: "quiet B u'" if "quiet B u" "uncache_loop (pframe_free K X (mmobj_put n K X)) ps u = Inr u'" for ps u u'
  proof (rule uncache_loop_quiet [OF _ that])
    fix p v v'
    assume "quiet B v" "pframe_free K X (mmobj_put n K X) p v = Inr v'"
    then show "quiet B v'"
      by (rule pframe_free_quiet [OF X(1), rotated]) (use Suc.IH in blast)
  qed
  have o: "quiet B u'" if "quiet B u" "o_put X obj u = Inr u'" for u u' using X(2) that unfolding quiet_ext_def by blast
  obtain ob where ob: "mmobjs s obj = Some ob" using Suc.prems(2) by (auto simp: mmobj_put.simps(2) bindE_deref)
  show ?case
  proof (cases "mmo_ops ob")
    case Other_ops
    with Suc.prems ob o show ?thesis by (auto simp: mmobj_put.simps(2))
  next
    case Anon_ops
    with Suc.prems(2) ob consider "pframes s' = pframes s"
      | s1 where "uncache_loop (pframe_free K X (mmobj_put n K X)) (mmo_respages ob) s = Inr s1" "pframes s' = pframes s1"
      by (auto simp: mmobj_put.simps(2) anon_put_def elim!: bindE_InrE split: if_splits)
    then show ?thesis using loop [OF Suc.prems(1)] Suc.prems(1) quiet_cong by cases blast+
  next
    case Shadow_ops
    with Suc.prems(2) ob consider "pframes s' = pframes s"
      | s1 sh s2 where "uncache_loop (pframe_free K X (mmobj_put n K X)) (mmo_respages ob) s = Inr s1"
          "mmobj_put n K X sh s1 = Inr s2" "pframes s' = pframes s2"
      by (auto simp: mmobj_put.simps(2) shadow_put_def bindE_deref elim!: bindE_InrE split: if_splits)
    then show ?thesis using loop [OF Suc.prems(1)] Suc.prems(1) Suc.IH quiet_cong by cases blast+
  qed
qed (simp add: mmobj_put.simps)

lemma pframe_get_resident_pframes: "pframe_get_resident K obj pn s = Inr (r, s') \<Longrightarrow> pframes s' = pframes s"
  by (auto simp: pframe_get_resident_def Let_def bindE_deref elim!: bindE_InrE split: option.splits if_splits)

lemma pframe_alloc_quiet:
  assumes X: "quiet_ext X" and q: "quiet B s" and a: "pframe_alloc K X obj pn s = Inr (r, s')"
  shows "quiet B s'"
proof (cases "pframe_slab X s = None \<or> page_alloc X s = None")
  case True
  then show ?thesis using a q by (auto simp: pframe_alloc_def split: option.splits)
next
  case False
  then obtain p addr bs where p: "pframe_slab X s = Some p" "page_alloc X s = Some (addr, bs)" by auto
  let ?pf = "\<lparr>pf_obj = Some obj, pf_pagenum = pn, pf_busy = False, pf_dirty = False, pf_pincount = 0,
    pf_addr = addr, pf_data = bs\<rparr>"
  let ?s3 = "s\<lparr>nallocated := nallocated s + 1, alloc_list := alloc_list s @ [p], pframes := (pframes s)(p \<mapsto> ?pf),
    queues := (queues s)(Pfq p := empty_queue),
    pframe_hash := (pframe_hash s)(hash_page K obj pn := p # pframe_hash s (hash_page K obj pn))\<rparr>"
  obtain s4 where s4: "mmobj_ref X obj ?s3 = Inr s4" "pframes s' = pframes s4"
    using a p by (auto simp: pframe_alloc_def Let_def sched_queue_init_def elim!: bindE_InrE)
  have "addr \<noteq> 0" using X p(2) by (auto simp: quiet_ext_def)
  then have "quiet B ?s3" using q by (auto simp: quiet_def split: if_splits)
  from mmobj_ref_quiet [OF X this s4(1)] s4(2) quiet_cong show ?thesis by blast
qed

definition keeps_quiet :: "obj_page_op \<Rightarrow> bool" where
  "keeps_quiet f \<longleftrightarrow> (\<forall>B obj p s r s'. quiet B s \<longrightarrow> f obj p s = Inr (r, s') \<longrightarrow> quiet B s')"

lemma keeps_quietD: "keeps_quiet f \<Longrightarrow> quiet B s \<Longrightarrow> f obj p s = Inr (r, s') \<Longrightarrow> quiet B s'"
  by (auto simp: keeps_quiet_def)

lemma pframe_fill_quiet:
  assumes f: "keeps_quiet fillpage" and q: "quiet B s" and r: "pframe_fill K fillpage p s = Inr (r, s')"
  shows "quiet B s'"
proof -
  obtain obj s1 where s1: "fillpage obj p (upd_pf p (\<lambda>x. x\<lparr>pf_busy := True\<rparr>) s) = Inr (r, s1)"
      "sched_broadcast_on K (Pfq p) (upd_pf p (\<lambda>x. x\<lparr>pf_busy := False\<rparr>) s1) = Inr s'"
    using r by (auto simp: pframe_fill_def bindE_deref elim!: bindE_InrE)
  have "quiet (insert p B) s1" using f quiet_busy [OF q] s1(1) unfolding keeps_quiet_def by blast
  from quiet_idle [OF this] sched_broadcast_on_pframes [OF s1(2)] quiet_cong show ?thesis by blast
qed

lemma pframe_get_quiet:
  assumes X: "pt_frame X" "quiet_ext X" and f: "keeps_quiet fillpage"
    and put: "\<forall>obj u u'. quiet B u \<longrightarrow> put obj u = Inr u' \<longrightarrow> quiet B u'"
    and q: "quiet B s" and r: "pframe_get K X fillpage put obj pn s = Inr (ret, r, s')"
  shows "quiet B s'"
proof -
  obtain r1 s1 where s1: "pframe_get_resident K obj pn s = Inr (r1, s1)"
    using r by (auto simp: pframe_get_def elim!: bindE_InrE)
  then have q1: "quiet B s1" using pframe_get_resident_pframes q quiet_cong by blast
  show ?thesis
  proof (cases r1)
    case (Some p)
    then show ?thesis using r s1 q1 by (auto simp: pframe_get_def bindE_deref split: if_splits)
  next
    case None
    then obtain p s2 rv s3 where s3: "pframe_alloc K X obj pn s1 = Inr (Some p, s2)"
        "pframe_fill K fillpage p s2 = Inr (rv, s3)" "s' = s3 \<or> pframe_free K X put p s3 = Inr s'"
      using r s1 by (auto simp: pframe_get_def bindE_deref elim!: bindE_InrE split: if_splits)
    then have "quiet B s3" using pframe_alloc_quiet [OF X(2) q1] pframe_fill_quiet [OF f] by blast
    then show ?thesis using s3(3) pframe_free_quiet [OF X(1) put] by blast
  qed
qed

lemma anon_fillpage_quiet: "keeps_quiet (anon_fillpage K)"
  unfolding keeps_quiet_def
proof (intro allI impI)
  fix B obj p s r s'
  assume q: "quiet B s" and r: "anon_fillpage K obj p s = Inr (r, s')"
  let ?s = "upd_pf p (\<lambda>x. x\<lparr>pf_data := (\<lambda>i. if i < PAGE_SIZE K then 0 else pf_data x i)\<rparr>) s"
  have "quiet B ?s" by (rule quiet_upd_pf [OF q]) simp_all
  moreover have "pframe_pin p ?s = Inr s'"
    using r by (auto simp: anon_fillpage_def bindE_deref elim!: bindE_InrE split: if_splits)
  ultimately show "quiet B s'" by (rule pframe_pin_quiet)
qed

lemma shadow_copy_quiet:
  assumes q: "quiet B s" and r: "shadow_copy K p c s = Inr (r, s')"
  shows "quiet B s'"
proof -
  obtain s1 f where s1: "pframe_pin p s = Inr s1" "s' = upd_pf p (\<lambda>x. x\<lparr>pf_data := f x\<rparr>) s1"
    using r by (auto simp: shadow_copy_def bindE_deref elim!: bindE_InrE)
  show ?thesis unfolding s1(2) by (rule quiet_upd_pf [OF pframe_pin_quiet [OF q s1(1)]]) simp_all
qed

lemma fill_walk_pframes: "fill_walk n K b pn c s = Inr (r, c', s') \<Longrightarrow> pframes s' = pframes s"
proof (induction n arbitrary: c s)
  case (Suc n)
  then show ?case
    by (auto simp: bindE_deref elim!: bindE_InrE split: if_splits dest!: pframe_get_resident_pframes)
qed simp

lemma lookup_walk_pframes: "lookup_walk n K pn c s = Inr (r, c', s') \<Longrightarrow> pframes s' = pframes s"
proof (induction n arbitrary: c s)
  case (Suc n)
  then show ?case
    by (auto simp: bindE_deref elim!: bindE_InrE split: if_splits option.splits dest!: pframe_get_resident_pframes)
qed simp

lemma shadow_fillpage_quiet:
  assumes lk: "\<And>B obj pn fw s ret r s'. quiet B s \<Longrightarrow> lookup obj pn fw s = Inr (ret, r, s') \<Longrightarrow> quiet B s'"
  shows "keeps_quiet (shadow_fillpage n K lookup)"
  unfolding keeps_quiet_def
proof (intro allI impI)
  fix B obj p s ret s'
  assume q: "quiet B s" and r: "shadow_fillpage n K lookup obj p s = Inr (ret, s')"
  obtain pf where pf: "pframes s p = Some pf" "pf_busy pf" "\<not> pframe_is_pinned pf"
    using r by (auto simp: shadow_fillpage_def bindE_deref split: if_splits)
  obtain ob where ob: "mmobjs s obj = Some ob" using r pf by (auto simp: shadow_fillpage_def bindE_deref)
  obtain cp co s1 where w: "fill_walk n K (mmo_bottom ob) (pf_pagenum pf) (mmo_shadowed ob) s = Inr (cp, co, s1)"
    using r pf ob by (auto simp: shadow_fillpage_def elim!: bindE_InrE)
  have q1: "quiet B s1" using fill_walk_pframes [OF w] q quiet_cong by blast
  show "quiet B s'"
  proof (cases cp)
    case (Some c)
    then show ?thesis using r pf ob w shadow_copy_quiet [OF q1] by (simp add: shadow_fillpage_def)
  next
    case None
    then obtain c ret2 r2 s2 where "lookup c (pf_pagenum pf) True s1 = Inr (ret2, r2, s2)"
        "s' = s2 \<or> shadow_copy K p r2 s2 = Inr (ret, s')"
      using r pf ob w by (auto simp: shadow_fillpage_def elim!: bindE_InrE split: option.splits if_splits)
    then show ?thesis using lk [OF q1] shadow_copy_quiet by blast
  qed
qed

lemma mmobj_fillpage_quiet:
  assumes X: "quiet_ext X"
    and lk: "\<And>B obj pn fw s ret r s'. quiet B s \<Longrightarrow> lookup obj pn fw s = Inr (ret, r, s') \<Longrightarrow> quiet B s'"
  shows "keeps_quiet (mmobj_fillpage n K X lookup)"
  unfolding keeps_quiet_def
proof (intro allI impI)
  fix B obj p s ret s'
  assume q: "quiet B s" and r: "mmobj_fillpage n K X lookup obj p s = Inr (ret, s')"
  obtain ob where ob: "mmobjs s obj = Some ob" using r by (auto simp: mmobj_fillpage_def bindE_deref)
  from r ob consider "anon_fillpage K obj p s = Inr (ret, s')" | "o_fillpage X obj p s = Inr (ret, s')"
    | "shadow_fillpage n K lookup obj p s = Inr (ret, s')"
    by (cases "mmo_ops ob") (simp_all add: mmobj_fillpage_def)
  then show "quiet B s'"
  proof cases
    case 1
    then show ?thesis by (rule keeps_quietD [OF anon_fillpage_quiet q])
  next
    case 2
    then show ?thesis by (rule quiet_extD [OF X q])
  next
    case 3
    have "keeps_quiet (shadow_fillpage n K lookup)" by (rule shadow_fillpage_quiet) (rule lk)
    then show ?thesis using keeps_quietD q 3 by blast
  qed
qed

lemma pframe_lookup_quiet:
  assumes X: "pt_frame X" "quiet_ext X"
  shows "quiet B s \<Longrightarrow> pframe_lookup n K X obj pn fw s = Inr (ret, r, s') \<Longrightarrow> quiet B s'"
proof (induction n arbitrary: B obj pn fw s ret r s')
  case (Suc n)
  obtain ob where ob: "mmobjs s obj = Some ob" using Suc.prems(2) by (auto simp: pframe_lookup.simps bindE_deref Let_def)
  have fill: "keeps_quiet (mmobj_fillpage (Suc n) K X (pframe_lookup n K X))"
    by (rule mmobj_fillpage_quiet [OF X(2)]) (rule Suc.IH)
  have put: "\<forall>obj u u'. quiet B u \<longrightarrow> mmobj_put n K X obj u = Inr u' \<longrightarrow> quiet B u'"
    using mmobj_put_quiet [OF X] by blast
  have get: "quiet B s'" if "pframe_get K X (mmobj_fillpage (Suc n) K X (pframe_lookup n K X)) (mmobj_put n K X) obj pn s = Inr (ret, r, s')"
    by (rule pframe_get_quiet [OF X fill put Suc.prems(1) that])
  show ?case
  proof (cases "mmo_ops ob")
    case Anon_ops
    then show ?thesis using Suc.prems ob get by (simp add: pframe_lookup.simps(2) anon_lookuppage_def)
  next
    case Other_ops
    then have "o_lookuppage X obj pn fw s = Inr (ret, r, s')" using Suc.prems ob by (simp add: pframe_lookup.simps(2))
    then show ?thesis by (rule quiet_extD [OF X(2) Suc.prems(1)])
  next
    case Shadow_ops
    show ?thesis
    proof (cases fw)
      case True
      then show ?thesis using Suc.prems ob get Shadow_ops
        by (simp add: pframe_lookup.simps(2) shadow_lookuppage_def)
    next
      case False
      then obtain cp co s1 where w: "lookup_walk (Suc n) K pn obj s = Inr (cp, co, s1)"
          and s1: "s' = s1 \<or> pframe_lookup n K X co pn fw s1 = Inr (ret, r, s')"
        using Suc.prems(2) ob Shadow_ops
        by (auto simp: pframe_lookup.simps(2) shadow_lookuppage_def bindE_deref simp del: lookup_walk.simps
            elim!: bindE_InrE split: option.splits if_splits)
      have "quiet B s1" using lookup_walk_pframes [OF w] Suc.prems(1) quiet_cong by blast
      then show ?thesis using s1 Suc.IH by blast
    qed
  qed
qed (simp add: pframe_lookup.simps)

section \<open>Lookups in a quiet state\<close>

lemma pf_inv_cong:
  assumes "pf_inv K s" and "pframes s' = pframes s" "mmobjs s' = mmobjs s" "alloc_list s' = alloc_list s"
    "pinned_list s' = pinned_list s" "nallocated s' = nallocated s" "npinned s' = npinned s" "pframe_hash s' = pframe_hash s"
  shows "pf_inv K s'"
  using assms(1) unfolding pf_inv_def link_inv_def hash_inv_def res_inv_def obj_ok_def assms(2-) .

text \<open>What is relied on of the code outside, and the states in which the pager never sleeps or fails.\<close>

definition mem_ok :: "kconsts \<Rightarrow> kext \<Rightarrow> (ptr \<Rightarrow> u32 \<Rightarrow> page) \<Rightarrow> bool" where
  "mem_ok K X disk \<longleftrightarrow> alloc_ok X \<and> file_ok K X disk \<and> pt_frame X \<and> quiet_ext X"

definition ready :: "kconsts \<Rightarrow> kstate \<Rightarrow> bool" where
  "ready K s \<longleftrightarrow> pf_inv K s \<and> no_waiters s \<and> quiet {} s"

lemma ready_settled: "ready K s \<Longrightarrow> settled K s obj pn"
  by (auto simp: ready_def settled_def quiet_def)

lemma ready_cong:
  assumes "ready K s" "pf_inv K s'" "mem_rest s' = mem_rest s" "quiet {} s'"
  shows "ready K s'"
  using assms mem_restD(2) [OF assms(3)] by (simp add: ready_def no_waiters_def)

lemma page_lookup_ready:
  assumes X: "mem_ok K X disk" and r: "ready K s" and ch: "chain s (obj # os)" and n: "length (obj # os) \<le> n"
  shows "\<exists>p fr s'. pframe_lookup n K X obj pn fw s = Inr (0, Some p, s') \<and> found K disk s (obj # os) pn p fr s' \<and>
    (fw \<longrightarrow> pf_obj fr = Some obj) \<and> ready K s' \<and> mem_rest s' = mem_rest s \<and> shape s' = shape s \<and> pf_addr fr \<noteq> 0 \<and>
    (\<forall>os' pn'. chain s os' \<longrightarrow> page_eq K (seen K disk s' os' pn') (seen K disk s os' pn'))"
proof -
  have h: "pf_inv K s" "no_waiters s" "quiet {} s" "alloc_ok X" "file_ok K X disk" "pt_frame X" "quiet_ext X"
    using X r by (simp_all add: mem_ok_def ready_def)
  obtain p fr s' where p: "pframe_lookup n K X obj pn fw s = Inr (0, Some p, s')"
      "found K disk s (obj # os) pn p fr s'" "fw \<longrightarrow> pf_obj fr = Some obj"
    using page_lookup [OF h(1,2,4,5) ch n, of pn fw] ready_settled [OF r] by blast
  then have g: "grew K disk s s'" and fr: "pframes s' p = Some fr" by (simp_all add: found_def)
  have q: "quiet {} s'" by (rule pframe_lookup_quiet [OF h(6,7,3) p(1)])
  have mr: "mem_rest s' = mem_rest s" "pf_inv K s'" "shape s' = shape s" using g by (simp_all add: grew_def)
  from p mr fr q ready_cong [OF r mr(2,1) q] quietD [OF q fr] seen_grew [OF h(1) g] show ?thesis by blast
qed

text \<open>The example of the theory \<^verbatim>\<open>Pager\<close> is such a state.\<close>

lemma demo_quiet_ext: "quiet_ext demo_ext"
proof -
  have "quiet B (snd (snd r))" if "quiet B s" "file_lookup i386 obj pn fw s = Inr r" for B obj pn fw s r
    using that by (auto simp: file_lookup_def quiet_def new_frame_def split: option.splits if_splits)
  moreover have "o_lookuppage demo_ext = file_lookup i386" "page_alloc demo_ext = (\<lambda>s. Some (4096, \<lambda>_. 0))"
      "o_ref demo_ext = (\<lambda>obj s. Inr s)" "o_put demo_ext = (\<lambda>obj s. Inr s)" "o_fillpage demo_ext = (\<lambda>obj p s. Inr (0, s))"
    by (simp_all add: demo_ext_def)
  ultimately show ?thesis unfolding quiet_ext_def by simp
qed

lemma demo_mem_ok: "mem_ok i386 demo_ext demo_disk"
  by (simp add: mem_ok_def demo_alloc_ok demo_file_ok demo_pt_frame demo_quiet_ext)

lemma two_shadows_quiet: "ready i386 two_shadows"
  using two_shadows_inv two_shadows_ready(1) by (auto simp: ready_def quiet_def two_shadows_defs split: if_splits)

end
