(* ===== verification/Mmap.thy ===== *)
theory Mmap
  imports Files Quiet
begin

text \<open>
  The system calls that change the current address space, \<^verbatim>\<open>kernel/vm/mmap.c\<close>
  and \<^verbatim>\<open>kernel/vm/brk.c\<close>, and the page fault handler,
  \<^verbatim>\<open>kernel/vm/pagefault.c\<close>.  Addresses and lengths are 32-bit words.
\<close>

unbundle bit_operations_syntax

section \<open>Mapping and unmapping\<close>

definition cur_proc :: "kstate \<Rightarrow> (ptr \<times> proc) res" where
  "cur_proc s = bindE (deref (curproc s)) (\<lambda>p. bindE (deref (procs s p)) (\<lambda>pr. Inr (p, pr)))"

text \<open>
  The file part of \<^verbatim>\<open>do_mmap\<close>: an error, or the vnode to map.  The
  reference that \<^verbatim>\<open>fget\<close> took is not given back when the descriptor is
  refused.
\<close>

definition mmap_file :: "kconsts \<Rightarrow> kenv \<Rightarrow> u32 \<Rightarrow> int \<Rightarrow> kstate \<Rightarrow> ((int + ptr option) \<times> kstate) res" where
  "mmap_file K E prot fd s =
     bindE (fget E fd s) (\<lambda>(fp, s1).
     bindE (if fd < 0 \<or> fd \<ge> MAX_FILES K then Inr True
            else bindE (cur_proc s1) (\<lambda>(p, _). bindE (get_fd p fd s1) (\<lambda>e. Inr (e = None \<or> fp = None)))) (\<lambda>bad.
       if bad then Inr (Inl (- errno K EBADF), s1)
       else
         bindE (deref fp) (\<lambda>f.
         bindE (deref (files s1 f)) (\<lambda>fl.
           if prot AND PROT_WRITE K \<noteq> 0 \<and> f_mode fl AND FMODE_WRITE K \<noteq> FMODE_WRITE K
           then bindE (fput E f s1) (\<lambda>s2. Inr (Inl (- errno K EPERM), s2))
           else
             bindE (fput E f s1) (\<lambda>s2.
             bindE (deref (files s2 f)) (\<lambda>fl2. Inr (Inr (f_vnode fl2), s2)))))))"

definition do_mmap ::
  "nat \<Rightarrow> kconsts \<Rightarrow> kext \<Rightarrow> kenv \<Rightarrow> u32 \<Rightarrow> u32 \<Rightarrow> u32 \<Rightarrow> u32 \<Rightarrow> int \<Rightarrow> u32 \<Rightarrow> kstate \<Rightarrow> (int \<times> u32 option \<times> kstate) res" where
  "do_mmap n K X E addr len prot flags fd off s =
     (if len = 0 \<or> len > USER_MEM_HIGH K - USER_MEM_LOW K then Inr (- errno K EINVAL, None, s)
      else if \<not> PAGE_ALIGNED K off \<or> \<not> PAGE_ALIGNED K addr then Inr (- errno K EINVAL, None, s)
      else
        let lopage = (if flags XOR MAP_FIXED K \<noteq> 0 then ADDR_TO_PN K addr else 0) in
        if \<not> (MAP_SHARED K AND flags \<noteq> 0 \<or> MAP_PRIVATE K AND flags \<noteq> 0) then Inr (- errno K EPERM, None, s)
        else if flags AND MAP_FIXED K \<noteq> 0 \<and> addr = 0 then Inr (- errno K EINVAL, None, s)
        else
          bindE (if flags AND MAP_ANON K = 0 then mmap_file K E prot fd s else Inr (Inr None, s)) (\<lambda>(r, s1).
            case r of
              Inl err \<Rightarrow> Inr (err, None, s1)
            | Inr node \<Rightarrow>
                bindE (cur_proc s1) (\<lambda>(_, pr).
                bindE (vmmap_map n K X (p_vmmap pr) node lopage ((len - 1) div PAGE_SIZE K + 1) prot flags off
                         (VMMAP_DIR_HILO K) s1) (\<lambda>(retval, mmap, s2).
                  if retval < 0 then Inr (retval, None, s2)
                  else
                    bindE (cur_proc s2) (\<lambda>(_, pr2).
                      if p_pagedir pr2 = None then Inl KASSERT_failed
                      else
                        bindE (deref mmap) (\<lambda>v.
                        bindE (deref (vmareas s2 v)) (\<lambda>vma.
                          Inr (retval, Some (PN_TO_ADDR K (vma_start vma)), s2))))))))"

definition do_munmap :: "nat \<Rightarrow> kconsts \<Rightarrow> kext \<Rightarrow> u32 \<Rightarrow> u32 \<Rightarrow> kstate \<Rightarrow> (int \<times> kstate) res" where
  "do_munmap n K X addr len s =
     (if len = 0 \<or> addr = 0 then Inr (- errno K EINVAL, s)
      else if addr < USER_MEM_LOW K \<or> USER_MEM_HIGH K - addr < len then Inr (- errno K EINVAL, s)
      else if \<not> PAGE_ALIGNED K addr then Inr (- errno K EINVAL, s)
      else
        let npages = (if len mod PAGE_SIZE K \<noteq> 0 then len div PAGE_SIZE K + 1 else len div PAGE_SIZE K) in
        bindE (cur_proc s) (\<lambda>(_, pr).
        bindE (deref (p_vmmap pr)) (\<lambda>m.
        bindE (vmmap_remove n K X m (ADDR_TO_PN K addr) npages s) (\<lambda>(_, s1). Inr (0, s1)))))"

section \<open>The break\<close>

definition set_brk :: "ptr \<Rightarrow> u32 \<Rightarrow> kstate \<Rightarrow> kstate" where
  "set_brk p addr s = upd_proc p (\<lambda>x. x\<lparr>p_brk := addr\<rparr>) s"

text \<open>The two cases of growing: the dynamic region does not exist yet, or its area is extended.\<close>

definition brk_first ::
  "nat \<Rightarrow> kconsts \<Rightarrow> kext \<Rightarrow> ptr \<Rightarrow> ptr \<Rightarrow> u32 \<Rightarrow> u32 \<Rightarrow> u32 \<Rightarrow> u32 \<Rightarrow> u32 \<Rightarrow> kstate \<Rightarrow> (int \<times> u32 option \<times> kstate) res" where
  "brk_first n K X p m addr end_addr pgn_start npages pgn_end s =
     (if addr < end_addr then Inr (0, Some addr, set_brk p addr s)
      else
        bindE (vmmap_is_range_empty K m pgn_start npages s) (\<lambda>e.
          if e then
            bindE (vmmap_map n K X (Some m) None pgn_start npages (PROT_READ K OR PROT_WRITE K) (MAP_PRIVATE K)
                     (end_addr mod PAGE_SIZE K) (VMMAP_DIR_HILO K) s) (\<lambda>(_, vma, s1).
            bindE (deref vma) (\<lambda>v.
              Inr (0, Some addr, set_brk p addr (upd_area v (\<lambda>x. x\<lparr>vma_end := pgn_end\<rparr>) s1))))
          else Inr (- errno K ENOMEM, None, s)))"

definition brk_extend ::
  "kconsts \<Rightarrow> ptr \<Rightarrow> ptr \<Rightarrow> u32 \<Rightarrow> u32 \<Rightarrow> u32 \<Rightarrow> u32 \<Rightarrow> u32 \<Rightarrow> u32 \<Rightarrow> kstate \<Rightarrow> (int \<times> u32 option \<times> kstate) res" where
  "brk_extend K p m addr brk pgn_start npages pgn_end pagenum s =
     (let extend = (\<lambda>page. bindE (vmmap_lookup (Some m) page s) (\<lambda>vma.
            bindE (deref vma) (\<lambda>v.
            bindE (deref (vmareas s v)) (\<lambda>_.
              Inr (0, Some addr, upd_area v (\<lambda>x. x\<lparr>vma_end := pgn_end\<rparr>) (set_brk p addr s))))))
      in if npages = 0 \<or> addr \<le> brk then extend (drop_bit 12 (brk - 1))
         else
           bindE (vmmap_is_range_empty K m pgn_start npages s) (\<lambda>e.
             if e then extend pagenum else Inr (- errno K ENOMEM, None, s)))"

definition do_brk :: "nat \<Rightarrow> kconsts \<Rightarrow> kext \<Rightarrow> u32 \<Rightarrow> kstate \<Rightarrow> (int \<times> u32 option \<times> kstate) res" where
  "do_brk n K X addr s =
     bindE (cur_proc s) (\<lambda>(p, pr).
       if addr = 0 then Inr (0, Some (p_brk pr), s)
       else if addr < p_start_brk pr then Inr (- errno K ENOMEM, None, s)
       else if addr = p_start_brk pr then Inr (0, Some (p_start_brk pr), s)
       else
         bindE (vmmap_lookup (p_vmmap pr) (drop_bit 12 (p_start_brk pr - 1)) s) (\<lambda>cur.
         bindE (deref cur) (\<lambda>vc.
         bindE (deref (vmareas s vc)) (\<lambda>vma_cur.
         bindE (deref (p_vmmap pr)) (\<lambda>m.
           let end_addr = push_bit 12 (vma_end vma_cur);
               addr_str = max (p_brk pr) end_addr
           in if addr = addr_str then Inr (0, Some addr, set_brk p addr s)
              else
                let pgn_end = (if \<not> PAGE_ALIGNED K addr then drop_bit 12 addr + 1 else drop_bit 12 addr);
                    pgn_start = drop_bit 12 addr_str;
                    npages = (if \<not> PAGE_ALIGNED K addr_str then pgn_end - pgn_start - 1 else pgn_end - pgn_start);
                    pagenum = (if \<not> PAGE_ALIGNED K (p_brk pr) then drop_bit 12 (p_brk pr - 1) + 1
                               else drop_bit 12 (p_brk pr - 1))
                in if addr_str = end_addr then brk_first n K X p m addr end_addr pgn_start npages pgn_end s
                   else if addr > end_addr then brk_extend K p m addr (p_brk pr) pgn_start npages pgn_end pagenum s
                   else
                     bindE (vmmap_lookup (Some m) pagenum s) (\<lambda>vp.
                     bindE (deref vp) (\<lambda>v.
                     bindE (deref (vmareas s v)) (\<lambda>vma.
                     bindE (vmmap_remove n K X m (vma_start vma) (vma_end vma - vma_start vma) s) (\<lambda>(_, s1).
                       Inr (0, Some addr, set_brk p addr s1))))))))))"

section \<open>Page faults\<close>

text \<open>
  \<open>Resolved\<close> when the handler returns to the faulting process,
  \<open>Killed\<close> when it has ended it and the state is the one of the next
  thread.
\<close>

datatype fault_result = Resolved | Killed

definition segfault ::
  "nat \<Rightarrow> kconsts \<Rightarrow> kext \<Rightarrow> kenv \<Rightarrow> interrupt list \<Rightarrow> kstate \<Rightarrow> (fault_result \<times> kstate) res" where
  "segfault n K X E irqs s = bindE (do_exit n K X E irqs (errno K EFAULT) s) (\<lambda>s1. Inr (Killed, s1))"

definition handle_pagefault ::
  "nat \<Rightarrow> kconsts \<Rightarrow> kext \<Rightarrow> kenv \<Rightarrow> interrupt list \<Rightarrow> u32 \<Rightarrow> u32 \<Rightarrow> kstate \<Rightarrow> (fault_result \<times> kstate) res" where
  "handle_pagefault n K X E irqs vaddr cause s =
     (let vfn = ADDR_TO_PN K vaddr in
      bindE (cur_proc s) (\<lambda>(_, pr).
      bindE (vmmap_lookup (p_vmmap pr) vfn s) (\<lambda>vp.
        case vp of
          None \<Rightarrow> segfault n K X E irqs s
        | Some v \<Rightarrow>
            bindE (deref (vmareas s v)) (\<lambda>vma.
              if vma_prot vma AND PROT_READ K = 0 \<or>
                 cause AND FAULT_WRITE K \<noteq> 0 \<and> vma_prot vma AND PROT_WRITE K = 0
              then segfault n K X E irqs s
              else
                let forwrite = (cause AND FAULT_WRITE K \<noteq> 0);
                    pdflags = (if forwrite then PD_PRESENT K OR PD_USER K OR PD_WRITE K else PD_PRESENT K OR PD_USER K);
                    ptflags = (if forwrite then PT_PRESENT K OR PT_USER K OR PT_WRITE K else PT_PRESENT K OR PT_USER K);
                    pn = vfn - vma_start vma + vma_off vma
                in bindE (deref (vma_obj vma)) (\<lambda>obj.
                   bindE (pframe_lookup n K X obj pn forwrite s) (\<lambda>(ret, pfp, s1).
                     if ret < 0 then segfault n K X E irqs s1
                     else
                       case pfp of
                         None \<Rightarrow> Inl KASSERT_failed
                       | Some f \<Rightarrow>
                           bindE (deref (pframes s1 f)) (\<lambda>pf.
                             if pf_addr pf = 0 then Inl KASSERT_failed
                             else
                               bindE (cur_proc s1) (\<lambda>(_, pr1).
                                 Inr (Resolved, pt_map X (p_pagedir pr1) (PAGE_ALIGN_DOWN K vaddr)
                                        (pt_virt_to_phys E (pf_addr pf)) pdflags ptflags s1)))))))))"

section \<open>Page faults are resolved with the page that is seen\<close>




lemma lookup_mapped:
  assumes ok: "space_ok K s m" and mp: "mapped (areas s m) vfn = Some (obj, pn, prot, flags)"
  obtains v where "vmmap_lookup (Some m) vfn s = Inr (Some v)" "vmareas s v = Some (area s v)"
    "v \<in> set (area_ptrs s m)" "covers vfn (area s v)" "vma_obj (area s v) = obj" "vfn - vma_start (area s v) + vma_off (area s v) = pn"
    "vma_prot (area s v) = prot" "vma_flags (area s v) = flags"
proof -
  obtain v where v: "List.find (\<lambda>v. covers vfn (area s v)) (area_ptrs s m) = Some v"
      "page_map vfn (area s v) = (obj, pn, prot, flags)"
    using mp by (auto simp: mapped_areas)
  then have "v \<in> set (area_ptrs s m)" "covers vfn (area s v)" by (auto simp: find_Some_iff)
  with that [of v] v vmmap_lookup_eq [OF ok, of vfn] space_okD(3) [OF ok] show ?thesis by (simp add: page_map_def)
qed

lemma lookup_unmapped:
  assumes "space_ok K s m" "mapped (areas s m) vfn = None"
  shows "vmmap_lookup (Some m) vfn s = Inr None"
  using assms(2) vmmap_lookup_eq [OF assms(1), of vfn] by (simp add: mapped_areas)

definition allowed :: "kconsts \<Rightarrow> u32 \<Rightarrow> u32 \<Rightarrow> bool" where
  "allowed K prot cause \<longleftrightarrow> prot AND PROT_READ K \<noteq> 0 \<and> (cause AND FAULT_WRITE K \<noteq> 0 \<longrightarrow> prot AND PROT_WRITE K \<noteq> 0)"


lemma handle_pagefault_denied:
  assumes ok: "space_ok K s m" and c: "curproc s = Some c" "procs s c = Some pr" "p_vmmap pr = Some m"
    and no: "case mapped (areas s m) (ADDR_TO_PN K vaddr) of None \<Rightarrow> True | Some (obj, pn, prot, flags) \<Rightarrow> \<not> allowed K prot cause"
  shows "handle_pagefault n K X E irqs vaddr cause s = segfault n K X E irqs s"
proof (cases "mapped (areas s m) (ADDR_TO_PN K vaddr)")
  case None
  then show ?thesis using lookup_unmapped [OF ok None] c by (simp add: handle_pagefault_def cur_proc_def)
next
  case (Some mp)
  obtain obj pn prot flags where mp: "mp = (obj, pn, prot, flags)" by (cases mp) auto
  obtain v where v: "vmmap_lookup (Some m) (ADDR_TO_PN K vaddr) s = Inr (Some v)" "vmareas s v = Some (area s v)"
      "vma_prot (area s v) = prot"
    by (rule lookup_mapped [OF ok Some [unfolded mp]]) blast
  with c no Some mp show ?thesis by (auto simp: handle_pagefault_def cur_proc_def allowed_def Let_def)
qed

lemma seen_pagetabs [simp]: "seen K disk (s\<lparr>pagetabs := t\<rparr>) os pn = seen K disk s os pn"
  by (induction os) (simp_all add: page_of_def frame_data_def cong: option.case_cong)





end
