(* ===== verification/Access.thy ===== *)
theory Access
  imports Mmap
begin

text \<open>
  Moving bytes and strings between the kernel and the current process,
  \<^verbatim>\<open>kernel/api/access.c\<close>.  A user address is a 32-bit word.  What the kernel
  has not initialised, its stack and what \<^verbatim>\<open>kmalloc\<close> returns, holds the bytes
  \<open>stale\<close>.
\<close>

section \<open>The binary interface\<close>

text \<open>
  The layout of the argument structures and the system call numbers come from
  headers that are not in the repository, and so do pipes, \<^verbatim>\<open>execve\<close>
  and the kernel shell.  They are fields of the record \<open>A\<close>.
  \<open>uload\<close> is the processor reading a word of user memory, with the page
  fault that may come with it.
\<close>

record argstr =
  as_str :: u32
  as_len :: u32

record argvec =
  av_vec :: u32
  av_len :: u32

datatype args_kind =
    Read_args | Getdents_args | Dup2_args | Mkdir_args | Argstr_args | Link_args | Rename_args | Lseek_args
  | Open_args | Munmap_args | Mmap_args | Waitpid_args | Stat_args | Execve_args

datatype uts_field = Sysname | Release | Version | Nodename | Machine

datatype sysno =
    SYS_waitpid | SYS_exit | SYS_thr_exit | SYS_thr_yield | SYS_fork | SYS_getpid | SYS_sync | SYS_mmap
  | SYS_munmap | SYS_open | SYS_close | SYS_read | SYS_write | SYS_dup | SYS_dup2 | SYS_mkdir | SYS_rmdir
  | SYS_unlink | SYS_link | SYS_rename | SYS_chdir | SYS_getdents | SYS_brk | SYS_lseek | SYS_halt
  | SYS_set_errno | SYS_errno | SYS_execve | SYS_stat | SYS_pipe | SYS_uname | SYS_debug | SYS_kshell

record kabi =
  stale :: buffer
  stale_null :: bool
  sizeof_args :: "args_kind \<Rightarrow> u32"
  sizeof_int :: u32
  sizeof_stat :: u32
  argstr_at :: "buffer \<Rightarrow> u32 \<Rightarrow> argstr"
  read_args :: "buffer \<Rightarrow> int \<times> u32 \<times> u32"
  getdents_args :: "buffer \<Rightarrow> int \<times> u32 \<times> u32"
  dup2_args :: "buffer \<Rightarrow> int \<times> int"
  mkdir_args :: "buffer \<Rightarrow> argstr"
  link_args :: "buffer \<Rightarrow> argstr \<times> argstr"
  rename_args :: "buffer \<Rightarrow> argstr \<times> argstr"
  lseek_args :: "buffer \<Rightarrow> int \<times> int \<times> int"
  open_args :: "buffer \<Rightarrow> argstr \<times> u32"
  munmap_args :: "buffer \<Rightarrow> u32 \<times> u32"
  mmap_args :: "buffer \<Rightarrow> u32 \<times> u32 \<times> u32 \<times> u32 \<times> int \<times> u32"
  waitpid_args :: "buffer \<Rightarrow> int \<times> int \<times> u32"
  stat_args :: "buffer \<Rightarrow> argstr \<times> u32"
  execve_args :: "buffer \<Rightarrow> argstr \<times> argvec \<times> argvec"
  enc_int :: "int \<Rightarrow> buffer"
  enc_ints :: "int \<times> int \<Rightarrow> buffer"
  off_buf :: u32
  off_nbytes :: u32
  off_uts :: "uts_field \<Rightarrow> u32"
  uts_version :: string
  uload :: "u32 \<Rightarrow> kstate \<Rightarrow> (u32 \<times> kstate) res"
  sysnum_of :: "u32 \<Rightarrow> sysno option"
  MAP_FAILED :: int
  do_pipe :: "kstate \<Rightarrow> (int \<times> (int \<times> int) \<times> kstate) res"
  do_execve :: "string \<Rightarrow> string list option \<Rightarrow> string list option \<Rightarrow> regs \<Rightarrow> kstate \<Rightarrow> (int \<times> regs \<times> kstate) res"
  kshell_create :: "int \<Rightarrow> kstate \<Rightarrow> (ptr option \<times> kstate) res"
  kshell_execute_next :: "ptr \<Rightarrow> kstate \<Rightarrow> (int \<times> kstate) res"
  kshell_destroy :: "ptr \<Rightarrow> kstate \<Rightarrow> kstate res"

section \<open>Checking and copying\<close>

text \<open>The protection \<open>perm\<close> is passed on and never looked at.\<close>

definition addr_perm :: "kconsts \<Rightarrow> proc \<Rightarrow> u32 \<Rightarrow> u32 \<Rightarrow> kstate \<Rightarrow> bool res" where
  "addr_perm K p vaddr perm s =
     bindE (vmmap_lookup (p_vmmap p) (ADDR_TO_PN K vaddr) s) (\<lambda>v. if v = None then Inr False else Inr True)"

text \<open>
  The loop adds the page size to a 32-bit counter.  It takes fuel; one unit per
  byte of the range is enough, as \<open>range_perm_exact\<close> shows.
\<close>

primrec range_loop :: "nat \<Rightarrow> kconsts \<Rightarrow> proc \<Rightarrow> u32 \<Rightarrow> u32 \<Rightarrow> u32 \<Rightarrow> u32 \<Rightarrow> kstate \<Rightarrow> bool res" where
  "range_loop 0 K p avaddr len perm diff s = Inl Never_returns"
| "range_loop (Suc f) K p avaddr len perm diff s =
     (if diff < len then
        bindE (addr_perm K p (avaddr + diff) perm s) (\<lambda>ok.
          if \<not> ok then Inr False else range_loop f K p avaddr len perm (diff + PAGE_SIZE K) s)
      else Inr True)"

definition range_perm :: "kconsts \<Rightarrow> proc \<Rightarrow> u32 \<Rightarrow> u32 \<Rightarrow> u32 \<Rightarrow> kstate \<Rightarrow> bool res" where
  "range_perm K p avaddr len perm s = range_loop (Suc (unat len)) K p avaddr len perm 0 s"

text \<open>
  \<open>buf\<close> is what the kernel buffer holds before; the loops of
  \<^verbatim>\<open>vmmap_read\<close> and \<^verbatim>\<open>vmmap_write\<close> move at least a byte per round.
\<close>

definition copy_from_user ::
  "nat \<Rightarrow> kconsts \<Rightarrow> kext \<Rightarrow> buffer \<Rightarrow> u32 \<Rightarrow> u32 \<Rightarrow> kstate \<Rightarrow> (int \<times> buffer \<times> kstate) res" where
  "copy_from_user n K X buf uaddr nbytes s =
     bindE (cur_proc s) (\<lambda>(_, pr).
     bindE (range_perm K pr uaddr nbytes (PROT_READ K) s) (\<lambda>ok.
       if \<not> ok then Inr (- errno K EFAULT, buf, s)
       else vmmap_read (Suc (unat nbytes)) n K X (p_vmmap pr) uaddr buf nbytes s))"

definition copy_to_user ::
  "nat \<Rightarrow> kconsts \<Rightarrow> kext \<Rightarrow> u32 \<Rightarrow> buffer \<Rightarrow> u32 \<Rightarrow> kstate \<Rightarrow> (int \<times> kstate) res" where
  "copy_to_user n K X uaddr buf nbytes s =
     bindE (cur_proc s) (\<lambda>(_, pr).
     bindE (range_perm K pr uaddr nbytes (PROT_WRITE K) s) (\<lambda>ok.
       if \<not> ok then Inr (- errno K EFAULT, s)
       else vmmap_write (Suc (unat nbytes)) n K X (p_vmmap pr) uaddr buf nbytes s))"

section \<open>Strings\<close>

definition set_errno :: "int \<Rightarrow> kstate \<Rightarrow> kstate res" where
  "set_errno e s =
     bindE (deref (curthr s)) (\<lambda>t.
     bindE (deref (threads s t)) (\<lambda>_. Inr (upd_thread t (\<lambda>x. x\<lparr>kt_errno := e\<rparr>) s)))"

text \<open>
  The memory of a copied string: the bytes asked for, with what the allocated
  cell holds behind them.  Reading it as a string stops at the first null
  byte; nothing makes sure that there is one.
\<close>

definition kmem :: "kenv \<Rightarrow> buffer \<Rightarrow> u32 \<Rightarrow> string" where
  "kmem E buf nbytes =
     map (\<lambda>i. char_of (unat (buf (of_nat i)))) [0..<unat nbytes] @ kmalloc_slack E (unat nbytes)"

definition c_string :: "string \<Rightarrow> string res" where
  "c_string mem = (if NUL \<in> set mem then Inr (takeWhile (\<lambda>c. c \<noteq> NUL) mem) else Inl Out_of_bounds)"

definition user_strdup ::
  "nat \<Rightarrow> kconsts \<Rightarrow> kext \<Rightarrow> kenv \<Rightarrow> kabi \<Rightarrow> argstr \<Rightarrow> kstate \<Rightarrow> (string option \<times> kstate) res" where
  "user_strdup n K X E A ustr s =
     (let nbytes = as_len ustr + 1 in
      if \<not> kmalloc_ok E (unat nbytes) s then bindE (set_errno (errno K ENOMEM) s) (\<lambda>s1. Inr (None, s1))
      else
        bindE (copy_from_user n K X (stale A) (as_str ustr) nbytes s) (\<lambda>(ret, kstr, s1).
          if ret < 0 then bindE (set_errno (- ret) s1) (\<lambda>s2. Inr (None, s2))
          else Inr (Some (kmem E kstr nbytes), s1)))"

text \<open>
  The entries of the array that was copied, each with the fault of reading or
  writing behind the end of an allocated cell: the two sizes are computed
  modulo the word size.
\<close>

definition vec_entry :: "kabi \<Rightarrow> buffer \<Rightarrow> u32 \<Rightarrow> u32 \<Rightarrow> nat \<Rightarrow> argstr res" where
  "vec_entry A temp_kvec tbytes kbytes i =
     (if (i + 1) * unat (sizeof_args A Argstr_args) \<le> unat tbytes \<and> (i + 1) * 4 \<le> unat kbytes
      then Inr (argstr_at A temp_kvec (of_nat i)) else Inl Out_of_bounds)"

text \<open>
  The copies of the strings, up to the first that fails; the error is then in
  \<^verbatim>\<open>kt_errno\<close>.
\<close>

fun vecdup_loop ::
  "nat \<Rightarrow> kconsts \<Rightarrow> kext \<Rightarrow> kenv \<Rightarrow> kabi \<Rightarrow> argstr res list \<Rightarrow> kstate \<Rightarrow> (string list option \<times> kstate) res" where
  "vecdup_loop n K X E A [] s = Inr (Some [], s)"
| "vecdup_loop n K X E A (u # us) s =
     bindE u (\<lambda>ustr.
     bindE (user_strdup n K X E A ustr s) (\<lambda>(kstr, s1).
       case kstr of
         None \<Rightarrow> Inr (None, s1)
       | Some str \<Rightarrow>
           bindE (vecdup_loop n K X E A us s1) (\<lambda>(rest, s2). Inr (map_option (\<lambda>strs. str # strs) rest, s2))))"

text \<open>
  The way out at \<^verbatim>\<open>fail\<close>.  It frees the entries of \<^verbatim>\<open>kvec\<close> up to the
  first null one.  After a failed copy of the array no entry has been written
  yet, so what it frees is whatever the memory held, unless that begins with a
  null pointer.
\<close>

definition vecdup_fail :: "int \<Rightarrow> kstate \<Rightarrow> (string list option \<times> kstate) res" where
  "vecdup_fail ret s = bindE (set_errno (- ret) s) (\<lambda>s1. Inr (None, s1))"

definition user_vecdup ::
  "nat \<Rightarrow> kconsts \<Rightarrow> kext \<Rightarrow> kenv \<Rightarrow> kabi \<Rightarrow> argvec \<Rightarrow> kstate \<Rightarrow> (string list option \<times> kstate) res" where
  "user_vecdup n K X E A uvec s =
     (let tbytes = (av_len uvec + 1) * sizeof_args A Argstr_args; kbytes = (av_len uvec + 1) * 4 in
      if \<not> kmalloc_ok E (unat tbytes) s then vecdup_fail (- errno K ENOMEM) s
      else if \<not> kmalloc_ok E (unat kbytes) s then vecdup_fail (- errno K ENOMEM) s
      else
        bindE (copy_from_user n K X (stale A) (av_vec uvec) tbytes s) (\<lambda>(ret, temp_kvec, s1).
          if ret < 0 then (if \<not> stale_null A then Inl Out_of_bounds else vecdup_fail ret s1)
          else
            bindE (vecdup_loop n K X E A (map (vec_entry A temp_kvec tbytes kbytes) [0..<unat (av_len uvec)]) s1)
              (\<lambda>(kvec, s2).
                case kvec of
                  Some strs \<Rightarrow>
                    if \<not> (unat (av_len uvec) + 1) * 4 \<le> unat kbytes then Inl Out_of_bounds else Inr (Some strs, s2)
                | None \<Rightarrow>
                    bindE (deref (curthr s2)) (\<lambda>t.
                    bindE (deref (threads s2 t)) (\<lambda>thr. vecdup_fail (- kt_errno thr) s2)))))"

end
