(* ===== verification/Fork.thy ===== *)
theory Fork
  imports Mmap
begin

text \<open>
  Copying a process, \<^verbatim>\<open>kernel/proc/fork.c\<close>.
\<close>

unbundle bit_operations_syntax

section \<open>The kernel stack of the new thread\<close>

definition fork_setup_stack :: "kconsts \<Rightarrow> regs \<Rightarrow> ptr \<Rightarrow> kstate \<Rightarrow> u32 \<times> kstate" where
  "fork_setup_stack K regs kstack s =
     (let esp = of_nat kstack + DEFAULT_STACK_SIZE K - (sizeof_regs K + 12)
      in (esp, s\<lparr>kmem_ptr := (kmem_ptr s)(esp + 4 \<mapsto> esp + 8), kmem_regs := (kmem_regs s)(esp + 8 \<mapsto> regs)\<rparr>))"

section \<open>Sharing the address space\<close>

text \<open>
  One round of the loop over the areas: the child's area \<open>vc\<close> gets the
  object of the parent's area \<open>vp\<close>.  A private mapping gets two new
  shadow objects on top of the shared object, one for each process, and both
  areas are linked to the bottom object.
\<close>

definition new_shadow :: "kext \<Rightarrow> ptr \<Rightarrow> ptr \<Rightarrow> kstate \<Rightarrow> (ptr \<times> kstate) res" where
  "new_shadow X bottom_obj obj s =
     bindE (shadow_create X s) (\<lambda>(sh, s1).
       Inr (sh, upd_obj sh (\<lambda>x. x\<lparr>mmo_bottom := Some bottom_obj, mmo_shadowed := Some obj\<rparr>) s1))"

definition link_area :: "ptr \<Rightarrow> ptr \<Rightarrow> ptr \<Rightarrow> kstate \<Rightarrow> kstate" where
  "link_area bottom_obj v sh s =
     upd_area v (\<lambda>x. x\<lparr>vma_obj := Some sh, vma_olink := Some bottom_obj\<rparr>)
       (upd_obj bottom_obj (\<lambda>x. x\<lparr>mmo_vmas := mmo_vmas x @ [v]\<rparr>) s)"

definition fork_private :: "kext \<Rightarrow> ptr \<Rightarrow> ptr \<Rightarrow> ptr \<Rightarrow> kstate \<Rightarrow> kstate res" where
  "fork_private X vc vp obj s =
     bindE (mmobj_bottom_obj X s obj) (\<lambda>bottom_obj.
     bindE (new_shadow X bottom_obj obj s) (\<lambda>(shad_c, s1).
     bindE (deref (mmobjs s1 bottom_obj)) (\<lambda>_.
     bindE (new_shadow X bottom_obj obj (link_area bottom_obj vc shad_c s1)) (\<lambda>(shad_p, s2).
     bindE (unlink_olink vp s2) (\<lambda>s3. Inr (link_area bottom_obj vp shad_p s3))))))"

definition fork_area :: "kconsts \<Rightarrow> kext \<Rightarrow> ptr \<Rightarrow> ptr \<Rightarrow> kstate \<Rightarrow> kstate res" where
  "fork_area K X vc vp s =
     bindE (deref (vmareas s vp)) (\<lambda>vma_p.
     bindE (deref (vmareas s vc)) (\<lambda>_.
     bindE (deref (vma_obj vma_p)) (\<lambda>obj.
     bindE (mmobj_ref X obj (upd_area vc (\<lambda>x. x\<lparr>vma_obj := Some obj\<rparr>) s)) (\<lambda>s1.
       if vma_flags vma_p AND MAP_TYPE K = MAP_PRIVATE K then fork_private X vc vp obj s1 else Inr s1))))"

text \<open>
  The loop runs over the child's areas and follows the parent's list by hand;
  past the end of that list is its head, which is no area.
\<close>

fun fork_loop :: "kconsts \<Rightarrow> kext \<Rightarrow> ptr list \<Rightarrow> ptr list \<Rightarrow> kstate \<Rightarrow> kstate res" where
  "fork_loop K X [] vps s = Inr s"
| "fork_loop K X (vc # vcs) [] s = Inl List_corrupted"
| "fork_loop K X (vc # vcs) (vp # vps) s = bindE (fork_area K X vc vp s) (\<lambda>s1. fork_loop K X vcs vps s1)"

section \<open>The system call\<close>

fun fork_files :: "kenv \<Rightarrow> ptr \<Rightarrow> ptr \<Rightarrow> nat list \<Rightarrow> kstate \<Rightarrow> kstate res" where
  "fork_files E newproc p [] s = Inr s"
| "fork_files E newproc p (i # is) s =
     bindE (get_fd p (int i) s) (\<lambda>f.
     bindE (set_fd newproc (int i) f s) (\<lambda>s1.
     bindE (case f of Some g \<Rightarrow> fref E g s1 | None \<Rightarrow> Inr s1) (\<lambda>s2. fork_files E newproc p is s2)))"

text \<open>
  The parts of \<^verbatim>\<open>do_fork\<close>: the address space, the thread, and what is copied
  from the process.  The address space that \<^verbatim>\<open>proc_create\<close> has made is
  overwritten, and nothing sets the process of its replacement.
\<close>

definition fork_vm :: "kconsts \<Rightarrow> kext \<Rightarrow> ptr \<Rightarrow> kstate \<Rightarrow> kstate res" where
  "fork_vm K X newproc s =
     bindE (cur_proc s) (\<lambda>(_, cur).
     bindE (deref (p_vmmap cur)) (\<lambda>m.
     bindE (vmmap_clone K X m s) (\<lambda>(cm, s1).
       let s2 = upd_proc newproc (\<lambda>x. x\<lparr>p_vmmap := cm\<rparr>) s1 in
       bindE (deref (procs s2 newproc)) (\<lambda>np.
         if p_state np \<noteq> PROC_RUNNING then Inl KASSERT_failed
         else if p_pagedir np = None then Inl KASSERT_failed
         else
           bindE (deref (vmmaps s2 m)) (\<lambda>pm.
           bindE (deref cm) (\<lambda>c.
           bindE (deref (vmmaps s2 c)) (\<lambda>cmap.
             fork_loop K X (vmm_list cmap) (vmm_list pm) s2)))))))"

definition fork_thread :: "kconsts \<Rightarrow> regs \<Rightarrow> ptr \<Rightarrow> ptr \<Rightarrow> kstate \<Rightarrow> kstate res" where
  "fork_thread K regs newproc newthr s =
     bindE (deref (procs s newproc)) (\<lambda>np.
     bindE (deref (threads s newthr)) (\<lambda>thr.
     bindE (deref (kt_kstack thr)) (\<lambda>kstack.
       let (esp, s1) = fork_setup_stack K regs kstack s in
       Inr (upd_proc newproc (\<lambda>x. x\<lparr>p_threads := p_threads x @ [newthr]\<rparr>)
             (upd_thread newthr (\<lambda>x. x\<lparr>kt_proc := Some newproc, kt_plink := Some newproc,
                kt_ctx := (kt_ctx x)\<lparr>c_eip := userland_entry K, c_esp := esp, c_kstack := of_nat kstack,
                  c_kstacksz := DEFAULT_STACK_SIZE K, c_pdptr := p_pagedir np\<rparr>\<rparr>) s1)))))"

definition fork_cwd :: "kenv \<Rightarrow> ptr \<Rightarrow> kstate \<Rightarrow> kstate res" where
  "fork_cwd E newproc s =
     bindE (cur_proc s) (\<lambda>(_, cur).
     bindE (deref (p_cwd cur)) (\<lambda>v. vref E v (upd_proc newproc (\<lambda>x. x\<lparr>p_cwd := Some v\<rparr>) s)))"

definition do_fork :: "kconsts \<Rightarrow> kext \<Rightarrow> kenv \<Rightarrow> regs \<Rightarrow> kstate \<Rightarrow> (int \<times> regs \<times> kstate) res" where
  "do_fork K X E regs s =
     (case curproc s of
        None \<Rightarrow> Inl KASSERT_failed
      | Some p \<Rightarrow>
          bindE (deref (procs s p)) (\<lambda>pr.
            if p_state pr \<noteq> PROC_RUNNING then Inl KASSERT_failed
            else
              bindE (proc_create K X E ''newproc'' s) (\<lambda>(newproc, s1).
              bindE (fork_vm K X newproc s1) (\<lambda>s2.
              bindE (deref (curthr s2)) (\<lambda>t.
              bindE (kthread_clone E t s2) (\<lambda>(newthr, s3).
              bindE (deref (threads s3 newthr)) (\<lambda>thr.
                if kt_kstack thr = None then Inl KASSERT_failed
                else
                  bindE (cur_proc s3) (\<lambda>(_, cur).
                    let s4 = upd_proc newproc (\<lambda>x. x\<lparr>p_brk := p_brk cur, p_start_brk := p_start_brk cur\<rparr>) s3;
                        s5 = pt_unmap_range X (p_pagedir cur) (USER_MEM_LOW K) (USER_MEM_HIGH K) s4
                    in bindE (fork_files E newproc p [0..<NFILES K] s5) (\<lambda>s6.
                       bindE (deref (procs s6 newproc)) (\<lambda>np.
                       bindE (deref (p_cwd np)) (\<lambda>v.
                       bindE (vput E v s6) (\<lambda>s7.
                       bindE (fork_thread K (regs\<lparr>r_eax := 0\<rparr>) newproc newthr s7) (\<lambda>s8.
                       bindE (sched_make_runnable K newthr s8) (\<lambda>s9.
                       bindE (fork_cwd E newproc s9) (\<lambda>s10.
                         Inr (p_pid np, regs\<lparr>r_eax := 0\<rparr>, s10))))))))))))))))"

end
