(* ===== verification/Paths.thy ===== *)
theory Paths
  imports Files
begin

text \<open>
  The operations of \<^verbatim>\<open>kernel/fs/vfs_syscall.c\<close> that take path names.  Where
  the code ignores that \<^verbatim>\<open>dir_namev\<close> failed, it goes on with a null
  directory.
\<close>

section \<open>Operations\<close>

text \<open>Drop the references on \<open>vs\<close> in turn and return \<open>r\<close>.\<close>

fun vputs :: "kenv \<Rightarrow> ptr list \<Rightarrow> kstate \<Rightarrow> kstate res" where
  "vputs E [] s = Inr s"
| "vputs E (v # vs) s = bindE (vput E v s) (\<lambda>s1. vputs E vs s1)"

definition vput_ret :: "kenv \<Rightarrow> ptr list \<Rightarrow> int \<Rightarrow> kstate \<Rightarrow> (int \<times> kstate) res" where
  "vput_ret E vs r s = bindE (vputs E vs s) (\<lambda>s1. Inr (r, s1))"

definition name_dir :: "name_result option \<Rightarrow> ptr option" where
  "name_dir out = map_option (\<lambda>(_, _, d). d) out"

definition name_ptr :: "name_result option \<Rightarrow> string option" where
  "name_ptr out = (case out of Some (n, _, _) \<Rightarrow> n | None \<Rightarrow> None)"

definition name_len :: "name_result option \<Rightarrow> nat" where
  "name_len out = (case out of Some (_, l, _) \<Rightarrow> l | None \<Rightarrow> 0)"

definition do_mknod :: "kconsts \<Rightarrow> kenv \<Rightarrow> string \<Rightarrow> u32 \<Rightarrow> u32 \<Rightarrow> kstate \<Rightarrow> (int \<times> kstate) res" where
  "do_mknod K E path mode devid s =
     bindE (dir_namev K E path None s) (\<lambda>(_, out, s1).
     bindE (deref (name_dir out)) (\<lambda>res_vnode.
     bindE (vnode_op res_vnode s1 (vop_mknod E)) (\<lambda>mk.
       case mk of
         None \<Rightarrow> Inl KASSERT_failed
       | Some mknod \<Rightarrow>
           bindE (lookup K E (Some res_vnode) (name_ptr out) (name_len out) s1) (\<lambda>(retval, lookup_result, s2).
             if retval = - errno K ENOENT then
               bindE (deref (name_ptr out)) (\<lambda>name.
               bindE (mknod (take (name_len out) name) mode devid s2) (\<lambda>(retval, s3). vput_ret E [res_vnode] retval s3))
             else Inl Panicked))))"

definition do_mkdir :: "kconsts \<Rightarrow> kenv \<Rightarrow> string \<Rightarrow> kstate \<Rightarrow> (int \<times> kstate) res" where
  "do_mkdir K E path s =
     bindE (dir_namev K E path None s) (\<lambda>(retval, out, s1).
       if retval < 0 then Inr (retval, s1)
       else
         bindE (deref (name_dir out)) (\<lambda>parent_directory.
           if name_len out > NAME_LEN K then vput_ret E [parent_directory] (- errno K ENAMETOOLONG) s1
           else if name_len out = 0 then vput_ret E [parent_directory] (- errno K EEXIST) s1
           else
             bindE (deref (vnodes s1 parent_directory)) (\<lambda>pd.
               if \<not> S_ISDIR K (vn_mode pd) then vput_ret E [parent_directory] (- errno K ENOTDIR) s1
               else
                 bindE (vnode_op parent_directory s1 (vop_mkdir E)) (\<lambda>mk.
                   case mk of
                     None \<Rightarrow> Inl KASSERT_failed
                   | Some mkdir \<Rightarrow>
                       bindE (lookup K E (Some parent_directory) (name_ptr out) (name_len out) s1) (\<lambda>(retval, lookup_result, s2).
                         if retval \<ge> 0 then
                           bindE (deref lookup_result) (\<lambda>v. vput_ret E [v, parent_directory] (- errno K EEXIST) s2)
                         else if retval = - errno K ENOENT then
                           bindE (deref (name_ptr out)) (\<lambda>name.
                           bindE (mkdir (take (name_len out) name) s2) (\<lambda>(retval, s3).
                             vput_ret E [parent_directory] retval s3))
                         else Inl Panicked)))))"

definition do_rmdir :: "kconsts \<Rightarrow> kenv \<Rightarrow> string \<Rightarrow> kstate \<Rightarrow> (int \<times> kstate) res" where
  "do_rmdir K E path s =
     bindE (dir_namev K E path None s) (\<lambda>(retval, out, s1).
       if retval < 0 then Inr (retval, s1)
       else
         bindE (deref (name_dir out)) (\<lambda>res_vnode.
         bindE (deref (vnodes s1 res_vnode)) (\<lambda>rv.
           if \<not> S_ISDIR K (vn_mode rv) then vput_ret E [res_vnode] (- errno K ENOTDIR) s1
           else
             bindE (deref (name_ptr out)) (\<lambda>name.
               if name_match K ''.'' name (name_len out) then vput_ret E [res_vnode] (- errno K EINVAL) s1
               else if name_match K ''..'' name (name_len out) then vput_ret E [res_vnode] (- errno K ENOTEMPTY) s1
               else
                 bindE (vnode_op res_vnode s1 (vop_rmdir E)) (\<lambda>rm.
                   case rm of
                     None \<Rightarrow> Inl KASSERT_failed
                   | Some rmdir \<Rightarrow>
                       bindE (rmdir (take (name_len out) name) s1) (\<lambda>(retval, s2). vput_ret E [res_vnode] retval s2))))))"

definition do_unlink :: "kconsts \<Rightarrow> kenv \<Rightarrow> string \<Rightarrow> kstate \<Rightarrow> (int \<times> kstate) res" where
  "do_unlink K E path s =
     bindE (dir_namev K E path None s) (\<lambda>(retval, out, s1).
       if retval \<noteq> 0 then Inr (retval, s1)
       else
         bindE (deref (name_dir out)) (\<lambda>parent_dir.
         bindE (lookup K E (Some parent_dir) (name_ptr out) (name_len out) s1) (\<lambda>(retval, file_to_delete, s2).
           if retval < 0 then vput_ret E [parent_dir] retval s2
           else
             bindE (deref file_to_delete) (\<lambda>v.
             bindE (deref (vnodes s2 v)) (\<lambda>vn.
               if S_ISDIR K (vn_mode vn) then vput_ret E [parent_dir, v] (- errno K EPERM) s2
               else
                 bindE (vnode_op parent_dir s2 (vop_unlink E)) (\<lambda>un.
                   case un of
                     None \<Rightarrow> Inl KASSERT_failed
                   | Some unlink \<Rightarrow>
                       bindE (deref (name_ptr out)) (\<lambda>name.
                       bindE (unlink (take (name_len out) name) s2) (\<lambda>(retval, s3).
                         vput_ret E [parent_dir, v] retval s3))))))))"

definition do_link :: "kconsts \<Rightarrow> kenv \<Rightarrow> string \<Rightarrow> string \<Rightarrow> kstate \<Rightarrow> (int \<times> kstate) res" where
  "do_link K E from to s =
     bindE (open_namev K E from (O_CREAT K) None s) (\<lambda>(retval, fromp, s1).
       if retval \<noteq> 0 then Inr (retval, s1)
       else
         bindE (deref fromp) (\<lambda>from_vnode.
         bindE (deref (vnodes s1 from_vnode)) (\<lambda>fv.
           if S_ISDIR K (vn_mode fv) then vput_ret E [from_vnode] (- errno K EPERM) s1
           else
             bindE (dir_namev K E to None s1) (\<lambda>(retval, out, s2).
               if retval \<noteq> 0 then vput_ret E [from_vnode] retval s2
               else
                 bindE (deref (name_dir out)) (\<lambda>to_parent_vnode.
                   if name_len out > NAME_LEN K then
                     vput_ret E [from_vnode, to_parent_vnode] (- errno K ENAMETOOLONG) s2
                   else
                     bindE (lookup K E (Some to_parent_vnode) (name_ptr out) (name_len out) s2) (\<lambda>(retval, to_vnode, s3).
                       case (if retval = 0 then to_vnode else None) of
                         Some tv \<Rightarrow> vput_ret E [from_vnode, to_parent_vnode, tv] (- errno K EEXIST) s3
                       | None \<Rightarrow>
                           bindE (vnode_op to_parent_vnode s3 (vop_link E)) (\<lambda>lnp.
                           bindE (deref lnp) (\<lambda>link.
                           bindE (deref (name_ptr out)) (\<lambda>name.
                           bindE (link from_vnode (take (name_len out) name) s3) (\<lambda>(retval, s4).
                             vput_ret E [from_vnode, to_parent_vnode] retval s4))))))))))"

definition do_rename :: "kconsts \<Rightarrow> kenv \<Rightarrow> string \<Rightarrow> string \<Rightarrow> kstate \<Rightarrow> (int \<times> kstate) res" where
  "do_rename K E oldname newname s = do_link K E oldname newname s"

definition do_chdir :: "kconsts \<Rightarrow> kenv \<Rightarrow> string \<Rightarrow> kstate \<Rightarrow> (int \<times> kstate) res" where
  "do_chdir K E path s =
     bindE (dir_namev K E path None s) (\<lambda>(_, out, s1).
     bindE (lookup K E (name_dir out) (name_ptr out) (name_len out) s1) (\<lambda>(retval, lookup_result, s2).
     bindE (deref (name_dir out)) (\<lambda>res_vnode.
       if retval < 0 then vput_ret E [res_vnode] retval s2
       else
         bindE (deref lookup_result) (\<lambda>v.
         bindE (deref (vnodes s2 v)) (\<lambda>vn.
           if \<not> S_ISDIR K (vn_mode vn) then vput_ret E [v, res_vnode] (- errno K ENOTDIR) s2
           else
             bindE (deref (curproc s2)) (\<lambda>cp.
             bindE (vput E res_vnode s2) (\<lambda>s3.
             bindE (deref (procs s3 cp)) (\<lambda>pr.
             bindE (deref (p_cwd pr)) (\<lambda>cwd.
             bindE (vput E cwd s3) (\<lambda>s4.
               Inr (0, upd_proc cp (\<lambda>x. x\<lparr>p_cwd := lookup_result\<rparr>) s4)))))))))))"

definition do_stat :: "kconsts \<Rightarrow> kenv \<Rightarrow> string option \<Rightarrow> kstate \<Rightarrow> (int \<times> bytes option \<times> kstate) res" where
  "do_stat K E pathp s =
     (case pathp of
        None \<Rightarrow> Inr (- errno K EINVAL, None, s)
      | Some path \<Rightarrow>
          if path = [] then Inr (- errno K EINVAL, None, s)
          else
            bindE (dir_namev K E path None s) (\<lambda>(retval, out, s1).
              if retval < 0 then Inr (retval, None, s1)
              else
                bindE (deref (name_dir out)) (\<lambda>parent_directory.
                  let namep = (if name_len out = 0 then Some ''.'' else name_ptr out);
                      namelen = (if name_len out = 0 then 1 else name_len out)
                  in bindE (lookup K E (Some parent_directory) namep namelen s1) (\<lambda>(retval, file_vnode, s2).
                       if retval = - errno K ENOTDIR \<or> retval = - errno K ENOENT then
                         bindE (vput E parent_directory s2) (\<lambda>s3. Inr (retval, None, s3))
                       else
                         bindE (deref file_vnode) (\<lambda>v.
                         bindE (vnode_op v s2 (vop_stat E)) (\<lambda>stp.
                           case stp of
                             None \<Rightarrow> Inl KASSERT_failed
                           | Some st \<Rightarrow>
                               bindE (st s2) (\<lambda>(_, buf, s3).
                               bindE (vput E parent_directory s3) (\<lambda>s4.
                               bindE (vput E v s4) (\<lambda>s5. Inr (0, Some buf, s5))))))))))"

section \<open>Directories\<close>

lemma dir_namev_found:
  assumes "dirs_ok K E child" and "refs_ok E" and "\<forall>e. 0 < errno K e" and "resident child s"
    and "\<forall>n. kmalloc_ok E n s" and "path_ok p" and "start_dir p base s = Inr (Some cb)" and "vnodes s cb \<noteq> None"
    and "walk K E child s (butlast (comps p)) cb = Inr d"
  obtains q where "dir_namev K E p base s = Inr (0, Some (Some q, length (base_name p), d), bump d 1 s)"
    "take (length (base_name p)) q = base_name p"
proof -
  obtain q where q: "strstr p (base_name p) = Some q" "take (length (base_name p)) q = base_name p"
    using base_name_found [OF assms(6)] by blast
  show ?thesis by (rule that [OF _ q(2)]) (use dir_namev_walk [OF assms(1-8), unfolded q(1)] assms(9) in simp)
qed

text \<open>The lookup that follows, in the state that holds a reference to the directory.\<close>

lemma lookup_base:
  assumes "dirs_ok K E child" and "vnodes s d \<noteq> None" and "take (length n) q = n"
  shows "lookup K E (Some d) (Some q) (length n) (bump d 1 s) =
    (case entry K E child s d n of Inl e \<Rightarrow> Inr (e, None, bump d 1 s) | Inr v \<Rightarrow> Inr (0, Some v, bump v 1 (bump d 1 s)))"
  using lookup_entry [OF assms(1) bump_live [OF assms(2)], of q "length n"] assms(3) by simp

lemma entry_err:
  assumes "\<forall>e. 0 < errno K e" and "entry K E child s d n = Inl e"
  shows "e < 0"
  using assms(1) [rule_format, of ENOENT] assms(1) [rule_format, of ENOTDIR] assms(2)
  by (auto simp: entry_def split: if_splits option.splits)

lemma refs_drop:
  assumes "refs_ok E" and "vnodes s v = Some vn" and "1 < vn_refcount vn"
  shows "vput E v s = Inr (bump v (- 1) s)"
  using assms by (simp add: refs_ok_def)

text \<open>Changing the working directory to \<open>v\<close>: a reference gained there, one lost on the old one.\<close>

definition moved_to :: "ptr \<Rightarrow> ptr \<Rightarrow> ptr \<Rightarrow> kstate \<Rightarrow> kstate" where
  "moved_to c old v s = upd_proc c (\<lambda>x. x\<lparr>p_cwd := Some v\<rparr>) (bump old (- 1) (bump v 1 s))"

lemma do_chdir_result:
  assumes E: "dirs_ok K E child" "refs_ok E" and er: "\<forall>e. 0 < errno K e" and r: "resident child s"
    and mem: "\<forall>n. kmalloc_ok E n s" and p: "path_ok p" and cb: "start_dir p None s = Inr (Some cb)" "vnodes s cb = Some cn" "0 < vn_refcount cn"
    and d: "walk K E child s (butlast (comps p)) cb = Inr d"
    and c: "curproc s = Some c" "procs s c = Some pr" "p_cwd pr = Some old" "vnodes s old = Some ov" "1 < vn_refcount ov"
  shows "do_chdir K E p s =
    (case entry K E child s d (base_name p) of
       Inl e \<Rightarrow> Inr (e, s)
     | Inr v \<Rightarrow> if is_dir K s v then Inr (0, moved_to c old v s) else Inr (- errno K ENOTDIR, s))"
proof -
  have cbl: "vnodes s cb \<noteq> None" using cb(2) by simp
  obtain q where q: "dir_namev K E p None s = Inr (0, Some (Some q, length (base_name p), d), bump d 1 s)"
    "take (length (base_name p)) q = base_name p"
    by (rule dir_namev_found [OF E er r mem p cb(1) cbl d])
  obtain dn where dn: "vnodes s d = Some dn" "0 < vn_refcount dn" using walk_live [OF r d cb(2,3)] by blast
  have "vnodes s d \<noteq> None" using dn by simp
  note lk = lookup_base [OF E(1) this q(2)]
  show ?thesis
  proof (cases "entry K E child s d (base_name p)")
    case (Inl e)
    then show ?thesis using q(1) lk entry_err [OF er Inl] refs_back [OF E(2) dn]
      by (simp add: do_chdir_def name_dir_def name_ptr_def name_len_def vput_ret_def)
  next
    case (Inr v)
    obtain vn where vn: "vnodes s v = Some vn" "0 < vn_refcount vn" using entry_live [OF r Inr] by blast
    then have vl: "vnodes s v \<noteq> None" by simp
    have dput: "vput E d (bump v 1 (bump d 1 s)) = Inr (bump v 1 s)" by (rule refs_back_other [OF E(2) dn vl])
    have vput2: "vput E v (bump v 1 (bump d 1 s)) = Inr (bump d 1 s)"
      using refs_back [OF E(2), of "bump d 1 s" v] vn by (cases "v = d") auto
    have oput: "vput E old (bump v 1 s) = Inr (bump old (- 1) (bump v 1 s))"
    proof -
      have "\<exists>w. vnodes (bump v 1 s) old = Some w \<and> 1 < vn_refcount w" using c(4,5) by auto
      then show ?thesis using refs_drop [OF E(2)] by blast
    qed
    have mode: "\<exists>w. vnodes (bump v 1 (bump d 1 s)) v = Some w \<and> vn_mode w = vn_mode vn" using vn by auto
    show ?thesis using q(1) lk Inr dput vput2 oput mode c vn refs_back [OF E(2) dn]
      by (auto simp: do_chdir_def name_dir_def name_ptr_def name_len_def vput_ret_def is_dir_def moved_to_def)
  qed
qed

text \<open>
  When the directory part of the path does not resolve, \<^verbatim>\<open>do_chdir\<close> calls
  \<^verbatim>\<open>lookup\<close> on a null directory and the kernel stops, and \<^verbatim>\<open>do_mknod\<close>
  dereferences it.
\<close>

lemma do_chdir_bad_directory:
  assumes "dirs_ok K E child" and "refs_ok E" and "\<forall>e. 0 < errno K e" and "resident child s"
    and "\<forall>n. kmalloc_ok E n s" and "path_ok p" and "start_dir p None s = Inr (Some cb)" and "vnodes s cb \<noteq> None"
    and "walk K E child s (butlast (comps p)) cb = Inl e"
  shows "do_chdir K E p s = Inl KASSERT_failed" and "do_mknod K E p mode devid s = Inl Null_deref"
  using dir_namev_walk [OF assms(1-8)] assms(9) by (simp_all add: do_chdir_def do_mknod_def name_dir_def lookup_def)

text \<open>
  \<^verbatim>\<open>do_mkdir\<close>: the errors give undo every reference, and otherwise the
  directory's own \<^verbatim>\<open>mkdir\<close> decides.
\<close>

lemma do_mkdir_result:
  assumes E: "dirs_ok K E child" "refs_ok E" and er: "\<forall>e. 0 < errno K e" "errno K ENOENT \<noteq> errno K ENOTDIR" and r: "resident child s"
    and mem: "\<forall>n. kmalloc_ok E n s" and p: "path_ok p" and cb: "start_dir p None s = Inr (Some cb)" "vnodes s cb = Some cn" "0 < vn_refcount cn"
    and sr: "\<And>d. walk K E child s (butlast (comps p)) cb = Inr d \<Longrightarrow> is_dir K s d \<Longrightarrow> searchable E s d \<and> fs_mkdir E d \<noteq> None"
  shows "do_mkdir K E p s =
    (case walk K E child s (butlast (comps p)) cb of
       Inl e \<Rightarrow> Inr (e, s)
     | Inr d \<Rightarrow>
         if length (base_name p) > NAME_LEN K then Inr (- errno K ENAMETOOLONG, s)
         else if base_name p = [] then Inr (- errno K EEXIST, s)
         else if \<not> is_dir K s d then Inr (- errno K ENOTDIR, s)
         else if child d (base_name p) \<noteq> None then Inr (- errno K EEXIST, s)
         else bindE (the (fs_mkdir E d) (base_name p) (bump d 1 s)) (\<lambda>(retval, s1). vput_ret E [d] retval s1))"
proof (cases "walk K E child s (butlast (comps p)) cb")
  case (Inl e)
  have "target K E child s cb p = Inl e" using Inl by (simp add: target_def)
  from target_err [OF er(1) this] show ?thesis
    using dir_namev_walk [OF E er(1) r mem p cb(1)] cb(2) Inl by (simp add: do_mkdir_def)
next
  case (Inr d)
  have cbl: "vnodes s cb \<noteq> None" using cb(2) by simp
  obtain q where q: "dir_namev K E p None s = Inr (0, Some (Some q, length (base_name p), d), bump d 1 s)"
    "take (length (base_name p)) q = base_name p"
    by (rule dir_namev_found [OF E er(1) r mem p cb(1) cbl Inr])
  obtain dn where dn: "vnodes s d = Some dn" "0 < vn_refcount dn" using walk_live [OF r Inr cb(2,3)] by blast
  have "vnodes s d \<noteq> None" using dn by simp
  note lk = lookup_base [OF E(1) this q(2)]
  have mode: "vnodes (bump d 1 s) d = Some (dn\<lparr>vn_refcount := vn_refcount dn + 1\<rparr>)" using dn by simp
  note undo = refs_back [OF E(2) dn]
  show ?thesis
  proof (cases "length (base_name p) > NAME_LEN K \<or> base_name p = [] \<or> \<not> is_dir K s d")
    case True
    then show ?thesis using q(1) undo Inr mode dn
      by (auto simp: do_mkdir_def name_dir_def name_ptr_def name_len_def vput_ret_def is_dir_def)
  next
    case False
    then have dir: "\<not> NAME_LEN K < length (base_name p)" "base_name p \<noteq> []" "is_dir K s d" by auto
    from sr [OF Inr dir(3)] obtain mk where mk: "fs_mkdir E d = Some mk" "searchable E s d" by blast
    have ops: "vn_ops dn = Some Fs_ops" using mk(2) dn by (auto simp: searchable_def)
    have vop: "vnode_op d (bump d 1 s) (vop_mkdir E) = Inr (Some mk)" using mode ops mk(1) by (simp add: vop_mkdir_def only_fs_def)
    show ?thesis
    proof (cases "child d (base_name p)")
      case None
      then have "entry K E child s d (base_name p) = Inl (- errno K ENOENT)" using mk(2) by (simp add: entry_def)
      then show ?thesis using q lk Inr dir mode vop mk(1) None er(1) [rule_format, of ENOENT] dn
        by (simp add: do_mkdir_def name_dir_def name_ptr_def name_len_def is_dir_def)
    next
      case (Some v)
      then have en: "entry K E child s d (base_name p) = Inr v" using mk(2) by (simp add: entry_def)
      obtain vn where vn: "vnodes s v = Some vn" "0 < vn_refcount vn" using entry_live [OF r en] by blast
      have "vput E v (bump v 1 (bump d 1 s)) = Inr (bump d 1 s)"
        using refs_back [OF E(2), of "bump d 1 s" v] vn by (cases "v = d") auto
      then show ?thesis using q(1) lk Inr dir mode vop Some en undo dn
        by (simp add: do_mkdir_def name_dir_def name_ptr_def name_len_def is_dir_def vput_ret_def)
    qed
  qed
qed

section \<open>Properties\<close>

text \<open>The shell in the root directory of the small file system, where directories can be made.\<close>

definition cwd_state :: kstate where
  "cwd_state = upd_proc 22 (\<lambda>x. x\<lparr>p_cwd := Some 60\<rparr>) (bump 60 1 disk_state)"

definition demo_paths_env :: kenv where
  "demo_paths_env = demo_fs\<lparr>fs_mkdir := (\<lambda>d. Some (\<lambda>name s. Inr (0, s)))\<rparr>"

lemma demo_paths_laws: "dirs_ok i386 demo_paths_env demo_child" "refs_ok demo_paths_env" "\<forall>n. kmalloc_ok demo_paths_env n s"
  by (simp_all add: dirs_ok_def refs_ok_def demo_paths_env_def demo_fs_def demo_lookup_def demo_env_def)

lemma cwd_state_sel:
  "vnodes cwd_state = (vnodes disk_state)(60 \<mapsto> (demo_vnode 2)\<lparr>vn_refcount := 2\<rparr>)" "curproc cwd_state = Some 22"
  "procs cwd_state 22 = Some ((kin 2 (Some 21) [24, 23] PROC_RUNNING 0 32)\<lparr>p_cwd := Some 60\<rparr>)" "vfs_root_vn cwd_state = Some 60"
  by (simp_all add: cwd_state_def disk_state_start(2)) (simp_all add: disk_state_def demo_family_procs(3) demo_family_proc demo_vnode_def)

lemma cwd_state_resident: "resident demo_child cwd_state"
  using resident_bump [OF disk_state_resident, of 60] by (simp add: resident_def cwd_state_def)

lemma cwd_state_dirs: "searchable demo_paths_env cwd_state 60" "searchable demo_paths_env cwd_state 61" "is_dir i386 cwd_state 60"
  "is_dir i386 cwd_state 61"
  by (simp_all add: searchable_def is_dir_def cwd_state_sel disk_state_files demo_vnode_def demo_paths_env_def demo_fs_def i386_def)

lemma more_paths:
  "path_ok ''bin''" "comps ''bin'' = [''bin'']" "base_name ''bin'' = ''bin''"
  "path_ok ''/bin/new''" "comps ''/bin/new'' = [''bin'', ''new'']" "base_name ''/bin/new'' = ''new''"
  by (simp_all add: path_eval)

text \<open>C35: \<^verbatim>\<open>do_chdir\<close> moves the current process.  Where the directory part of the path resolves,
  it returns -ENOENT or -ENOTDIR and changes nothing, or the path's vnode becomes the working directory
  with one reference more and the old one loses its reference.\<close>

theorem do_chdir_moves:
  assumes "dirs_ok K E child" and "refs_ok E" and "\<forall>e. 0 < errno K e" and "resident child s"
    and "\<forall>n. kmalloc_ok E n s" and "path_ok p" and "start_dir p None s = Inr (Some cb)" and "vnodes s cb = Some cn"
    and "0 < vn_refcount cn" and "walk K E child s (butlast (comps p)) cb = Inr d"
    and "curproc s = Some c" and "procs s c = Some pr" and "p_cwd pr = Some old" and "vnodes s old = Some ov" and "1 < vn_refcount ov"
  shows "do_chdir K E p s =
    (case entry K E child s d (base_name p) of
       Inl e \<Rightarrow> Inr (e, s)
     | Inr v \<Rightarrow> if is_dir K s v then Inr (0, moved_to c old v s) else Inr (- errno K ENOTDIR, s))"
  by (rule do_chdir_result [OF assms])

theorem do_chdir_moves_witness:
  "do_chdir i386 demo_paths_env ''bin'' cwd_state = Inr (0, moved_to 22 60 61 cwd_state)"
proof -
  have "start_dir ''bin'' None cwd_state = Inr (Some 60)" by (simp add: start_dir_def SLASH_def cwd_state_sel)
  moreover have "walk i386 demo_paths_env demo_child cwd_state (butlast (comps ''bin'')) 60 = Inr 60" by (simp add: more_paths)
  moreover have "entry i386 demo_paths_env demo_child cwd_state 60 ''bin'' = Inr 61"
    by (simp add: entry_def cwd_state_dirs demo_child_def)
  ultimately show ?thesis
    using do_chdir_moves [OF demo_paths_laws(1,2) i386_errno_pos cwd_state_resident demo_paths_laws(3) more_paths(1), of 60
        "(demo_vnode 2)\<lparr>vn_refcount := 2\<rparr>" 60 22 _ 60 "(demo_vnode 2)\<lparr>vn_refcount := 2\<rparr>", OF _ _ _ _ _ cwd_state_sel(3)]
    by (simp add: cwd_state_sel more_paths cwd_state_dirs)
qed

text \<open>C36: \<^verbatim>\<open>do_mkdir\<close> checks before it creates.  A path that does not resolve, a name that is too
  long or empty, a parent that is no directory and a name that exists are reported and change nothing;
  otherwise the parent's own \<^verbatim>\<open>mkdir\<close> is called with the last component, and its result is
  returned after the reference to the parent is dropped.\<close>

theorem do_mkdir_checks:
  assumes "dirs_ok K E child" and "refs_ok E" and "\<forall>e. 0 < errno K e" and "errno K ENOENT \<noteq> errno K ENOTDIR"
    and "resident child s" and "\<forall>n. kmalloc_ok E n s" and "path_ok p" and "start_dir p None s = Inr (Some cb)"
    and "vnodes s cb = Some cn" and "0 < vn_refcount cn"
    and "\<And>d. walk K E child s (butlast (comps p)) cb = Inr d \<Longrightarrow> is_dir K s d \<Longrightarrow> searchable E s d \<and> fs_mkdir E d \<noteq> None"
  shows "do_mkdir K E p s =
    (case walk K E child s (butlast (comps p)) cb of
       Inl e \<Rightarrow> Inr (e, s)
     | Inr d \<Rightarrow>
         if length (base_name p) > NAME_LEN K then Inr (- errno K ENAMETOOLONG, s)
         else if base_name p = [] then Inr (- errno K EEXIST, s)
         else if \<not> is_dir K s d then Inr (- errno K ENOTDIR, s)
         else if child d (base_name p) \<noteq> None then Inr (- errno K EEXIST, s)
         else bindE (the (fs_mkdir E d) (base_name p) (bump d 1 s)) (\<lambda>(retval, s1). vput_ret E [d] retval s1))"
  by (rule do_mkdir_result [OF assms])

theorem do_mkdir_checks_witness:
  "do_mkdir i386 demo_paths_env ''/bin/new'' cwd_state = Inr (0, cwd_state) \<and>
   do_mkdir i386 demo_paths_env ''bin'' cwd_state = Inr (- 17, cwd_state)"
proof
  let ?E = demo_paths_env
  have w: "walk i386 ?E demo_child cwd_state [''bin''] 60 = Inr 61"
    by (simp add: entry_def cwd_state_dirs demo_child_def)
  have mk: "fs_mkdir ?E d = Some (\<lambda>name s. Inr (0, s))" for d by (simp add: demo_paths_env_def)
  have ne: "errno i386 ENOENT \<noteq> errno i386 ENOTDIR" by (simp add: i386_pids)
  have l: "NAME_LEN i386 = 28" by (simp add: i386_def)
  have put: "vput ?E 61 (bump 61 1 cwd_state) = Inr cwd_state" by (simp add: demo_paths_env_def demo_fs_def)
  have "start_dir ''/bin/new'' None cwd_state = Inr (Some 60)" by (simp add: start_dir_def SLASH_def cwd_state_sel)
  from do_mkdir_checks [OF demo_paths_laws(1,2) i386_errno_pos ne cwd_state_resident demo_paths_laws(3) more_paths(4) this]
  show "do_mkdir i386 ?E ''/bin/new'' cwd_state = Inr (0, cwd_state)"
    unfolding more_paths using w mk put by (simp add: cwd_state_sel cwd_state_dirs demo_child_def demo_vnode_def l vput_ret_def del: walk.simps)
  have "start_dir ''bin'' None cwd_state = Inr (Some 60)" by (simp add: start_dir_def SLASH_def cwd_state_sel)
  from do_mkdir_checks [OF demo_paths_laws(1,2) i386_errno_pos ne cwd_state_resident demo_paths_laws(3) more_paths(1) this]
  show "do_mkdir i386 ?E ''bin'' cwd_state = Inr (- 17, cwd_state)"
    unfolding more_paths using mk by (simp add: cwd_state_sel cwd_state_dirs demo_child_def demo_vnode_def l i386_pids)
qed

end
