(* ===== verification/Syscall.thy ===== *)
theory Syscall
  imports Access Fork Paths
begin

text \<open>
  The system call interface, \<^verbatim>\<open>kernel/api/syscall.c\<close>: fetching the
  arguments from user memory, calling the routine that does the work, and
  turning its result into a return value and the \<^verbatim>\<open>kt_errno\<close> of the
  caller.  \<open>n\<close> is the fuel for page lookups and \<open>g\<close> the fuel for
  the loops that need not end.
\<close>

section \<open>What the calls have in common\<close>

definition sys_fail :: "int \<Rightarrow> kstate \<Rightarrow> (int \<times> kstate) res" where
  "sys_fail e s = bindE (set_errno e s) (\<lambda>s1. Inr (- 1, s1))"

definition sys_result :: "int \<times> kstate \<Rightarrow> (int \<times> kstate) res" where
  "sys_result r = (case r of (err, s) \<Rightarrow> if err < 0 then sys_fail (- err) s else Inr (err, s))"

text \<open>
  \<open>copy_args\<close> fills the structure \<^verbatim>\<open>kern_args\<close> on the stack.
  \<open>with_args\<close> is the prologue of the calls that report the error of the
  copy, and \<open>with_path\<close> that of the calls that take a path.
\<close>

definition copy_args ::
  "nat \<Rightarrow> kconsts \<Rightarrow> kext \<Rightarrow> kabi \<Rightarrow> args_kind \<Rightarrow> u32 \<Rightarrow> kstate \<Rightarrow> (int \<times> buffer \<times> kstate) res" where
  "copy_args n K X A kind arg s = copy_from_user n K X (stale A) arg (sizeof_args A kind) s"

definition with_args ::
  "nat \<Rightarrow> kconsts \<Rightarrow> kext \<Rightarrow> kabi \<Rightarrow> args_kind \<Rightarrow> u32 \<Rightarrow> (buffer \<Rightarrow> kstate \<Rightarrow> (int \<times> kstate) res) \<Rightarrow>
   kstate \<Rightarrow> (int \<times> kstate) res" where
  "with_args n K X A kind arg body s =
     bindE (copy_args n K X A kind arg s) (\<lambda>(err, kern_args, s1).
       if err < 0 then sys_fail (- err) s1 else body kern_args s1)"

definition with_str ::
  "nat \<Rightarrow> kconsts \<Rightarrow> kext \<Rightarrow> kenv \<Rightarrow> kabi \<Rightarrow> argstr \<Rightarrow> (string \<Rightarrow> kstate \<Rightarrow> (int \<times> kstate) res) \<Rightarrow>
   kstate \<Rightarrow> (int \<times> kstate) res" where
  "with_str n K X E A ustr body s =
     bindE (user_strdup n K X E A ustr s) (\<lambda>(kstr, s1).
       case kstr of None \<Rightarrow> sys_fail (errno K EINVAL) s1 | Some mem \<Rightarrow> body mem s1)"

definition with_path ::
  "nat \<Rightarrow> kconsts \<Rightarrow> kext \<Rightarrow> kenv \<Rightarrow> kabi \<Rightarrow> argstr \<Rightarrow> (string \<Rightarrow> kstate \<Rightarrow> (int \<times> kstate) res) \<Rightarrow>
   kstate \<Rightarrow> (int \<times> kstate) res" where
  "with_path n K X E A ustr body = with_str n K X E A ustr (\<lambda>mem s. bindE (c_string mem) (\<lambda>path. body path s))"

section \<open>Reading and writing\<close>

text \<open>
  \<^verbatim>\<open>sys_read\<close> and \<^verbatim>\<open>sys_write\<close> ignore what the copies return, so after a
  failed copy the arguments are what the stack held.  They move the data
  through one page; a longer transfer runs over its end.  \<^verbatim>\<open>arg->buf\<close> and
  \<^verbatim>\<open>arg->nbytes\<close> are read from user memory again.
\<close>

definition sys_read ::
  "nat \<Rightarrow> kconsts \<Rightarrow> kext \<Rightarrow> kenv \<Rightarrow> kabi \<Rightarrow> u32 \<Rightarrow> kstate \<Rightarrow> (int \<times> kstate) res" where
  "sys_read n K X E A arg s =
     bindE (copy_args n K X A Read_args arg s) (\<lambda>(_, kern_args, s1).
       let (fd, _, nbytes) = read_args A kern_args; temp_buf = page_alloc X s1 in
       bindE (do_read K E fd nbytes s1) (\<lambda>(num_bytes, buf, s2).
         if num_bytes < 0 then sys_fail (- num_bytes) s2
         else if num_bytes > 0 \<and> temp_buf = None then Inl Null_deref
         else if num_bytes > uint (PAGE_SIZE K) then Inl Out_of_bounds
         else
           bindE (uload A (arg + off_buf A) s2) (\<lambda>(ubuf, s3).
           bindE (copy_to_user n K X ubuf (case buf of Some b \<Rightarrow> b | None \<Rightarrow> stale A) (word_of_int num_bytes) s3) (\<lambda>(_, s4).
             Inr (num_bytes, s4)))))"

definition sys_write ::
  "nat \<Rightarrow> kconsts \<Rightarrow> kext \<Rightarrow> kenv \<Rightarrow> kabi \<Rightarrow> u32 \<Rightarrow> kstate \<Rightarrow> (int \<times> kstate) res" where
  "sys_write n K X E A arg s =
     bindE (copy_args n K X A Read_args arg s) (\<lambda>(_, kern_args, s1).
       let (fd, ubuf, nbytes) = read_args A kern_args; page = page_alloc X s1 in
       bindE (uload A (arg + off_nbytes A) s1) (\<lambda>(count, s2).
       bindE (copy_from_user n K X (case page of Some (_, bs) \<Rightarrow> bs | None \<Rightarrow> stale A) ubuf count s2) (\<lambda>(ret, temp_buf, s3).
         if ret = 0 \<and> count > 0 \<and> page = None then Inl Null_deref
         else if ret = 0 \<and> count > PAGE_SIZE K then Inl Out_of_bounds
         else
           bindE (do_write K E fd temp_buf nbytes s3) (\<lambda>(num_bytes, s4).
             if num_bytes < 0 then sys_fail (- num_bytes) s4 else Inr (num_bytes, s4)))))"

text \<open>The loop of \<^verbatim>\<open>sys_getdents\<close>, over the rounds that are left.\<close>

primrec getdents_loop ::
  "nat \<Rightarrow> nat \<Rightarrow> kconsts \<Rightarrow> kext \<Rightarrow> kenv \<Rightarrow> kabi \<Rightarrow> int \<Rightarrow> u32 \<Rightarrow> int \<Rightarrow> kstate \<Rightarrow> (int \<times> kstate) res" where
  "getdents_loop 0 n K X E A fd dirp tot s = Inr (tot, s)"
| "getdents_loop (Suc i) n K X E A fd dirp tot s =
     bindE (do_getdent K E fd s) (\<lambda>(num_bytes, ent, s1).
       if num_bytes < 0 then sys_fail (- num_bytes) s1
       else if num_bytes = 0 then Inr (tot, s1)
       else
         bindE (copy_to_user n K X (dirp + word_of_int tot) (case ent of Some b \<Rightarrow> b | None \<Rightarrow> stale A)
                  (word_of_int (sizeof_dirent K)) s1) (\<lambda>(_, s2).
           getdents_loop i n K X E A fd dirp (int32 (tot + num_bytes)) s2))"

definition sys_getdents ::
  "nat \<Rightarrow> kconsts \<Rightarrow> kext \<Rightarrow> kenv \<Rightarrow> kabi \<Rightarrow> u32 \<Rightarrow> kstate \<Rightarrow> (int \<times> kstate) res" where
  "sys_getdents n K X E A arg s =
     bindE (copy_args n K X A Getdents_args arg s) (\<lambda>(_, kern_args, s1).
       let (fd, dirp, count) = getdents_args A kern_args
       in getdents_loop (unat (count div word_of_int (sizeof_dirent K))) n K X E A fd dirp 0 s1)"

section \<open>Files and directories\<close>

definition sys_close :: "kconsts \<Rightarrow> kenv \<Rightarrow> int \<Rightarrow> kstate \<Rightarrow> (int \<times> kstate) res" where
  "sys_close K E fd s = bindE (do_close K E fd s) sys_result"

definition sys_dup :: "kconsts \<Rightarrow> kenv \<Rightarrow> int \<Rightarrow> kstate \<Rightarrow> (int \<times> kstate) res" where
  "sys_dup K E fd s = bindE (do_dup K E fd s) sys_result"

definition sys_dup2 :: "nat \<Rightarrow> kconsts \<Rightarrow> kext \<Rightarrow> kenv \<Rightarrow> kabi \<Rightarrow> u32 \<Rightarrow> kstate \<Rightarrow> (int \<times> kstate) res" where
  "sys_dup2 n K X E A arg = with_args n K X A Dup2_args arg (\<lambda>b s.
     let (ofd, nfd) = dup2_args A b in bindE (do_dup2 K E ofd nfd s) sys_result)"

definition sys_mkdir :: "nat \<Rightarrow> kconsts \<Rightarrow> kext \<Rightarrow> kenv \<Rightarrow> kabi \<Rightarrow> u32 \<Rightarrow> kstate \<Rightarrow> (int \<times> kstate) res" where
  "sys_mkdir n K X E A arg = with_args n K X A Mkdir_args arg (\<lambda>b.
     with_path n K X E A (mkdir_args A b) (\<lambda>path s. bindE (do_mkdir K E path s) sys_result))"

definition sys_rmdir :: "nat \<Rightarrow> kconsts \<Rightarrow> kext \<Rightarrow> kenv \<Rightarrow> kabi \<Rightarrow> u32 \<Rightarrow> kstate \<Rightarrow> (int \<times> kstate) res" where
  "sys_rmdir n K X E A arg = with_args n K X A Argstr_args arg (\<lambda>b.
     with_path n K X E A (argstr_at A b 0) (\<lambda>path s. bindE (do_rmdir K E path s) sys_result))"

definition sys_unlink :: "nat \<Rightarrow> kconsts \<Rightarrow> kext \<Rightarrow> kenv \<Rightarrow> kabi \<Rightarrow> u32 \<Rightarrow> kstate \<Rightarrow> (int \<times> kstate) res" where
  "sys_unlink n K X E A arg = with_args n K X A Argstr_args arg (\<lambda>b.
     with_path n K X E A (argstr_at A b 0) (\<lambda>path s. bindE (do_unlink K E path s) sys_result))"

definition sys_link :: "nat \<Rightarrow> kconsts \<Rightarrow> kext \<Rightarrow> kenv \<Rightarrow> kabi \<Rightarrow> u32 \<Rightarrow> kstate \<Rightarrow> (int \<times> kstate) res" where
  "sys_link n K X E A arg = with_args n K X A Link_args arg (\<lambda>b.
     let (uto, ufrom) = link_args A b in
     with_str n K X E A uto (\<lambda>to. with_str n K X E A ufrom (\<lambda>from s.
       bindE (c_string from) (\<lambda>old. bindE (c_string to) (\<lambda>new. bindE (do_link K E old new s) sys_result)))))"

definition sys_rename :: "nat \<Rightarrow> kconsts \<Rightarrow> kext \<Rightarrow> kenv \<Rightarrow> kabi \<Rightarrow> u32 \<Rightarrow> kstate \<Rightarrow> (int \<times> kstate) res" where
  "sys_rename n K X E A arg = with_args n K X A Rename_args arg (\<lambda>b.
     let (uold, unew) = rename_args A b in
     with_str n K X E A uold (\<lambda>oldname. with_str n K X E A unew (\<lambda>newname s.
       bindE (c_string oldname) (\<lambda>old. bindE (c_string newname) (\<lambda>new. bindE (do_rename K E old new s) sys_result)))))"

definition sys_chdir :: "nat \<Rightarrow> kconsts \<Rightarrow> kext \<Rightarrow> kenv \<Rightarrow> kabi \<Rightarrow> u32 \<Rightarrow> kstate \<Rightarrow> (int \<times> kstate) res" where
  "sys_chdir n K X E A arg = with_args n K X A Argstr_args arg (\<lambda>b.
     with_path n K X E A (argstr_at A b 0) (\<lambda>path s. bindE (do_chdir K E path s) sys_result))"

definition sys_lseek :: "nat \<Rightarrow> kconsts \<Rightarrow> kext \<Rightarrow> kenv \<Rightarrow> kabi \<Rightarrow> u32 \<Rightarrow> kstate \<Rightarrow> (int \<times> kstate) res" where
  "sys_lseek n K X E A arg = with_args n K X A Lseek_args arg (\<lambda>b s.
     let (fd, offset, whence) = lseek_args A b in bindE (do_lseek K E fd offset whence s) sys_result)"

definition sys_open :: "nat \<Rightarrow> kconsts \<Rightarrow> kext \<Rightarrow> kenv \<Rightarrow> kabi \<Rightarrow> u32 \<Rightarrow> kstate \<Rightarrow> (int \<times> kstate) res" where
  "sys_open n K X E A arg = with_args n K X A Open_args arg (\<lambda>b.
     let (filename, flags) = open_args A b in
     with_path n K X E A filename (\<lambda>path s. bindE (do_open K E path flags s) sys_result))"

definition sys_stat :: "nat \<Rightarrow> kconsts \<Rightarrow> kext \<Rightarrow> kenv \<Rightarrow> kabi \<Rightarrow> u32 \<Rightarrow> kstate \<Rightarrow> (int \<times> kstate) res" where
  "sys_stat n K X E A arg s =
     bindE (copy_args n K X A Stat_args arg s) (\<lambda>(err, kern_args, s1).
       if err < 0 then sys_fail (errno K EFAULT) s1
       else
         let (upath, ubuf) = stat_args A kern_args in
         with_path n K X E A upath (\<lambda>path s2.
           bindE (do_stat K E (Some path) s2) (\<lambda>(ret, buf, s3).
           bindE (if ret = 0
                  then copy_to_user n K X ubuf (case buf of Some b \<Rightarrow> b | None \<Rightarrow> stale A) (sizeof_stat A) s3
                  else Inr (ret, s3)) (\<lambda>(ret, s4).
             if ret \<noteq> 0 then sys_fail (- ret) s4 else Inr (0, s4)))) s1)"

definition sys_pipe :: "nat \<Rightarrow> kconsts \<Rightarrow> kext \<Rightarrow> kabi \<Rightarrow> u32 \<Rightarrow> kstate \<Rightarrow> (int \<times> kstate) res" where
  "sys_pipe n K X A arg s =
     bindE (do_pipe A s) (\<lambda>(ret, fds, s1).
     bindE (if ret = 0 then copy_to_user n K X arg (enc_ints A fds) (2 * sizeof_int A) s1 else Inr (ret, s1))
       (\<lambda>(ret, s2). if ret \<noteq> 0 then sys_fail (- ret) s2 else Inr (0, s2)))"

section \<open>Memory\<close>

definition sys_munmap :: "nat \<Rightarrow> kconsts \<Rightarrow> kext \<Rightarrow> kabi \<Rightarrow> u32 \<Rightarrow> kstate \<Rightarrow> (int \<times> kstate) res" where
  "sys_munmap n K X A arg s =
     bindE (copy_args n K X A Munmap_args arg s) (\<lambda>(err, kargs, s1).
       if err \<noteq> 0 then sys_fail (errno K EFAULT) s1
       else
         let (addr, len) = munmap_args A kargs in
         bindE (do_munmap n K X addr len s1) (\<lambda>(err, s2). if err < 0 then sys_fail (- err) s2 else Inr (0, s2)))"

text \<open>A pointer that is returned is converted to an \<^verbatim>\<open>int\<close>.\<close>

definition sys_mmap :: "nat \<Rightarrow> kconsts \<Rightarrow> kext \<Rightarrow> kenv \<Rightarrow> kabi \<Rightarrow> u32 \<Rightarrow> kstate \<Rightarrow> (int \<times> kstate) res" where
  "sys_mmap n K X E A arg s =
     bindE (copy_args n K X A Mmap_args arg s) (\<lambda>(err, kargs, s1).
       if err < 0 then bindE (set_errno (errno K EFAULT) s1) (\<lambda>s2. Inr (MAP_FAILED A, s2))
       else
         let (addr, len, prot, flags, fd, off) = mmap_args A kargs in
         bindE (do_mmap n K X E addr len prot flags fd off s1) (\<lambda>(err, ret, s2).
           if err < 0 then bindE (set_errno (- err) s2) (\<lambda>s3. Inr (MAP_FAILED A, s3))
           else bindE (deref ret) (\<lambda>a. Inr (sint a, s2))))"

definition sys_brk :: "nat \<Rightarrow> kconsts \<Rightarrow> kext \<Rightarrow> u32 \<Rightarrow> kstate \<Rightarrow> (int \<times> kstate) res" where
  "sys_brk n K X addr s =
     bindE (do_brk n K X addr s) (\<lambda>(err, ret, s1).
       if err = 0 then bindE (deref ret) (\<lambda>a. Inr (sint a, s1)) else sys_fail (- err) s1)"

definition sys_sync :: "nat \<Rightarrow> kconsts \<Rightarrow> kext \<Rightarrow> kstate \<Rightarrow> kstate res" where
  "sys_sync g K X s = pframe_clean_all g K X s"

section \<open>Processes\<close>

text \<open>
  A call returns a value, or the caller has gone to sleep in
  \<^verbatim>\<open>do_waitpid\<close>, has yielded or has ended, and the state is the one of the next
  thread.
\<close>

datatype pending = Waiting int u32 "ptr option" | Yielded | Exited

datatype sys_outcome = Ret int | Away pending

definition waitpid_finish ::
  "nat \<Rightarrow> kconsts \<Rightarrow> kext \<Rightarrow> kabi \<Rightarrow> int \<Rightarrow> u32 \<Rightarrow> wait_result \<times> kstate \<Rightarrow> (sys_outcome \<times> kstate) res" where
  "waitpid_finish n K X A pid ustatus r =
     (case r of
        (Slept c, s) \<Rightarrow> Inr (Away (Waiting pid ustatus c), s)
      | (Done p status, s) \<Rightarrow>
          if p < 0 then bindE (sys_fail (- p) s) (\<lambda>(v, s1). Inr (Ret v, s1))
          else if ustatus \<noteq> 0 then
            bindE (copy_to_user n K X ustatus (case status of Some v \<Rightarrow> enc_int A v | None \<Rightarrow> stale A) (sizeof_int A) s)
              (\<lambda>(err, s1).
                if err < 0 then bindE (sys_fail (errno K EFAULT) s1) (\<lambda>(v, s2). Inr (Ret v, s2)) else Inr (Ret p, s1))
          else Inr (Ret p, s))"

definition sys_waitpid ::
  "nat \<Rightarrow> kconsts \<Rightarrow> kext \<Rightarrow> kenv \<Rightarrow> kabi \<Rightarrow> interrupt list \<Rightarrow> u32 \<Rightarrow> kstate \<Rightarrow> (sys_outcome \<times> kstate) res" where
  "sys_waitpid n K X E A irqs arg s =
     bindE (copy_args n K X A Waitpid_args arg s) (\<lambda>(err, kargs, s1).
       if err < 0 then bindE (sys_fail (errno K EFAULT) s1) (\<lambda>(v, s2). Inr (Ret v, s2))
       else
         let (pid, options, ustatus) = waitpid_args A kargs in
         bindE (do_waitpid K E irqs pid options s1) (waitpid_finish n K X A pid ustatus))"

definition sys_waitpid_resume ::
  "nat \<Rightarrow> kconsts \<Rightarrow> kext \<Rightarrow> kenv \<Rightarrow> kabi \<Rightarrow> interrupt list \<Rightarrow> int \<Rightarrow> u32 \<Rightarrow> ptr option \<Rightarrow> kstate \<Rightarrow>
   (sys_outcome \<times> kstate) res" where
  "sys_waitpid_resume n K X E A irqs pid ustatus c s =
     bindE (waitpid_resume K E irqs pid c s) (waitpid_finish n K X A pid ustatus)"

definition sys_halt ::
  "nat \<Rightarrow> kconsts \<Rightarrow> kext \<Rightarrow> kenv \<Rightarrow> interrupt list \<Rightarrow> kstate \<Rightarrow> kstate res" where
  "sys_halt n K X E irqs s = proc_kill_all n K X E irqs s"

definition sys_fork :: "kconsts \<Rightarrow> kext \<Rightarrow> kenv \<Rightarrow> regs \<Rightarrow> kstate \<Rightarrow> (int \<times> regs \<times> kstate) res" where
  "sys_fork K X E regs s =
     bindE (do_fork K X E regs s) (\<lambda>(ret, regs1, s1).
       if ret < 0 then bindE (sys_fail (- ret) s1) (\<lambda>(v, s2). Inr (v, regs1, s2)) else Inr (ret, regs1, s1))"

text \<open>Copying a vector of strings that may be absent; the flag tells whether to go on.\<close>

definition exec_vector ::
  "nat \<Rightarrow> kconsts \<Rightarrow> kext \<Rightarrow> kenv \<Rightarrow> kabi \<Rightarrow> argvec \<Rightarrow> kstate \<Rightarrow> (bool \<times> string list option \<times> kstate) res" where
  "exec_vector n K X E A uvec s =
     (if av_vec uvec = 0 then Inr (True, None, s)
      else bindE (user_vecdup n K X E A uvec s) (\<lambda>(kvec, s1). Inr (kvec \<noteq> None, kvec, s1)))"

definition exec_cleanup :: "regs \<Rightarrow> kstate \<Rightarrow> (int \<times> regs \<times> kstate) res" where
  "exec_cleanup regs s =
     bindE (deref (curthr s)) (\<lambda>t.
     bindE (deref (threads s t)) (\<lambda>thr. Inr (if kt_errno thr \<noteq> 0 then - 1 else 0, regs, s)))"

definition sys_execve ::
  "nat \<Rightarrow> kconsts \<Rightarrow> kext \<Rightarrow> kenv \<Rightarrow> kabi \<Rightarrow> u32 \<Rightarrow> regs \<Rightarrow> kstate \<Rightarrow> (int \<times> regs \<times> kstate) res" where
  "sys_execve n K X E A arg regs s =
     bindE (copy_args n K X A Execve_args arg s) (\<lambda>(err, kern_args, s1).
       if err < 0 then bindE (set_errno (- err) s1) (exec_cleanup regs)
       else
         let (filename, argv, envp) = execve_args A kern_args in
         bindE (user_strdup n K X E A filename s1) (\<lambda>(kern_filename, s2).
           case kern_filename of
             None \<Rightarrow> exec_cleanup regs s2
           | Some mem \<Rightarrow>
               bindE (exec_vector n K X E A argv s2) (\<lambda>(go, kern_argv, s3).
                 if \<not> go then exec_cleanup regs s3
                 else
                   bindE (exec_vector n K X E A envp s3) (\<lambda>(go, kern_envp, s4).
                     if \<not> go then exec_cleanup regs s4
                     else
                       bindE (c_string mem) (\<lambda>name.
                       bindE (do_execve A name kern_argv kern_envp regs s4) (\<lambda>(err, regs1, s5).
                       bindE (set_errno (- err) s5) (exec_cleanup regs1)))))))"

section \<open>The rest\<close>

definition str_bytes :: "string \<Rightarrow> buffer" where
  "str_bytes str i = (if unat i < length str then of_nat (of_char (str ! unat i)) else 0)"

fun uname_loop ::
  "nat \<Rightarrow> kconsts \<Rightarrow> kext \<Rightarrow> kabi \<Rightarrow> u32 \<Rightarrow> (uts_field \<times> string) list \<Rightarrow> kstate \<Rightarrow> (int \<times> kstate) res" where
  "uname_loop n K X A arg [] s = Inr (0, s)"
| "uname_loop n K X A arg ((fld, str) # rest) s =
     bindE (copy_to_user n K X (arg + off_uts A fld) (str_bytes str) (of_nat (length str + 1)) s) (\<lambda>(ret, s1).
       if ret \<noteq> 0 then sys_fail (- ret) s1 else uname_loop n K X A arg rest s1)"

definition sys_uname :: "nat \<Rightarrow> kconsts \<Rightarrow> kext \<Rightarrow> kabi \<Rightarrow> u32 \<Rightarrow> kstate \<Rightarrow> (int \<times> kstate) res" where
  "sys_uname n K X A arg =
     uname_loop n K X A arg
       [(Sysname, ''Weenix''), (Release, ''1.2''), (Version, uts_version A), (Nodename, []), (Machine, [])]"

definition sys_debug :: "nat \<Rightarrow> kconsts \<Rightarrow> kext \<Rightarrow> kenv \<Rightarrow> kabi \<Rightarrow> u32 \<Rightarrow> kstate \<Rightarrow> (int \<times> kstate) res" where
  "sys_debug n K X E A arg = with_args n K X A Argstr_args arg (\<lambda>b s.
     bindE (user_strdup n K X E A (argstr_at A b 0) s) (\<lambda>(_, s1). Inr (0, s1)))"

primrec kshell_loop :: "nat \<Rightarrow> kabi \<Rightarrow> ptr \<Rightarrow> kstate \<Rightarrow> (int \<times> kstate) res" where
  "kshell_loop 0 A ksh s = Inl Never_returns"
| "kshell_loop (Suc g) A ksh s =
     bindE (kshell_execute_next A ksh s) (\<lambda>(err, s1). if err > 0 then kshell_loop g A ksh s1 else Inr (err, s1))"

definition sys_kshell :: "nat \<Rightarrow> kconsts \<Rightarrow> kabi \<Rightarrow> int \<Rightarrow> kstate \<Rightarrow> (int \<times> kstate) res" where
  "sys_kshell g K A ttyid s =
     bindE (kshell_create A ttyid s) (\<lambda>(ksh, s1).
       case ksh of
         None \<Rightarrow> sys_fail (errno K ENODEV) s1
       | Some k \<Rightarrow>
           bindE (kshell_loop g A k s1) (\<lambda>(err, s2).
           bindE (kshell_destroy A k s2) (\<lambda>s3. if err < 0 then sys_fail (- err) s3 else Inr (0, s3))))"

section \<open>The dispatcher and the interrupt handler\<close>

text \<open>The three shapes of a call: it returns, it leaves the processor, or it takes the registers.\<close>

definition returns :: "regs \<Rightarrow> (int \<times> kstate) res \<Rightarrow> (sys_outcome \<times> regs \<times> kstate) res" where
  "returns regs r = bindE r (\<lambda>(v, s). Inr (Ret v, regs, s))"

definition leaves :: "regs \<Rightarrow> pending \<Rightarrow> kstate res \<Rightarrow> (sys_outcome \<times> regs \<times> kstate) res" where
  "leaves regs w r = bindE r (\<lambda>s. Inr (Away w, regs, s))"

definition keeps :: "regs \<Rightarrow> (sys_outcome \<times> kstate) res \<Rightarrow> (sys_outcome \<times> regs \<times> kstate) res" where
  "keeps regs r = bindE r (\<lambda>(out, s). Inr (out, regs, s))"

definition with_regs :: "(int \<times> regs \<times> kstate) res \<Rightarrow> (sys_outcome \<times> regs \<times> kstate) res" where
  "with_regs r = bindE r (\<lambda>(v, regs, s). Inr (Ret v, regs, s))"

definition sys_getpid :: "kstate \<Rightarrow> (int \<times> kstate) res" where
  "sys_getpid s = bindE (cur_proc s) (\<lambda>(_, pr). Inr (p_pid pr, s))"

definition sys_errno :: "kstate \<Rightarrow> (int \<times> kstate) res" where
  "sys_errno s = bindE (deref (curthr s)) (\<lambda>t. bindE (deref (threads s t)) (\<lambda>thr. Inr (kt_errno thr, s)))"

definition sys_yield :: "kconsts \<Rightarrow> interrupt list \<Rightarrow> kstate \<Rightarrow> kstate res" where
  "sys_yield K irqs s =
     bindE (deref (curthr s)) (\<lambda>t. bindE (sched_make_runnable K t s) (sched_switch K irqs))"

fun run_call ::
  "nat \<Rightarrow> nat \<Rightarrow> kconsts \<Rightarrow> kext \<Rightarrow> kenv \<Rightarrow> kabi \<Rightarrow> interrupt list \<Rightarrow> sysno \<Rightarrow> u32 \<Rightarrow> regs \<Rightarrow> kstate \<Rightarrow>
   (sys_outcome \<times> regs \<times> kstate) res" where
  "run_call g n K X E A irqs SYS_waitpid args regs s = keeps regs (sys_waitpid n K X E A irqs args s)"
| "run_call g n K X E A irqs SYS_exit args regs s = leaves regs Exited (do_exit n K X E irqs (sint args) s)"
| "run_call g n K X E A irqs SYS_thr_exit args regs s = leaves regs Exited (kthread_exit n K X E irqs (sint args) s)"
| "run_call g n K X E A irqs SYS_thr_yield args regs s = leaves regs Yielded (sys_yield K irqs s)"
| "run_call g n K X E A irqs SYS_fork args regs s = with_regs (sys_fork K X E regs s)"
| "run_call g n K X E A irqs SYS_getpid args regs s = returns regs (sys_getpid s)"
| "run_call g n K X E A irqs SYS_sync args regs s = returns regs (bindE (sys_sync g K X s) (\<lambda>s1. Inr (0, s1)))"
| "run_call g n K X E A irqs SYS_mmap args regs s = returns regs (sys_mmap n K X E A args s)"
| "run_call g n K X E A irqs SYS_munmap args regs s = returns regs (sys_munmap n K X A args s)"
| "run_call g n K X E A irqs SYS_open args regs s = returns regs (sys_open n K X E A args s)"
| "run_call g n K X E A irqs SYS_close args regs s = returns regs (sys_close K E (sint args) s)"
| "run_call g n K X E A irqs SYS_read args regs s = returns regs (sys_read n K X E A args s)"
| "run_call g n K X E A irqs SYS_write args regs s = returns regs (sys_write n K X E A args s)"
| "run_call g n K X E A irqs SYS_dup args regs s = returns regs (sys_dup K E (sint args) s)"
| "run_call g n K X E A irqs SYS_dup2 args regs s = returns regs (sys_dup2 n K X E A args s)"
| "run_call g n K X E A irqs SYS_mkdir args regs s = returns regs (sys_mkdir n K X E A args s)"
| "run_call g n K X E A irqs SYS_rmdir args regs s = returns regs (sys_rmdir n K X E A args s)"
| "run_call g n K X E A irqs SYS_unlink args regs s = returns regs (sys_unlink n K X E A args s)"
| "run_call g n K X E A irqs SYS_link args regs s = returns regs (sys_link n K X E A args s)"
| "run_call g n K X E A irqs SYS_rename args regs s = returns regs (sys_rename n K X E A args s)"
| "run_call g n K X E A irqs SYS_chdir args regs s = returns regs (sys_chdir n K X E A args s)"
| "run_call g n K X E A irqs SYS_getdents args regs s = returns regs (sys_getdents n K X E A args s)"
| "run_call g n K X E A irqs SYS_brk args regs s = returns regs (sys_brk n K X args s)"
| "run_call g n K X E A irqs SYS_lseek args regs s = returns regs (sys_lseek n K X E A args s)"
| "run_call g n K X E A irqs SYS_halt args regs s =
     returns regs (bindE (sys_halt n K X E irqs s) (\<lambda>s1. Inr (- 1, s1)))"
| "run_call g n K X E A irqs SYS_set_errno args regs s =
     returns regs (bindE (set_errno (sint args) s) (\<lambda>s1. Inr (0, s1)))"
| "run_call g n K X E A irqs SYS_errno args regs s = returns regs (sys_errno s)"
| "run_call g n K X E A irqs SYS_execve args regs s = with_regs (sys_execve n K X E A args regs s)"
| "run_call g n K X E A irqs SYS_stat args regs s = returns regs (sys_stat n K X E A args s)"
| "run_call g n K X E A irqs SYS_pipe args regs s = returns regs (sys_pipe n K X A args s)"
| "run_call g n K X E A irqs SYS_uname args regs s = returns regs (sys_uname n K X A args s)"
| "run_call g n K X E A irqs SYS_debug args regs s = returns regs (sys_debug n K X E A args s)"
| "run_call g n K X E A irqs SYS_kshell args regs s = returns regs (sys_kshell g K A (sint args) s)"

definition syscall_dispatch ::
  "nat \<Rightarrow> nat \<Rightarrow> kconsts \<Rightarrow> kext \<Rightarrow> kenv \<Rightarrow> kabi \<Rightarrow> interrupt list \<Rightarrow> u32 \<Rightarrow> u32 \<Rightarrow> regs \<Rightarrow> kstate \<Rightarrow>
   (sys_outcome \<times> regs \<times> kstate) res" where
  "syscall_dispatch g n K X E A irqs sysnum args regs s =
     (case sysnum_of A sysnum of
        None \<Rightarrow> returns regs (sys_fail (errno K ENOSYS) s)
      | Some call \<Rightarrow> run_call g n K X E A irqs call args regs s)"

text \<open>
  Before and after the call a cancelled thread ends with the value it was
  cancelled with.  \<open>handler_exit\<close> is the part behind the call, which
  also runs when a caller that was away comes back.
\<close>

datatype trap_outcome = Back regs | Gone | Left pending

definition exit_cancelled ::
  "nat \<Rightarrow> kconsts \<Rightarrow> kext \<Rightarrow> kenv \<Rightarrow> interrupt list \<Rightarrow>
   (kstate \<Rightarrow> (trap_outcome \<times> kstate) res) \<Rightarrow> kstate \<Rightarrow> (trap_outcome \<times> kstate) res" where
  "exit_cancelled n K X E irqs go s =
     bindE (deref (curthr s)) (\<lambda>t.
     bindE (deref (threads s t)) (\<lambda>thr.
       if kt_cancelled thr \<noteq> 0 then bindE (kthread_exit n K X E irqs (kt_retval thr) s) (\<lambda>s1. Inr (Gone, s1))
       else go s))"

definition handler_exit ::
  "nat \<Rightarrow> kconsts \<Rightarrow> kext \<Rightarrow> kenv \<Rightarrow> interrupt list \<Rightarrow> sys_outcome \<times> regs \<times> kstate \<Rightarrow>
   (trap_outcome \<times> kstate) res" where
  "handler_exit n K X E irqs r =
     (case r of
        (Ret ret, regs, s) \<Rightarrow>
          exit_cancelled n K X E irqs (\<lambda>s1. Inr (Back (regs\<lparr>r_eax := word_of_int ret\<rparr>), s1)) s
      | (Away w, regs, s) \<Rightarrow> Inr (if w = Exited then Gone else Left w, s))"

definition syscall_handler ::
  "nat \<Rightarrow> nat \<Rightarrow> kconsts \<Rightarrow> kext \<Rightarrow> kenv \<Rightarrow> kabi \<Rightarrow> interrupt list \<Rightarrow> regs \<Rightarrow> kstate \<Rightarrow>
   (trap_outcome \<times> kstate) res" where
  "syscall_handler g n K X E A irqs regs s =
     exit_cancelled n K X E irqs (\<lambda>s0.
       bindE (syscall_dispatch g n K X E A irqs (r_eax regs) (r_edx regs) regs s0) (handler_exit n K X E irqs)) s"

end
