(* ===== verification/Kmain.thy ===== *)
theory Kmain
  imports Syscall
begin

text \<open>
  Starting and stopping the kernel: the boot code of
  \<^verbatim>\<open>kernel/main/kmain.c\<close> and the start and the end of the pageout daemon in
  \<^verbatim>\<open>kernel/mm/pframe.c\<close>.  A routine that waits for a child is cut at the wait:
  \<open>Slept\<close> is the state after the switch, and the rest is a definition of
  its own.
\<close>

section \<open>Parameters\<close>

text \<open>
  The addresses of the thread functions, the device numbers, and the routines
  that the boot code calls and the repository does not have.
\<close>

record kboot =
  idleproc_func :: u32
  initproc_func :: u32
  pageoutd_func :: u32
  faber_func :: u32
  sunghan_func :: u32
  deadlock_func :: u32
  vfstest_func :: u32
  pt_template_init :: "kstate \<Rightarrow> kstate"
  init_call_all :: "kstate \<Rightarrow> kstate res"
  final_shutdown :: "kstate \<Rightarrow> kstate res"
  kernel_execve :: "string \<Rightarrow> string list \<Rightarrow> string list \<Rightarrow> kstate \<Rightarrow> kstate res"
  S_IFCHR :: u32
  MEM_NULL_DEVID :: u32
  MEM_ZERO_DEVID :: u32
  MKDEVID :: "u32 \<Rightarrow> u32 \<Rightarrow> u32"

section \<open>The pageout daemon\<close>

text \<open>The result is the daemon's process and thread, which \<^verbatim>\<open>pframe.c\<close> keeps in two variables.\<close>

definition pageoutd_init ::
  "kconsts \<Rightarrow> kext \<Rightarrow> kenv \<Rightarrow> kboot \<Rightarrow> kstate \<Rightarrow> (ptr \<times> ptr \<times> kstate) res" where
  "pageoutd_init K X E B s =
     (let s0 = sched_queue_init Pageoutq s in
      case curproc s0 of
        None \<Rightarrow> Inl KASSERT_failed
      | Some c \<Rightarrow>
          bindE (deref (procs s0 c)) (\<lambda>cur.
            if p_pid cur \<noteq> PID_IDLE K then Inl KASSERT_failed
            else
              bindE (proc_create K X E ''pageoutd'' s0) (\<lambda>(pageoutd, s1).
              bindE (kthread_create K E (Some pageoutd) (pageoutd_func B) 0 0 s1) (\<lambda>(pageoutd_thr, s2).
              bindE (sched_make_runnable K pageoutd_thr s2) (\<lambda>s3.
                Inr (pageoutd, pageoutd_thr, s3))))))"

definition pageoutd_exit ::
  "nat \<Rightarrow> kconsts \<Rightarrow> kext \<Rightarrow> kenv \<Rightarrow> interrupt list \<Rightarrow> ptr option \<Rightarrow> kstate \<Rightarrow> kstate res" where
  "pageoutd_exit n K X E irqs pageoutd_thr s =
     (if pageoutd_thr = None then Inl KASSERT_failed else kthread_cancel n K X E irqs pageoutd_thr 0 s)"

fun free_all_loop :: "nat \<Rightarrow> kconsts \<Rightarrow> kext \<Rightarrow> ptr list \<Rightarrow> kstate \<Rightarrow> kstate res" where
  "free_all_loop n K X [] s = Inr s"
| "free_all_loop n K X (p # ps) s =
     bindE (deref (pframes s p)) (\<lambda>pf.
       if pf_dirty pf \<or> pf_busy pf \<or> pframe_is_pinned pf then Inl KASSERT_failed
       else bindE (pframe_free K X (mmobj_put n K X) p s) (free_all_loop n K X ps))"

definition shutdown_rest :: "nat \<Rightarrow> nat \<Rightarrow> kconsts \<Rightarrow> kext \<Rightarrow> int \<Rightarrow> int \<Rightarrow> kstate \<Rightarrow> kstate res" where
  "shutdown_rest g n K X pid child s =
     (if pid \<noteq> child then Inl KASSERT_failed
      else if npinned s \<noteq> 0 then Inl KASSERT_failed
      else bindE (pframe_clean_all g K X s) (\<lambda>s1. free_all_loop n K X (alloc_list s1) s1))"

definition pframe_shutdown ::
  "nat \<Rightarrow> nat \<Rightarrow> kconsts \<Rightarrow> kext \<Rightarrow> kenv \<Rightarrow> interrupt list \<Rightarrow> ptr \<Rightarrow> ptr option \<Rightarrow> kstate \<Rightarrow>
   (wait_result \<times> kstate) res" where
  "pframe_shutdown g n K X E irqs pageoutd pageoutd_thr s =
     bindE (cur_proc s) (\<lambda>(_, cur).
       if PID_IDLE K \<noteq> p_pid cur then Inl KASSERT_failed
       else
         bindE (pageoutd_exit n K X E irqs pageoutd_thr s) (\<lambda>s1.
         bindE (deref (procs s1 pageoutd)) (\<lambda>pd.
         bindE (do_waitpid K E irqs (- 1) 0 s1) (\<lambda>(w, s2).
           case w of
             Done child st \<Rightarrow> bindE (shutdown_rest g n K X (p_pid pd) child s2) (\<lambda>s3. Inr (Done 0 None, s3))
           | Slept c \<Rightarrow> Inr (Slept c, s2)))))"

section \<open>The idle process and init\<close>

definition bootstrap :: "kconsts \<Rightarrow> kext \<Rightarrow> kenv \<Rightarrow> kboot \<Rightarrow> kstate \<Rightarrow> kstate res" where
  "bootstrap K X E B s =
     bindE (proc_create K X E ''idle_proc'' (pt_template_init B s)) (\<lambda>(p, s1).
       let s2 = s1\<lparr>curproc := Some p\<rparr> in
       bindE (deref (procs s2 p)) (\<lambda>pr.
         if PID_IDLE K \<noteq> p_pid pr then Inl KASSERT_failed
         else
           bindE (kthread_create K E (Some p) (idleproc_func B) 0 0 s2) (\<lambda>(t, s3).
             Inr (s3\<lparr>curthr := Some t\<rparr>))))"

definition initproc_create :: "kconsts \<Rightarrow> kext \<Rightarrow> kenv \<Rightarrow> kboot \<Rightarrow> kstate \<Rightarrow> (ptr \<times> kstate) res" where
  "initproc_create K X E B s =
     bindE (proc_create K X E ''init'' s) (\<lambda>(p, s1).
     bindE (deref (procs s1 p)) (\<lambda>pr.
       if PID_INIT K \<noteq> p_pid pr then Inl KASSERT_failed
       else kthread_create K E (Some p) (initproc_func B) 0 0 s1))"

definition set_root_cwd :: "kenv \<Rightarrow> ptr \<Rightarrow> kstate \<Rightarrow> kstate res" where
  "set_root_cwd E p s =
     (let s1 = upd_proc p (\<lambda>x. x\<lparr>p_cwd := vfs_root_vn s\<rparr>) s
      in bindE (deref (vfs_root_vn s1)) (\<lambda>root. vref E root s1))"

text \<open>Making the device nodes; the results of the four calls are not looked at.\<close>

definition make_devices :: "kconsts \<Rightarrow> kenv \<Rightarrow> kboot \<Rightarrow> kstate \<Rightarrow> kstate res" where
  "make_devices K E B s =
     bindE (do_mkdir K E ''/dev'' s) (\<lambda>(_, s1).
     bindE (do_mknod K E ''/dev/null'' (S_IFCHR B) (MEM_NULL_DEVID B) s1) (\<lambda>(_, s2).
     bindE (do_mknod K E ''/dev/zero'' (S_IFCHR B) (MEM_ZERO_DEVID B) s2) (\<lambda>(_, s3).
     bindE (do_mknod K E ''/dev/tty0'' (S_IFCHR B) (MKDEVID B 2 0) s3) (\<lambda>(_, s4). Inr s4))))"

definition idleproc_finish :: "kconsts \<Rightarrow> kboot \<Rightarrow> wait_result \<times> kstate \<Rightarrow> (wait_result \<times> kstate) res" where
  "idleproc_finish K B r =
     (case r of
        (Slept c, s) \<Rightarrow> Inr (Slept c, s)
      | (Done child st, s) \<Rightarrow>
          if PID_INIT K \<noteq> child then Inl KASSERT_failed
          else bindE (final_shutdown B s) (\<lambda>s1. Inr (Done child st, s1)))"

definition idleproc_run ::
  "kconsts \<Rightarrow> kext \<Rightarrow> kenv \<Rightarrow> kboot \<Rightarrow> interrupt list \<Rightarrow> kstate \<Rightarrow> (wait_result \<times> kstate) res" where
  "idleproc_run K X E B irqs s =
     bindE (initproc_create K X E B s) (\<lambda>(initthr, s1).
     bindE (init_call_all B s1) (\<lambda>s2.
     bindE (cur_proc s2) (\<lambda>(idle, _).
     bindE (set_root_cwd E idle s2) (\<lambda>s3.
     bindE (deref (threads s3 initthr)) (\<lambda>thr.
     bindE (deref (kt_proc thr)) (\<lambda>ini.
     bindE (set_root_cwd E ini s3) (\<lambda>s4.
     bindE (make_devices K E B s4) (\<lambda>s5.
     bindE (sched_make_runnable K initthr (intr_enable s5)) (\<lambda>s6.
     bindE (do_waitpid K E irqs (- 1) 0 s6) (idleproc_finish K B))))))))))"

definition initproc_run :: "kboot \<Rightarrow> kstate \<Rightarrow> kstate res" where
  "initproc_run B s = kernel_execve B ''/sbin/init'' [''/sbin/init''] [] s"

section \<open>Test commands\<close>

text \<open>
  The commands of the kernel shell that run a test in a process of its own and
  wait for it; \<open>None\<close> stands for a null shell.
\<close>

definition run_thread ::
  "kconsts \<Rightarrow> kenv \<Rightarrow> interrupt list \<Rightarrow> ptr \<Rightarrow> u32 \<Rightarrow> int \<Rightarrow> kstate \<Rightarrow> (wait_result \<times> kstate) res" where
  "run_thread K E irqs p func arg1 s =
     bindE (kthread_create K E (Some p) func arg1 0 s) (\<lambda>(t, s1).
     bindE (sched_make_runnable K t s1) (\<lambda>s2.
     bindE (deref (procs s2 p)) (\<lambda>pr. do_waitpid K E irqs (p_pid pr) 0 s2)))"

definition run_test ::
  "kconsts \<Rightarrow> kext \<Rightarrow> kenv \<Rightarrow> interrupt list \<Rightarrow> string \<Rightarrow> u32 \<Rightarrow> ptr option \<Rightarrow> kstate \<Rightarrow>
   (wait_result \<times> kstate) res" where
  "run_test K X E irqs name func kshell s =
     (if kshell = None then Inl KASSERT_failed
      else bindE (proc_create K X E name s) (\<lambda>(p, s1). run_thread K E irqs p func 0 s1))"

definition do_faber_test where
  "do_faber_test K X E B irqs = run_test K X E irqs ''FABER'' (faber_func B)"

definition do_sunghan_test where
  "do_sunghan_test K X E B irqs = run_test K X E irqs ''SUNGHAN'' (sunghan_func B)"

definition do_deadlock_test where
  "do_deadlock_test K X E B irqs = run_test K X E irqs ''SUNGHAN'' (deadlock_func B)"

text \<open>
  \<^verbatim>\<open>do_vfs_test\<close> also gives the new process the current directory.  After the
  wait it reads the freed process for its last \<^verbatim>\<open>vput\<close>.
\<close>

definition do_vfs_test ::
  "kconsts \<Rightarrow> kext \<Rightarrow> kenv \<Rightarrow> kboot \<Rightarrow> interrupt list \<Rightarrow> ptr option \<Rightarrow> kstate \<Rightarrow>
   (wait_result \<times> kstate) res" where
  "do_vfs_test K X E B irqs kshell s =
     (if kshell = None then Inl KASSERT_failed
      else
        bindE (proc_create K X E ''VFSTEST'' s) (\<lambda>(p, s1).
        bindE (cur_proc s1) (\<lambda>(_, cur).
        bindE (deref (p_cwd cur)) (\<lambda>v.
        bindE (vref E v (upd_proc p (\<lambda>x. x\<lparr>p_cwd := Some v\<rparr>) s1)) (\<lambda>s2.
        bindE (run_thread K E irqs p (vfstest_func B) 1 s2) (\<lambda>(w, s3).
          case w of
            Slept c \<Rightarrow> Inr (Slept c, s3)
          | Done r st \<Rightarrow>
              bindE (deref (procs s3 p)) (\<lambda>pr.
              bindE (deref (p_cwd pr)) (\<lambda>v'. bindE (vput E v' s3) (\<lambda>s4. Inr (Done r st, s4))))))))))"

end
