(* ===== verification/Options.thy ===== *)
theory Options
  imports Kmain
begin

text \<open>
  Initialisation, and what is compiled only with one of the options
  \<^verbatim>\<open>__MOUNTING__\<close>, \<^verbatim>\<open>__GETCWD__\<close> and \<^verbatim>\<open>__MTP__\<close>.
\<close>

section \<open>Initialisation\<close>

text \<open>
  The allocators themselves are the fields \<open>proc_slab\<close>, \<open>kthread_slab\<close> and so on
  of the other parameters; \<open>slab_create\<close> tells whether making one
  succeeds.  \<open>register\<close> enters a handler for an interrupt.
  \<open>not_yet\<close> is what the macro \<^verbatim>\<open>NOT_YET_IMPLEMENTED\<close> does.
\<close>

record kopt =
  slab_create :: "string \<Rightarrow> kstate \<Rightarrow> bool"
  intr_register :: "kstate \<Rightarrow> kstate"
  not_yet :: "string \<Rightarrow> kstate \<Rightarrow> kstate res"
  sizeof_mount_args :: u32
  mount_args :: "buffer \<Rightarrow> argstr \<times> argstr \<times> argstr"

definition need_slab :: "kopt \<Rightarrow> string \<Rightarrow> kstate \<Rightarrow> kstate res" where
  "need_slab P name s = (if slab_create P name s then Inr s else Inl KASSERT_failed)"

definition sched_init :: "kstate \<Rightarrow> kstate" where
  "sched_init s = sched_queue_init Runq s"

definition kthread_init :: "kopt \<Rightarrow> kstate \<Rightarrow> kstate res" where
  "kthread_init P s = need_slab P ''kthread'' s"

definition proc_init :: "kopt \<Rightarrow> kstate \<Rightarrow> kstate res" where
  "proc_init P s = need_slab P ''proc'' (s\<lparr>proc_list := []\<rparr>)"

definition anon_init :: "kopt \<Rightarrow> kstate \<Rightarrow> kstate res" where
  "anon_init P s = need_slab P ''anon'' s"

definition shadow_init :: "kopt \<Rightarrow> kstate \<Rightarrow> kstate res" where
  "shadow_init P s = need_slab P ''shadow'' s"

definition vmmap_init :: "kopt \<Rightarrow> kstate \<Rightarrow> kstate res" where
  "vmmap_init P s = bindE (need_slab P ''vmmap'' s) (need_slab P ''vmarea'')"

definition syscall_init :: "kopt \<Rightarrow> kstate \<Rightarrow> kstate" where
  "syscall_init P s = intr_register P s"

section \<open>Mounting\<close>

definition do_mount :: "kconsts \<Rightarrow> kopt \<Rightarrow> string option \<Rightarrow> string \<Rightarrow> string \<Rightarrow> kstate \<Rightarrow> (int \<times> kstate) res" where
  "do_mount K P source tgt ty s = bindE (not_yet P ''MOUNTING: do_mount'' s) (\<lambda>s1. Inr (- errno K EINVAL, s1))"

definition do_umount :: "kconsts \<Rightarrow> kopt \<Rightarrow> string \<Rightarrow> kstate \<Rightarrow> (int \<times> kstate) res" where
  "do_umount K P tgt s = bindE (not_yet P ''MOUNTING: do_umount'' s) (\<lambda>s1. Inr (- errno K EINVAL, s1))"

text \<open>Here every result but zero is an error.\<close>

definition zero_result :: "int \<times> kstate \<Rightarrow> (int \<times> kstate) res" where
  "zero_result r = (case r of (ret, s) \<Rightarrow> if ret \<noteq> 0 then sys_fail (- ret) s else Inr (0, s))"

definition sys_mount ::
  "nat \<Rightarrow> kconsts \<Rightarrow> kext \<Rightarrow> kenv \<Rightarrow> kabi \<Rightarrow> kopt \<Rightarrow> u32 \<Rightarrow> kstate \<Rightarrow> (int \<times> kstate) res" where
  "sys_mount n K X E A P arg s =
     bindE (copy_from_user n K X (stale A) arg (sizeof_mount_args P) s) (\<lambda>(err, kern_args, s1).
       if err < 0 then sys_fail (errno K EFAULT) s1
       else
         let (spec, dir, fstype) = mount_args P kern_args in
         bindE (user_strdup n K X E A spec s1) (\<lambda>(source, s2).
         with_str n K X E A dir (\<lambda>tgt.
         with_str n K X E A fstype (\<lambda>ty s3.
           bindE (do_mount K P source tgt ty s3) zero_result)) s2))"

definition sys_umount ::
  "nat \<Rightarrow> kconsts \<Rightarrow> kext \<Rightarrow> kenv \<Rightarrow> kabi \<Rightarrow> kopt \<Rightarrow> u32 \<Rightarrow> kstate \<Rightarrow> (int \<times> kstate) res" where
  "sys_umount n K X E A P arg s =
     bindE (copy_args n K X A Argstr_args arg s) (\<lambda>(err, kstr, s1).
       if err < 0 then sys_fail (errno K EFAULT) s1
       else with_str n K X E A (argstr_at A kstr 0) (\<lambda>tgt s2. bindE (do_umount K P tgt s2) zero_result) s1)"

section \<open>Names of directories\<close>

definition lookup_name :: "kconsts \<Rightarrow> kopt \<Rightarrow> ptr \<Rightarrow> ptr \<Rightarrow> kstate \<Rightarrow> (int \<times> kstate) res" where
  "lookup_name K P dir ent s = bindE (not_yet P ''GETCWD: lookup_name'' s) (\<lambda>s1. Inr (- errno K ENOENT, s1))"

definition lookup_dirpath :: "kconsts \<Rightarrow> kopt \<Rightarrow> ptr \<Rightarrow> kstate \<Rightarrow> (int \<times> kstate) res" where
  "lookup_dirpath K P dir s = bindE (not_yet P ''GETCWD: lookup_dirpath'' s) (\<lambda>s1. Inr (- errno K ENOENT, s1))"

section \<open>Several threads per process\<close>

definition kthread_detach :: "kopt \<Rightarrow> ptr \<Rightarrow> kstate \<Rightarrow> (int \<times> kstate) res" where
  "kthread_detach P kthr s = bindE (not_yet P ''MTP: kthread_detach'' s) (\<lambda>s1. Inr (0, s1))"

definition kthread_join :: "kopt \<Rightarrow> ptr \<Rightarrow> kstate \<Rightarrow> (int \<times> kstate) res" where
  "kthread_join P kthr s = bindE (not_yet P ''MTP: kthread_join'' s) (\<lambda>s1. Inr (0, s1))"

definition kthread_reapd_init :: "kopt \<Rightarrow> kstate \<Rightarrow> kstate res" where
  "kthread_reapd_init P s = not_yet P ''MTP: kthread_reapd_init'' s"

definition kthread_reapd_shutdown :: "kopt \<Rightarrow> kstate \<Rightarrow> kstate res" where
  "kthread_reapd_shutdown P s = not_yet P ''MTP: kthread_reapd_shutdown'' s"

definition kthread_reapd_run :: "kopt \<Rightarrow> kstate \<Rightarrow> (int \<times> kstate) res" where
  "kthread_reapd_run P s = bindE (not_yet P ''MTP: kthread_reapd_run'' s) (\<lambda>s1. Inr (0, s1))"

end
