(* ===== verification/Info.thy ===== *)
theory Info
  imports Proc
begin

text \<open>
  The reports for the debugger: \<^verbatim>\<open>proc_info\<close> and \<^verbatim>\<open>proc_list_info\<close> of
  \<^verbatim>\<open>kernel/proc/proc.c\<close> and \<^verbatim>\<open>vmmap_mapping_info\<close> of
  \<^verbatim>\<open>kernel/vm/vmmap.c\<close>.
\<close>

unbundle bit_operations_syntax

section \<open>Printing\<close>

text \<open>
  The formatted text of a line is a list of characters.  How the kernel's own
  \<^verbatim>\<open>printf\<close> family renders pointers and numbers in padded fields is a parameter, and
  so are the codes of the process states;
  \<open>iprintf\<close> takes the text, what has been printed and the room that is left,
  and returns the latter two.
\<close>

type_synonym outbuf = "string \<times> u32"

record kfmt =
  fmt_p :: "u32 \<Rightarrow> string"
  fmt_x8 :: "u32 \<Rightarrow> string"
  fmt_x5 :: "u32 \<Rightarrow> string"
  fmt_obj :: "ptr option \<Rightarrow> string"
  fmt_i3 :: "int \<Rightarrow> string"
  state_code :: "proc_state \<Rightarrow> int"
  page_shift :: nat
  iprintf :: "string \<Rightarrow> outbuf \<Rightarrow> outbuf"

text \<open>The conversions \<^verbatim>\<open>%i\<close>, \<^verbatim>\<open>%21s\<close> (on the right) and \<^verbatim>\<open>%-13s\<close> (on the left).\<close>

fun digits :: "nat \<Rightarrow> string" where
  "digits n = (if n < 10 then [char_of (48 + n)] else digits (n div 10) @ [char_of (48 + n mod 10)])"

declare digits.simps [simp del]

definition fmt_i :: "int \<Rightarrow> string" where
  "fmt_i i = (if i < 0 then CHR ''-'' # digits (nat (- i)) else digits (nat i))"

definition pad_left :: "nat \<Rightarrow> string \<Rightarrow> string" where
  "pad_left n str = replicate (n - length str) CHR '' '' @ str"

definition pad_right :: "nat \<Rightarrow> string \<Rightarrow> string" where
  "pad_right n str = str @ replicate (n - length str) CHR '' ''"

abbreviation newline :: string where
  "newline \<equiv> [char_of (10 :: nat)]"

text \<open>
  \<^verbatim>\<open>snprintf\<close> writes at most \<open>room\<close> characters at offset
  \<open>at\<close>, the last of them a null character, and returns the length of the
  whole text.
\<close>

definition snprintf :: "string \<Rightarrow> nat \<Rightarrow> u32 \<Rightarrow> (nat \<Rightarrow> char) \<Rightarrow> int \<times> (nat \<Rightarrow> char)" where
  "snprintf txt at room buf =
     (let k = min (length txt) (unat room - 1) in
      (int (length txt),
       if room = 0 then buf
       else (\<lambda>i. if at \<le> i \<and> i < at + k then txt ! (i - at) else if i = at + k then CHR 0x00 else buf i)))"

section \<open>Processes\<close>

text \<open>The lines of \<^verbatim>\<open>proc_info\<close> for the configuration with virtual memory.\<close>

fun child_lines :: "kfmt \<Rightarrow> ptr list \<Rightarrow> kstate \<Rightarrow> outbuf \<Rightarrow> outbuf res" where
  "child_lines F [] s b = Inr b"
| "child_lines F (c # cs) s b =
     bindE (deref (procs s c)) (\<lambda>child.
       child_lines F cs s (iprintf F (''     '' @ fmt_i (p_pid child) @ '' ('' @ p_comm child @ '')'' @ newline) b))"

definition proc_info :: "kfmt \<Rightarrow> ptr option \<Rightarrow> string \<Rightarrow> u32 \<Rightarrow> kstate \<Rightarrow> (u32 \<times> string) res" where
  "proc_info F arg buf osize s =
     (case arg of
        None \<Rightarrow> Inl KASSERT_failed
      | Some a \<Rightarrow>
          bindE (deref (procs s a)) (\<lambda>p.
            let b1 = iprintf F (''pid:          '' @ fmt_i (p_pid p) @ newline) (buf, osize);
                b2 = iprintf F (''name:         '' @ p_comm p @ newline) b1
            in bindE (case p_pproc p of
                        Some pp \<Rightarrow> bindE (deref (procs s pp)) (\<lambda>parent.
                          Inr (iprintf F (''parent:       '' @ fmt_i (p_pid parent) @ '' ('' @ p_comm parent @ '')'' @ newline) b2))
                      | None \<Rightarrow> Inr (iprintf F (''parent:       -'' @ newline) b2)) (\<lambda>b3.
               let b4 = (if p_children p = [] then iprintf F (''children:     -'' @ newline) b3
                         else iprintf F (''children:'' @ newline) b3)
               in bindE (child_lines F (p_children p) s b4) (\<lambda>b5.
                  let b6 = iprintf F (''status:       '' @ fmt_i (p_status p) @ newline) b5;
                      b7 = iprintf F (''state:        '' @ fmt_i (state_code F (p_state p)) @ newline) b6;
                      b8 = iprintf F (''start brk:    0x'' @ fmt_p F (p_start_brk p) @ newline) b7;
                      (out, room) = iprintf F (''brk:          0x'' @ fmt_p F (p_brk p) @ newline) b8
                  in Inr (room, out)))))"

fun list_lines :: "kfmt \<Rightarrow> ptr list \<Rightarrow> kstate \<Rightarrow> outbuf \<Rightarrow> outbuf res" where
  "list_lines F [] s b = Inr b"
| "list_lines F (q # qs) s b =
     bindE (deref (procs s q)) (\<lambda>p.
     bindE (case p_pproc p of
              Some pp \<Rightarrow> bindE (deref (procs s pp)) (\<lambda>parent.
                Inr (take 63 (fmt_i3 F (p_pid parent) @ '' ('' @ p_comm parent @ '')'')))
            | None \<Rightarrow> Inr ''  -'') (\<lambda>parent.
       list_lines F qs s (iprintf F ('' '' @ fmt_i3 F (p_pid p) @ ''  '' @ pad_right 13 (p_comm p) @ '' '' @ parent @ newline) b)))"

definition proc_list_info :: "kfmt \<Rightarrow> ptr option \<Rightarrow> string \<Rightarrow> u32 \<Rightarrow> kstate \<Rightarrow> (u32 \<times> string) res" where
  "proc_list_info F arg buf osize s =
     (if arg \<noteq> None then Inl KASSERT_failed
      else
        bindE (list_lines F (proc_list s) s
                 (iprintf F (pad_left 5 ''PID'' @ '' '' @ pad_right 13 ''NAME'' @ '' '' @ ''PARENT'' @ newline) (buf, osize)))
          (\<lambda>(out, room). Inr (room, out)))"

section \<open>Address spaces\<close>

definition area_line :: "kconsts \<Rightarrow> kfmt \<Rightarrow> vmarea \<Rightarrow> string" where
  "area_line K F v =
     fmt_x8 F (push_bit (page_shift F) (vma_start v)) @ ''-'' @ fmt_x8 F (push_bit (page_shift F) (vma_end v)) @ ''  '' @
     [if vma_prot v AND PROT_READ K \<noteq> 0 then CHR ''r'' else CHR ''-'',
      if vma_prot v AND PROT_WRITE K \<noteq> 0 then CHR ''w'' else CHR ''-'',
      if vma_prot v AND PROT_EXEC K \<noteq> 0 then CHR ''x'' else CHR ''-''] @ ''  '' @
     pad_left 7 (if vma_flags v AND MAP_SHARED K \<noteq> 0 then '' SHARED'' else ''PRIVATE'') @
     '' 0x'' @ fmt_obj F (vma_obj v) @ '' '' @ fmt_x5 F (vma_off v) @ '' '' @
     fmt_x5 F (vma_start v) @ ''-'' @ fmt_x5 F (vma_end v) @ newline"

definition info_head :: string where
  "info_head = pad_left 21 ''VADDR RANGE'' @ '' '' @ pad_left 5 ''PROT'' @ '' '' @ pad_left 7 ''FLAGS'' @ '' '' @
     pad_left 8 ''MMOBJ'' @ '' '' @ pad_left 10 ''OFFSET'' @ '' '' @ pad_left 12 ''VFN RANGE'' @ newline"

text \<open>
  The loop over the areas: \<open>room\<close> is the signed \<^verbatim>\<open>size\<close>,
  \<open>len\<close> the length of the text printed last and \<open>at\<close> the place
  of the pointer.
\<close>

fun mapping_loop ::
  "kconsts \<Rightarrow> kfmt \<Rightarrow> ptr list \<Rightarrow> kstate \<Rightarrow> int \<Rightarrow> int \<Rightarrow> nat \<Rightarrow> (nat \<Rightarrow> char) \<Rightarrow> (int \<times> nat \<times> (nat \<Rightarrow> char)) res" where
  "mapping_loop K F [] s room len at buf = Inr (room, at, buf)"
| "mapping_loop K F (v # vs) s room len at buf =
     bindE (deref (vmareas s v)) (\<lambda>vma.
       let room1 = int32 (room - len); at1 = at + nat len in
       if room1 \<le> 0 then Inr (room1, at1, buf)
       else
         let (len1, buf1) = snprintf (area_line K F vma) at1 (word_of_int room1) buf
         in mapping_loop K F vs s room1 len1 at1 buf1)"

text \<open>The null character at the end is written relative to the pointer that the loop has moved.\<close>

definition vmmap_mapping_info ::
  "kconsts \<Rightarrow> kfmt \<Rightarrow> ptr option \<Rightarrow> (nat \<Rightarrow> char) \<Rightarrow> u32 \<Rightarrow> kstate \<Rightarrow> (u32 \<times> (nat \<Rightarrow> char)) res" where
  "vmmap_mapping_info K F vmmap buf osize s =
     (if \<not> 0 < osize then Inl KASSERT_failed
      else
        case vmmap of
          None \<Rightarrow> Inl KASSERT_failed
        | Some m \<Rightarrow>
            bindE (deref (vmmaps s m)) (\<lambda>map.
              let (len, buf1) = snprintf info_head 0 osize buf in
              bindE (mapping_loop K F (vmm_list map) s (sint osize) len 0 buf1) (\<lambda>(room, at, buf2).
                if room \<le> 0 then Inr (0, buf2(at + (unat osize - 1) := CHR 0x00))
                else Inr (osize - word_of_int room, buf2))))"

section \<open>The report of an address space stays inside its buffer\<close>

definition printed :: "(nat \<Rightarrow> char) \<Rightarrow> string \<Rightarrow> bool" where
  "printed buf txt \<longleftrightarrow> (\<forall>i<length txt. buf i = txt ! i) \<and> buf (length txt) = CHR 0x00"

text \<open>
  All writes lie below \<open>lim\<close>, and there is a null character below it.
\<close>

definition inside :: "nat \<Rightarrow> (nat \<Rightarrow> char) \<Rightarrow> (nat \<Rightarrow> char) \<Rightarrow> bool" where
  "inside lim buf buf' \<longleftrightarrow> (\<forall>i\<ge>lim. buf' i = buf i) \<and> (\<exists>i<lim. buf' i = CHR 0x00)"

lemma unat_word_of_int: "0 \<le> k \<Longrightarrow> k < 2 ^ 31 \<Longrightarrow> unat (word_of_int k :: u32) = nat k"
  by (simp add: unsigned_of_int take_bit_int_eq_self)

lemma snprintf_inside:
  assumes "snprintf txt at room buf = (len, buf')" "0 < unat room" "at + unat room \<le> lim" "\<forall>i\<ge>lim. buf i = buf0 i"
  shows "inside lim buf0 buf'" "len = int (length txt)"
proof -
  let ?k = "min (length txt) (unat room - 1)"
  have "room \<noteq> 0" using assms(2) by auto
  then have b: "len = int (length txt)" "buf' = (\<lambda>i. if at \<le> i \<and> i < at + ?k then txt ! (i - at) else if i = at + ?k then CHR 0x00 else buf i)"
    using assms(1) by (auto simp: snprintf_def Let_def)
  have "at + ?k < lim" using assms(2,3) by linarith
  then show "inside lim buf0 buf'" using assms(4) unfolding inside_def b(2) by (intro conjI allI impI exI [of _ "at + ?k"]) auto
  show "len = int (length txt)" by (rule b(1))
qed

lemma snprintf_printed:
  assumes "snprintf txt (length old) room buf = (len, buf')" "length txt < unat room" "\<forall>i<length old. buf i = old ! i"
  shows "printed buf' (old @ txt)"
proof -
  have r: "room \<noteq> 0" "min (length txt) (unat room - 1) = length txt" using assms(2) by auto
  have "buf' = (\<lambda>i. if length old \<le> i \<and> i < length old + length txt then txt ! (i - length old)
      else if i = length old + length txt then CHR 0x00 else buf i)"
    using assms(1) r by (auto simp: snprintf_def Let_def)
  then show ?thesis using assms(3) by (auto simp: printed_def nth_append)
qed

abbreviation lines_of :: "kconsts \<Rightarrow> kfmt \<Rightarrow> kstate \<Rightarrow> ptr list \<Rightarrow> string" where
  "lines_of K F s vs \<equiv> concat (map (\<lambda>v. area_line K F (area s v)) vs)"

text \<open>One round of the loop that finds room.\<close>

lemma mapping_loop_step:
  assumes "vmareas s v = Some a" "0 < room - len" "room < 2 ^ 31" "0 \<le> len"
    and "snprintf (area_line K F a) (at + nat len) (word_of_int (room - len)) buf = (len1, buf1)"
  shows "mapping_loop K F (v # vs) s room len at buf = mapping_loop K F vs s (room - len) len1 (at + nat len) buf1"
    "unat (word_of_int (room - len) :: u32) = nat (room - len)"
proof -
  have "int32 (room - len) = room - len" using assms(2-4) by (simp add: int32_eq signed_take_bit_int_eq_self)
  with assms show "mapping_loop K F (v # vs) s room len at buf = mapping_loop K F vs s (room - len) len1 (at + nat len) buf1"
    by (simp add: Let_def)
  show "unat (word_of_int (room - len) :: u32) = nat (room - len)" using assms(2-4) by (intro unat_word_of_int) linarith+
qed

lemma mapping_loop_inside:
  "\<forall>v\<in>set vs. vmareas s v \<noteq> None \<Longrightarrow> int at + room = int lim \<Longrightarrow> 0 < room \<Longrightarrow> room < 2 ^ 31 \<Longrightarrow> 0 \<le> len \<Longrightarrow>
    (vs \<noteq> [] \<longrightarrow> int at + len + int (length (lines_of K F s (butlast vs))) < int lim) \<Longrightarrow> inside lim buf0 buf \<Longrightarrow>
    \<exists>at' buf'. mapping_loop K F vs s room len at buf =
        Inr (if vs = [] then room else int lim - (int at + len + int (length (lines_of K F s (butlast vs)))), at', buf') \<and> inside lim buf0 buf'"
proof (induction vs arbitrary: room len at buf)
  case (Cons v vs)
  have v: "vmareas s v = Some (area s v)" using Cons.prems(1) by (auto simp: area_def)
  let ?txt = "area_line K F (area s v)"
  obtain len1 buf1 where p: "snprintf ?txt (at + nat len) (word_of_int (room - len)) buf = (len1, buf1)" by fastforce
  have pos: "0 < room - len" using Cons.prems(2,6) by simp
  note st = mapping_loop_step [OF v pos Cons.prems(4,5) p]
  have "0 < unat (word_of_int (room - len) :: u32)" "at + nat len + unat (word_of_int (room - len) :: u32) \<le> lim"
    using st(2) pos Cons.prems(2,5) by linarith+
  note b = snprintf_inside [OF p this, of buf0]
  have in1: "inside lim buf0 buf1" "len1 = int (length ?txt)" using b Cons.prems(7) by (simp_all add: inside_def)
  have "\<exists>at' buf'. mapping_loop K F vs s (room - len) len1 (at + nat len) buf1 =
      Inr (if vs = [] then room - len else int lim - (int (at + nat len) + len1 + int (length (lines_of K F s (butlast vs)))), at', buf') \<and>
      inside lim buf0 buf'"
    by (rule Cons.IH [OF _ _ pos _ _ _ in1(1)]) (use Cons.prems in1(2) in \<open>auto split: if_splits\<close>)
  then show ?case unfolding st(1) using Cons.prems(2,5) in1(2) by (cases "vs = []") (auto simp: algebra_simps)
qed simp

lemma mapping_loop_printed:
  "\<forall>v\<in>set vs. vmareas s v \<noteq> None \<Longrightarrow> int at + room = int lim \<Longrightarrow> room < 2 ^ 31 \<Longrightarrow> 0 \<le> len \<Longrightarrow> int at + len = int (length old) \<Longrightarrow>
    printed buf old \<Longrightarrow> length (old @ lines_of K F s vs) < lim \<Longrightarrow>
    \<exists>room' at' buf'. mapping_loop K F vs s room len at buf = Inr (room', at', buf') \<and> printed buf' (old @ lines_of K F s vs)"
proof (induction vs arbitrary: room len at buf old)
  case (Cons v vs)
  have v: "vmareas s v = Some (area s v)" using Cons.prems(1) by (auto simp: area_def)
  let ?txt = "area_line K F (area s v)"
  obtain len1 buf1 where p: "snprintf ?txt (at + nat len) (word_of_int (room - len)) buf = (len1, buf1)" by fastforce
  have fit: "int (length old) + int (length ?txt) + int (length (lines_of K F s vs)) < int lim" using Cons.prems(7) by simp
  then have pos: "0 < room - len" using Cons.prems(2,5) by linarith
  note st = mapping_loop_step [OF v pos Cons.prems(3,4) p]
  have at: "at + nat len = length old" using Cons.prems(4,5) by linarith
  have l1: "len1 = int (length ?txt)" using p by (simp add: snprintf_def Let_def)
  have "length ?txt < unat (word_of_int (room - len) :: u32)" using st(2) fit Cons.prems(2,5) by linarith
  moreover have "\<forall>i<length old. buf i = old ! i" using Cons.prems(6) by (simp add: printed_def)
  ultimately have b: "printed buf1 (old @ ?txt)" by (rule snprintf_printed [OF p [unfolded at]])
  have "\<exists>room' at' buf'. mapping_loop K F vs s (room - len) len1 (at + nat len) buf1 = Inr (room', at', buf') \<and>
      printed buf' ((old @ ?txt) @ lines_of K F s vs)"
    by (rule Cons.IH [OF _ _ _ _ _ b]) (use Cons.prems l1 fit at in auto)
  then show ?case unfolding st(1) by simp
qed simp


lemma mapping_loop_overruns:
  "\<forall>v\<in>set vs. vmareas s v \<noteq> None \<Longrightarrow> \<forall>v\<in>set vs. length (area_line K F (area s v)) < 2 ^ 31 \<Longrightarrow>
    int at + room = int lim \<Longrightarrow> 0 < room \<Longrightarrow> room < 2 ^ 31 \<Longrightarrow> 0 \<le> len \<Longrightarrow> len < 2 ^ 31 \<Longrightarrow>
    vs \<noteq> [] \<Longrightarrow> int lim \<le> int at + len + int (length (lines_of K F s (butlast vs))) \<Longrightarrow>
    \<exists>room' at' buf'. mapping_loop K F vs s room len at buf = Inr (room', at', buf') \<and> room' \<le> 0 \<and> lim \<le> at'"
proof (induction vs arbitrary: room len at buf)
  case (Cons v vs)
  have v: "vmareas s v = Some (area s v)" using Cons.prems(1) by (auto simp: area_def)
  show ?case
  proof (cases "room - len \<le> 0")
    case True
    have "int32 (room - len) = room - len" using Cons.prems(4-7) by (simp add: int32_eq signed_take_bit_int_eq_self)
    moreover have "lim \<le> at + nat len" using True Cons.prems(3,6) by linarith
    ultimately show ?thesis using v True by (simp add: Let_def)
  next
    case False
    obtain len1 buf1 where p: "snprintf (area_line K F (area s v)) (at + nat len) (word_of_int (room - len)) buf = (len1, buf1)" by fastforce
    have pos: "0 < room - len" using False by simp
    note st = mapping_loop_step [OF v pos Cons.prems(5,6) p]
    have l1: "len1 = int (length (area_line K F (area s v)))" using p by (simp add: snprintf_def Let_def)
    have ne: "vs \<noteq> []" using Cons.prems(3,9) pos by auto
    have "\<exists>room' at' buf'. mapping_loop K F vs s (room - len) len1 (at + nat len) buf1 = Inr (room', at', buf') \<and> room' \<le> 0 \<and> lim \<le> at'"
      by (rule Cons.IH [OF _ _ _ pos _ _ _ ne]) (use Cons.prems l1 ne in auto)
    then show ?thesis unfolding st(1) .
  qed
qed simp

definition info_text :: "kconsts \<Rightarrow> kfmt \<Rightarrow> vmarea list \<Rightarrow> string" where
  "info_text K F as = info_head @ concat (map (area_line K F) as)"

lemma info_head_length: "length info_head = 69"
  by (simp add: info_head_def pad_left_def)

lemma unat_minus_rest:
  assumes "unat (w :: u32) = L" "p < L" "L < 2 ^ 31"
  shows "unat (w - word_of_int (int L - int p)) = p"
proof -
  have "unat (word_of_int (int L - int p) :: u32) = L - p" using unat_word_of_int [of "int L - int p"] assms(2,3) by simp
  then show ?thesis using assms(1,2) by (simp add: unat_sub word_le_nat_alt)
qed

lemma info_text_lines:
  "info_text K F (areas s m) = info_head @ lines_of K F s (area_ptrs s m)"
  "info_text K F (butlast (areas s m)) = info_head @ lines_of K F s (butlast (area_ptrs s m))"
  by (simp_all add: info_text_def areas_def map_butlast o_def)

lemma mapping_info_start:
  assumes "space_ok K s m" "unat osize = L" "L < 2 ^ 31" "69 < L"
  shows "\<exists>buf1. vmmap_mapping_info K F (Some m) buf osize s =
      bindE (mapping_loop K F (area_ptrs s m) s (int L) 69 0 buf1) (\<lambda>(room, at, buf2).
        if room \<le> 0 then Inr (0, buf2(at + (L - 1) := CHR 0x00)) else Inr (osize - word_of_int room, buf2)) \<and>
    inside L buf buf1 \<and> printed buf1 info_head"
proof -
  obtain vm where vm: "vmmaps s m = Some vm" "vmm_list vm = area_ptrs s m" using space_okD(4) [OF assms(1)] by blast
  have si: "sint osize = int L" using sint_small [of osize] assms(2,3) by simp
  obtain l1 buf1 where p: "snprintf info_head 0 osize buf = (l1, buf1)" by fastforce
  then have "l1 = 69" using info_head_length by (simp add: snprintf_def Let_def)
  then have "vmmap_mapping_info K F (Some m) buf osize s =
      bindE (mapping_loop K F (area_ptrs s m) s (int L) 69 0 buf1) (\<lambda>(room, at, buf2).
        if room \<le> 0 then Inr (0, buf2(at + (L - 1) := CHR 0x00)) else Inr (osize - word_of_int room, buf2))"
    unfolding assms(2) [symmetric] using assms(2,4) vm p si by (simp add: vmmap_mapping_info_def word_less_nat_alt)
  moreover have "inside L buf buf1" by (rule snprintf_inside(1) [OF p]) (use assms in simp_all)
  moreover have "printed buf1 info_head"
    by (rule snprintf_printed [where old = "[]", simplified, OF p]) (use assms info_head_length in simp)
  ultimately show ?thesis by blast
qed

text \<open>C40: when the report on an address space stays inside the buffer it is given.  If the buffer is larger than
  the text without its last line, nothing is written behind its end, the text is terminated inside it, the
  result is the length of the text without the last line, and the buffer holds the heading and one line for
  each area in order if they all fit.  If it is not, the closing null character is written behind the end of
  the buffer.\<close>

theorem vmmap_mapping_info_bounds:
  assumes "space_ok K s m" and "unat osize < 2 ^ 31" and "69 < unat osize" and "areas s m \<noteq> []"
    and "\<forall>v\<in>set (areas s m). length (area_line K F v) < 2 ^ 31"
  shows "\<exists>r buf'. vmmap_mapping_info K F (Some m) buf osize s = Inr (r, buf') \<and>
    (if length (info_text K F (butlast (areas s m))) < unat osize
     then unat r = length (info_text K F (butlast (areas s m))) \<and> inside (unat osize) buf buf' \<and>
       (length (info_text K F (areas s m)) < unat osize \<longrightarrow> printed buf' (info_text K F (areas s m)))
     else r = 0 \<and> (\<exists>i\<ge>unat osize. buf' i = CHR 0x00))"
proof -
  let ?vs = "area_ptrs s m" and ?pre = "length (info_text K F (butlast (areas s m)))"
  obtain L where L: "unat osize = L" by blast
  note sz = assms(2,3) [unfolded L]
  have live: "\<forall>v\<in>set ?vs. vmareas s v \<noteq> None" using assms(1) by (simp add: space_ok_def)
  have short: "\<forall>v\<in>set ?vs. length (area_line K F (area s v)) < 2 ^ 31" using assms(5) by (simp add: areas_def)
  have ne: "?vs \<noteq> []" using assms(4) by (simp add: areas_def)
  have room: "int 0 + int L = int L" "0 < int L" "int L < 2 ^ 31" using sz by simp_all
  have pre: "int 0 + 69 + int (length (lines_of K F s (butlast ?vs))) = int ?pre" by (simp add: info_text_lines info_head_length)
  from mapping_info_start [OF assms(1) L sz] obtain buf1 where
    res: "vmmap_mapping_info K F (Some m) buf osize s =
      bindE (mapping_loop K F ?vs s (int L) 69 0 buf1) (\<lambda>(room, at, buf2).
        if room \<le> 0 then Inr (0, buf2(at + (L - 1) := CHR 0x00)) else Inr (osize - word_of_int room, buf2))"
    and b1: "inside L buf buf1" "printed buf1 info_head" by blast
  show ?thesis
  proof (cases "?pre < L")
    case True
    obtain at' buf' where ml: "mapping_loop K F ?vs s (int L) 69 0 buf1 = Inr (int L - int ?pre, at', buf')" "inside L buf buf'"
      using mapping_loop_inside [OF live room _ _ b1(1), of 69 K F] True ne pre by auto
    have "unat (osize - word_of_int (int L - int ?pre)) = ?pre" by (rule unat_minus_rest [OF L True sz(1)])
    moreover have "printed buf' (info_text K F (areas s m))" if "length (info_text K F (areas s m)) < L"
      using mapping_loop_printed [OF live room(1,3) _ _ b1(2), of 69 K F] that ml(1) by (auto simp: info_text_lines info_head_length)
    moreover have "\<not> int L - int ?pre \<le> 0" using True by simp
    ultimately show ?thesis using res ml True L by simp
  next
    case False
    then obtain room' at' buf2 where ml: "mapping_loop K F ?vs s (int L) 69 0 buf1 = Inr (room', at', buf2)" "room' \<le> 0" "L \<le> at'"
      using mapping_loop_overruns [OF live short room _ _ ne, of 69 buf1] pre by auto
    then have "L \<le> at' + (L - 1)" "(buf2(at' + (L - 1) := CHR 0x00)) (at' + (L - 1)) = CHR 0x00" by simp_all
    with res ml False show ?thesis unfolding L by auto
  qed
qed

definition demo_hex :: "nat \<Rightarrow> u32 \<Rightarrow> string" where
  "demo_hex k w = map (\<lambda>i. ''0123456789abcdef'' ! (unat (drop_bit (4 * i) w) mod 16)) (rev [0..<k])"

lemma demo_hex_length [simp]: "length (demo_hex k w) = k"
  by (simp add: demo_hex_def)

definition demo_fmt :: kfmt where
  "demo_fmt = \<lparr>fmt_p = demo_hex 8, fmt_x8 = (\<lambda>w. ''0x'' @ demo_hex 8 w), fmt_x5 = (\<lambda>w. ''0x'' @ demo_hex 5 w),
     fmt_obj = (\<lambda>p. demo_hex 8 (case p of None \<Rightarrow> 0 | Some a \<Rightarrow> of_nat a)), fmt_i3 = (\<lambda>k. pad_left 3 (fmt_i k)),
     state_code = (\<lambda>st. if st = PROC_RUNNING then 1 else 2), page_shift = 12,
     iprintf = (\<lambda>txt (out, room). (out @ txt, room - of_nat (length txt)))\<rparr>"

lemma demo_line_length: "length (area_line i386 demo_fmt (demo_area lo hi obj)) = 71"
  by (simp add: area_line_def demo_fmt_def demo_area_def pad_left_def)

theorem vmmap_mapping_info_bounds_witness:
  "(\<exists>r buf'. vmmap_mapping_info i386 demo_fmt (Some 4) (\<lambda>_. CHR ''x'') 500 demo_space = Inr (r, buf') \<and> unat r = 140 \<and>
     buf' 211 = CHR 0x00 \<and> buf' 500 = CHR ''x'') \<and>
   (\<exists>r buf' i. vmmap_mapping_info i386 demo_fmt (Some 4) (\<lambda>_. CHR ''x'') 100 demo_space = Inr (r, buf') \<and> 100 \<le> i \<and> buf' i = CHR 0x00)"
proof -
  have h: "length (info_text i386 demo_fmt (butlast (areas demo_space 4))) = 140" "length (info_text i386 demo_fmt (areas demo_space 4)) = 211"
    by (simp_all add: info_text_def demo_space_areas demo_line_length info_head_length)
  have s: "areas demo_space 4 \<noteq> []" "\<forall>v\<in>set (areas demo_space 4). length (area_line i386 demo_fmt v) < 2 ^ 31"
    by (simp_all add: demo_space_areas demo_line_length)
  obtain r buf' where "vmmap_mapping_info i386 demo_fmt (Some 4) (\<lambda>_. CHR ''x'') 500 demo_space = Inr (r, buf')" "unat r = 140"
      "inside 500 (\<lambda>_. CHR ''x'') buf'" "printed buf' (info_text i386 demo_fmt (areas demo_space 4))"
    using vmmap_mapping_info_bounds [OF demo_space_ok _ _ s, of 500 "\<lambda>_. CHR ''x''"] h by auto
  moreover obtain r' buf2 i where "vmmap_mapping_info i386 demo_fmt (Some 4) (\<lambda>_. CHR ''x'') 100 demo_space = Inr (r', buf2)" "100 \<le> i" "buf2 i = CHR 0x00"
    using vmmap_mapping_info_bounds [OF demo_space_ok _ _ s, of 100 "\<lambda>_. CHR ''x''"] h by auto
  ultimately show ?thesis using h by (auto simp: inside_def printed_def)
qed

end
