(* ===== verification/User_Memory.thy ===== *)
theory User_Memory
  imports Access
begin

text \<open>
  What the routines of \<^verbatim>\<open>kernel/api/access.c\<close> do to the memory that a process
  sees: which ranges they accept, and that bytes copied to a process come back
  unchanged.
\<close>

section \<open>Pages and addresses\<close>

text \<open>The page macros of a machine with pages of 4096 bytes.\<close>

definition paging_ok :: "kconsts \<Rightarrow> bool" where
  "paging_ok K \<longleftrightarrow> PAGE_SIZE K = 4096 \<and> ADDR_TO_PN K = drop_bit 12 \<and> PAGE_OFFSET K = take_bit 12 \<and>
     (\<forall>a. PAGE_ALIGNED K a \<longleftrightarrow> take_bit 12 a = 0)"

lemma i386_paging: "paging_ok i386"
  by (simp add: paging_ok_def i386_def fun_eq_iff)

lemma unat_page: "unat (drop_bit 12 (a :: u32)) = unat a div 4096" "unat (take_bit 12 (a :: u32)) = unat a mod 4096"
  by (simp_all add: unat_drop_bit_eq unsigned_take_bit_eq drop_bit_eq_div take_bit_eq_mod unat_div_distrib unat_mod_distrib)

lemma unat_add_small: "unat (a :: u32) + k < 2 ^ 32 \<Longrightarrow> unat (a + of_nat k) = unat a + k"
  by (simp add: unat_word_ariths unat_of_nat)

lemma word_of_nat_unat: "of_nat (unat (a :: u32)) = a"
  by simp

lemma div_page_start: "x mod 4096 = 0 \<Longrightarrow> (x + y) div 4096 = (x + y div 4096 * 4096) div (4096 :: nat)"
  by (auto simp: mod_eq_0_iff_dvd)

lemma unat_eq_imp: "unat a = unat b \<Longrightarrow> a = b"
  by (simp add: unsigned_word_eqI)

section \<open>Checking a range\<close>

lemma addr_perm_mapped:
  assumes "space_ok K s m" "p_vmmap p = Some m"
  shows "addr_perm K p a perm s = Inr (mapped (areas s m) (ADDR_TO_PN K a) \<noteq> None)"
  using vmmap_lookup_eq [OF assms(1)] assms(2) by (simp add: addr_perm_def mapped_areas)

text \<open>The loop looks at one address in every 4096 and ends before its counter wraps.\<close>

lemma range_loop_exact:
  assumes K: "paging_ok K" and ok: "space_ok K s m" "p_vmmap p = Some m" and len: "unat len + 4096 \<le> 2 ^ 32"
  shows "unat diff = k * 4096 \<Longrightarrow> unat len - k * 4096 < f \<Longrightarrow>
    range_loop f K p a len perm diff s =
      Inr (\<forall>j\<ge>k. j * 4096 < unat len \<longrightarrow> mapped (areas s m) (ADDR_TO_PN K (a + of_nat (j * 4096))) \<noteq> None)"
proof (induction f arbitrary: k diff)
  case (Suc f)
  let ?P = "\<lambda>j. mapped (areas s m) (ADDR_TO_PN K (a + of_nat (j * 4096))) \<noteq> None"
  have d: "diff = of_nat (k * 4096)" using Suc.prems(1) by (metis word_of_nat_unat)
  show ?case
  proof (cases "diff < len")
    case True
    then have lt: "k * 4096 < unat len" using Suc.prems(1) by (simp add: word_less_nat_alt)
    then have "unat diff + 4096 < 2 ^ 32" using len Suc.prems(1) by linarith
    then have d': "unat (diff + 4096) = Suc k * 4096" using unat_add_small [of diff 4096] Suc.prems(1) by simp
    have IH: "range_loop f K p a len perm (diff + 4096) s = Inr (\<forall>j\<ge>Suc k. j * 4096 < unat len \<longrightarrow> ?P j)"
      by (rule Suc.IH [OF d']) (use Suc.prems(2) lt in simp)
    have "range_loop (Suc f) K p a len perm diff s =
        (if ?P k then range_loop f K p a len perm (diff + 4096) s else Inr False)"
      using True addr_perm_mapped [OF ok, of "a + diff" perm] K d by (simp add: paging_ok_def)
    also have "\<dots> = Inr (\<forall>j\<ge>k. j * 4096 < unat len \<longrightarrow> ?P j)"
      unfolding IH using lt le_eq_less_or_eq [of k] by (auto simp only: Suc_le_eq split: if_split)
    finally show ?thesis .
  next
    case False
    then have "unat len \<le> k * 4096" using Suc.prems(1) by (simp add: word_less_nat_alt)
    then have "\<not> j * 4096 < unat len" if "k \<le> j" for j using that mult_le_mono1 [of k j 4096] by linarith
    with False show ?thesis by auto
  qed
qed simp

lemma range_perm_steps:
  assumes "paging_ok K" "space_ok K s m" "p_vmmap p = Some m" "unat len + 4096 \<le> 2 ^ 32"
  shows "range_perm K p a len perm s =
    Inr (\<forall>j. j * 4096 < unat len \<longrightarrow> mapped (areas s m) (ADDR_TO_PN K (a + of_nat (j * 4096))) \<noteq> None)"
  using range_loop_exact [OF assms, of 0 0 "Suc (unat len)" a perm] by (simp add: range_perm_def)

text \<open>For a range that starts on a page boundary the steps hit every page.\<close>

lemma range_perm_aligned:
  assumes K: "paging_ok K" and ok: "space_ok K s m" "p_vmmap p = Some m" and len: "unat len + 4096 \<le> 2 ^ 32"
    and a: "take_bit 12 a = 0" "unat a + unat len \<le> 2 ^ 32"
  shows "range_perm K p a len perm s =
    Inr (\<forall>i. unat i < unat len \<longrightarrow> mapped (areas s m) (ADDR_TO_PN K (a + i)) \<noteq> None)"
proof -
  have am: "unat a mod 4096 = 0" using a(1) unat_page(2) [of a] by simp
  have pg: "ADDR_TO_PN K (a + i) = ADDR_TO_PN K (a + of_nat (unat i div 4096 * 4096))" if "unat i < unat len" for i
  proof -
    have "unat i div 4096 * 4096 \<le> unat i" by simp
    then have u: "unat (a + of_nat (unat i div 4096 * 4096)) = unat a + unat i div 4096 * 4096"
        "unat (a + i) = unat a + unat i"
      using that a(2) unat_add_small [of a "unat i div 4096 * 4096"] unat_add_small [of a "unat i"] by simp_all
    have "(unat a + unat i) div 4096 = (unat a + unat i div 4096 * 4096) div 4096" using am by (rule div_page_start)
    then have "drop_bit 12 (a + i) = drop_bit 12 (a + of_nat (unat i div 4096 * 4096))"
      by (intro unat_eq_imp) (simp only: unat_page u)
    then show ?thesis using K by (simp add: paging_ok_def)
  qed
  let ?P = "\<lambda>i. mapped (areas s m) (ADDR_TO_PN K (a + i)) \<noteq> None"
  have "(\<forall>j. j * 4096 < unat len \<longrightarrow> ?P (of_nat (j * 4096))) \<longleftrightarrow> (\<forall>i. unat i < unat len \<longrightarrow> ?P i)"
  proof (intro iffI allI impI)
    fix i :: u32 assume h: "\<forall>j. j * 4096 < unat len \<longrightarrow> ?P (of_nat (j * 4096))" and i: "unat i < unat len"
    then have "unat i div 4096 * 4096 < unat len" by (meson div_times_less_eq_dividend le_less_trans)
    with h have "?P (of_nat (unat i div 4096 * 4096))" by blast
    then show "?P i" unfolding pg [OF i] .
  next
    fix j assume h: "\<forall>i. unat i < unat len \<longrightarrow> ?P i" and j: "j * 4096 < unat len"
    have "unat (of_nat (j * 4096) :: u32) = j * 4096" using j le_unat_uoi [of "j * 4096" len] by simp
    with h j show "?P (of_nat (j * 4096))" by metis
  qed
  then show ?thesis unfolding range_perm_steps [OF K ok len] by simp
qed

section \<open>The memory a process sees\<close>

text \<open>The objects behind an object, from the newest copy down to the bottom.\<close>

primrec layers :: "nat \<Rightarrow> kstate \<Rightarrow> ptr \<Rightarrow> ptr list" where
  "layers 0 s obj = []"
| "layers (Suc n) s obj = obj # (case mmobjs s obj of
      Some ob \<Rightarrow> (case mmo_shadowed ob of Some o' \<Rightarrow> layers n s o' | None \<Rightarrow> [])
    | None \<Rightarrow> [])"

definition ubyte :: "nat \<Rightarrow> kconsts \<Rightarrow> (ptr \<Rightarrow> u32 \<Rightarrow> page) \<Rightarrow> kstate \<Rightarrow> ptr \<Rightarrow> u32 \<Rightarrow> 8 word option" where
  "ubyte n K disk s m a =
     (case mapped (areas s m) (ADDR_TO_PN K a) of
        Some (Some obj, pn, _, _) \<Rightarrow> Some (seen K disk s (layers n s obj) pn (PAGE_OFFSET K a))
      | _ \<Rightarrow> None)"

text \<open>
  The byte that \<^verbatim>\<open>vmmap_read\<close> reads at an address.  It counts the pages of the
  object as \<^verbatim>\<open>vfn - (vma_start + vma_off)\<close>, where all the other routines use
  \<^verbatim>\<open>vfn - vma_start + vma_off\<close>, so this is the byte the process sees
  only in areas that map their object from its start, with an offset of 0.
\<close>

definition read_byte :: "nat \<Rightarrow> kconsts \<Rightarrow> (ptr \<Rightarrow> u32 \<Rightarrow> page) \<Rightarrow> kstate \<Rightarrow> ptr \<Rightarrow> u32 \<Rightarrow> 8 word option" where
  "read_byte n K disk s m a =
     (case List.find (covers (ADDR_TO_PN K a)) (areas s m) of
        None \<Rightarrow> None
      | Some v \<Rightarrow> (case vma_obj v of
          None \<Rightarrow> None
        | Some obj \<Rightarrow> Some (seen K disk s (layers n s obj) (ADDR_TO_PN K a - (vma_start v + vma_off v)) (PAGE_OFFSET K a))))"

definition from_start :: "kstate \<Rightarrow> ptr \<Rightarrow> bool" where
  "from_start s m \<longleftrightarrow> (\<forall>v\<in>set (areas s m). vma_off v = 0)"

lemma read_byte_from_start: "from_start s m \<Longrightarrow> read_byte n K disk s m a = ubyte n K disk s m a"
proof (cases "List.find (covers (ADDR_TO_PN K a)) (areas s m)")
  case (Some v)
  assume "from_start s m"
  moreover have "v \<in> set (areas s m)" using Some by (auto simp: find_Some_iff)
  ultimately have "vma_off v = 0" by (simp add: from_start_def)
  with Some show ?thesis by (simp add: read_byte_def ubyte_def mapped_def page_map_def split: option.split)
qed (simp add: read_byte_def ubyte_def mapped_def)

lemma read_byte_shift:
  assumes "List.find (covers (ADDR_TO_PN K a)) (areas s m) = Some v" "List.find (covers (ADDR_TO_PN K b)) (areas s m) = Some v"
    and "ADDR_TO_PN K b = ADDR_TO_PN K a - 2 * vma_off v" "PAGE_OFFSET K b = PAGE_OFFSET K a"
  shows "read_byte n K disk s m a = ubyte n K disk s m b"
proof -
  have "ADDR_TO_PN K a - (vma_start v + vma_off v) = ADDR_TO_PN K b - vma_start v + vma_off v" unfolding assms(3) by simp
  then have "seen K disk s os (ADDR_TO_PN K a - (vma_start v + vma_off v)) i = seen K disk s os (ADDR_TO_PN K b - vma_start v + vma_off v) i"
    for os i by (rule arg_cong)
  then show ?thesis using assms(1,2,4) by (simp add: read_byte_def ubyte_def mapped_def page_map_def split: option.split)
qed

text \<open>
  An address space in which each area has an object of its own that is anonymous
  or a private copy; the object may be mapped from any offset.
\<close>

definition plain_area :: "nat \<Rightarrow> kstate \<Rightarrow> vmarea \<Rightarrow> bool" where
  "plain_area n s v \<longleftrightarrow>
     (case vma_obj v of
        None \<Rightarrow> False
      | Some obj \<Rightarrow> chain s (layers n s obj) \<and>
          (case mmobjs s obj of Some ob \<Rightarrow> mmo_ops ob \<noteq> Other_ops | None \<Rightarrow> False))"

definition top_objs :: "kstate \<Rightarrow> ptr \<Rightarrow> ptr set" where
  "top_objs s m = {obj. \<exists>v\<in>set (areas s m). vma_obj v = Some obj}"

definition user_space :: "nat \<Rightarrow> kconsts \<Rightarrow> kstate \<Rightarrow> ptr \<Rightarrow> bool" where
  "user_space n K s m \<longleftrightarrow> space_ok K s m \<and> (\<forall>v\<in>set (areas s m). plain_area n s v) \<and>
     distinct (map vma_obj (areas s m)) \<and>
     (\<forall>obj\<in>top_objs s m. \<forall>obj'\<in>top_objs s m. obj \<notin> set (tl (layers n s obj')))"

lemma chain_layers: "chain s (obj # os) \<Longrightarrow> length (obj # os) \<le> n \<Longrightarrow> layers n s obj = obj # os"
proof (induction os arbitrary: obj n)
  case Nil
  then show ?case by (cases n) (auto split: option.splits)
next
  case (Cons o' os)
  then obtain n' where n: "n = Suc n'" "length (o' # os) \<le> n'" by (cases n) auto
  have "chain s (o' # os)" using Cons.prems(1) by simp
  from Cons.IH [OF this n(2)] n(1) Cons.prems(1) show ?case by (auto split: option.splits)
qed

lemma layers_Cons: "layers n s obj \<noteq> [] \<Longrightarrow> layers n s obj = obj # tl (layers n s obj)"
  by (cases n) auto

lemma length_layers: "length (layers n s obj) \<le> n"
  by (induction n arbitrary: obj) (auto split: option.splits)

lemma layers_shape:
  assumes "shape s' = shape s"
  shows "layers n s' obj = layers n s obj"
proof (induction n arbitrary: obj)
  case (Suc n)
  have "map_option mmo_shadowed (mmobjs s' obj) = map_option mmo_shadowed (mmobjs s obj)"
    using fun_cong [OF assms, of obj] by (cases "mmobjs s obj"; cases "mmobjs s' obj") (auto simp: shape_def)
  with Suc show ?case by (auto split: option.splits)
qed simp

lemma plain_areaD:
  assumes "plain_area n s v"
  obtains obj os ob where "vma_obj v = Some obj" "layers n s obj = obj # os" "chain s (obj # os)"
    "length (obj # os) \<le> n" "mmobjs s obj = Some ob" "mmo_ops ob \<noteq> Other_ops"
proof -
  obtain obj ob where o: "vma_obj v = Some obj" "chain s (layers n s obj)" "mmobjs s obj = Some ob" "mmo_ops ob \<noteq> Other_ops"
    using assms by (auto simp: plain_area_def split: option.splits)
  then have l: "layers n s obj = obj # tl (layers n s obj)" by (intro layers_Cons) auto
  with that [of obj "tl (layers n s obj)" ob] o length_layers [of n s obj] show ?thesis by simp
qed

lemma user_space_frame:
  assumes "mem_rest s' = mem_rest s" "shape s' = shape s"
  shows "areas s' m = areas s m" "user_space n K s' m \<longleftrightarrow> user_space n K s m" "top_objs s' m = top_objs s m"
proof -
  note f = space_frame [of s' m s] mem_restD [OF assms(1)]
  show a: "areas s' m = areas s m" using f by simp
  show t: "top_objs s' m = top_objs s m" by (simp add: top_objs_def a)
  have "(case mmobjs s' obj of Some ob \<Rightarrow> mmo_ops ob \<noteq> Other_ops | None \<Rightarrow> False) =
      (case mmobjs s obj of Some ob \<Rightarrow> mmo_ops ob \<noteq> Other_ops | None \<Rightarrow> False)" for obj
    using fun_cong [OF assms(2), of obj] by (cases "mmobjs s obj"; cases "mmobjs s' obj") (auto simp: shape_def)
  then have "plain_area n s' = plain_area n s"
    by (intro ext) (simp add: plain_area_def layers_shape [OF assms(2)] chain_shape [OF assms(2)] split: option.split)
  with f a t show "user_space n K s' m \<longleftrightarrow> user_space n K s m"
    by (simp add: user_space_def layers_shape [OF assms(2)])
qed

text \<open>Two different pages of the process never share a page of an object.\<close>

lemma user_space_mapped:
  assumes "user_space n K s m" "mapped (areas s m) vfn = Some mp"
  obtains obj os v ob prot flags where "mp = (Some obj, vfn - vma_start v + vma_off v, prot, flags)" "v \<in> set (areas s m)"
    "List.find (covers vfn) (areas s m) = Some v" "vma_obj v = Some obj" "layers n s obj = obj # os" "chain s (obj # os)" "length (obj # os) \<le> n"
    "mmobjs s obj = Some ob" "mmo_ops ob \<noteq> Other_ops" "obj \<in> top_objs s m"
proof -
  obtain v where v: "List.find (covers vfn) (areas s m) = Some v" "mp = page_map vfn v"
    using assms(2) by (auto simp: mapped_def)
  then have vm: "v \<in> set (areas s m)" by (auto simp: find_Some_iff)
  then have "plain_area n s v" using assms(1) by (simp add: user_space_def)
  then obtain obj os ob where o: "vma_obj v = Some obj" "layers n s obj = obj # os" "chain s (obj # os)"
      "length (obj # os) \<le> n" "mmobjs s obj = Some ob" "mmo_ops ob \<noteq> Other_ops"
    by (rule plain_areaD)
  have "obj \<in> top_objs s m" using vm o(1) by (auto simp: top_objs_def)
  with that [of obj v "vma_prot v" "vma_flags v" os ob] v vm o show ?thesis by (simp add: page_map_def)
qed

lemma user_space_own_page:
  assumes us: "user_space n K s m" and m1: "mapped (areas s m) vfn = Some (Some obj, pn, r)"
    and m2: "mapped (areas s m) vfn' = Some (Some obj', pn, r')" and o: "obj \<in> set (layers n s obj')"
  shows "vfn' = vfn"
proof -
  obtain v where v: "obj \<in> top_objs s m" "pn = vfn - vma_start v + vma_off v" "v \<in> set (areas s m)" "vma_obj v = Some obj"
    by (rule user_space_mapped [OF us m1]) auto
  obtain v' os' where v': "obj' \<in> top_objs s m" "pn = vfn' - vma_start v' + vma_off v'" "v' \<in> set (areas s m)" "vma_obj v' = Some obj'"
      "layers n s obj' = obj' # os'"
    by (rule user_space_mapped [OF us m2]) auto
  have "obj \<notin> set os'" using us v(1) v'(1,5) by (force simp: user_space_def)
  with o v'(5) have "obj = obj'" by simp
  then have "v = v'" using us v(3,4) v'(3,4) by (metis (no_types, lifting) distinct_map inj_on_def user_space_def)
  with v(2) v'(2) show ?thesis by simp
qed

section \<open>Storing into a frame\<close>

lemma pframe_dirty_own:
  assumes "pframes s p = Some fr" "\<not> pf_busy fr" "pf_obj fr = Some obj" "mmobjs s obj = Some ob" "mmo_ops ob \<noteq> Other_ops"
    and "no_waiters s"
  shows "\<exists>r d. pframe_dirty K (mmobj_dirtypage X) p s = Inr (r, upd_pf p (\<lambda>x. x\<lparr>pf_busy := False, pf_dirty := d\<rparr>) s)"
proof -
  have q: "sched_broadcast_on K (Pfq p) s' = Inr s'" if "queues s' = queues s" for s'
    using that assms(6) by (simp add: sched_broadcast_on_none no_waiters_def)
  show ?thesis
  proof (cases "mmo_ops ob")
    case Anon_ops
    have "upd_pf p (\<lambda>x. x\<lparr>pf_busy := False\<rparr>) (upd_pf p (\<lambda>x. x\<lparr>pf_busy := True\<rparr>) s) =
        upd_pf p (\<lambda>x. x\<lparr>pf_busy := False, pf_dirty := pf_dirty fr\<rparr>) s"
      using assms(1) by (cases fr) (simp add: upd_pf_def)
    with Anon_ops assms q show ?thesis
      by (auto simp: pframe_dirty_def mmobj_dirtypage_def anon_dirtypage_def)
  next
    case Shadow_ops
    have "upd_pf p (\<lambda>x. x\<lparr>pf_busy := False\<rparr>) (upd_pf p (\<lambda>x. x\<lparr>pf_dirty := True\<rparr>)
          (upd_pf p (\<lambda>x. x\<lparr>pf_dirty := True\<rparr>) (upd_pf p (\<lambda>x. x\<lparr>pf_busy := True\<rparr>) s))) =
        upd_pf p (\<lambda>x. x\<lparr>pf_busy := False, pf_dirty := True\<rparr>) s"
      using assms(1) by (cases fr) (simp add: upd_pf_def)
    with Shadow_ops assms q show ?thesis
      by (auto simp: pframe_dirty_def mmobj_dirtypage_def shadow_dirtypage_def)
  qed (use assms in simp)
qed

text \<open>Changing the data or the marks of one frame.\<close>

definition stored :: "kconsts \<Rightarrow> ptr \<Rightarrow> pframe \<Rightarrow> pframe \<Rightarrow> kstate \<Rightarrow> kstate \<Rightarrow> bool" where
  "stored K p fr fr' s s' \<longleftrightarrow> pframes s p = Some fr \<and> pframes s' = (pframes s)(p \<mapsto> fr') \<and>
     ready K s' \<and> mem_rest s' = mem_rest s \<and> shape s' = shape s \<and> mmobjs s' = mmobjs s \<and>
     (\<forall>obj pn. page_of K s' obj pn = page_of K s obj pn)"

lemma stored_upd_pf:
  assumes r: "ready K s" and fr: "pframes s p = Some fr"
    and f: "\<And>x. pf_obj (f x) = pf_obj x" "\<And>x. pf_pagenum (f x) = pf_pagenum x" "\<And>x. pf_pincount (f x) = pf_pincount x"
      "\<And>x. pf_addr (f x) = pf_addr x" "\<And>x. pf_busy (f x) \<longrightarrow> pf_busy x"
  shows "stored K p fr (f fr) s (upd_pf p f s)"
proof -
  have inv: "pf_inv K s" "quiet {} s" using r by (simp_all add: ready_def)
  have mr: "mem_rest (upd_pf p f s) = mem_rest s" by (simp add: mem_rest_def upd_pf_def)
  have pg: "page_of K (upd_pf p f s) obj pn = page_of K s obj pn" for obj pn
    using pf_invD(2) [OF inv(1)] by (rule page_of_ident) (simp_all add: ident_upd_pf f)
  have "ready K (upd_pf p f s)"
    using ready_cong [OF r pf_inv_upd_pf [OF inv(1) f(1,2,3)] mr quiet_upd_pf [OF inv(2) f(4,5)]] .
  with mr pg fr show ?thesis by (simp add: stored_def)
qed

lemma stored_trans:
  assumes "stored K p fr fr1 s s1" "stored K p fr1 fr2 s1 s2"
  shows "stored K p fr fr2 s s2"
  using assms by (simp add: stored_def)

text \<open>Only chains that reach the frame see the change.\<close>

lemma seen_stored:
  assumes "stored K p fr fr' s s'" "first_res K s os pn \<noteq> Some p"
  shows "seen K disk s' os pn = seen K disk s os pn"
proof -
  have "frame_data s' q = frame_data s q" if "q \<noteq> p" for q using that assms(1) by (simp add: stored_def frame_data_def)
  with assms show ?thesis by (induction os) (auto simp: stored_def split: option.splits)
qed

lemma seen_stored_top:
  assumes "stored K p fr fr' s s'" "hash_inv K s" "pf_obj fr = Some obj" "pf_pagenum fr = pn"
  shows "seen K disk s' (obj # os) pn = pf_data fr'"
proof -
  have "page_of K s obj pn = Some p" using assms by (simp add: page_of_iff stored_def)
  with assms(1) show ?thesis by (simp add: stored_def frame_data_def)
qed

lemma first_res_owner:
  assumes "hash_inv K s" "first_res K s os pn = Some p" "pframes s p = Some fr"
  shows "\<exists>obj\<in>set os. pf_obj fr = Some obj \<and> pf_pagenum fr = pn"
proof -
  obtain obj where "obj \<in> set os" "page_of K s obj pn = Some p" using first_res_Some [OF assms(2)] by blast
  with assms(3) page_of_iff [OF assms(1), of obj pn p] show ?thesis by auto
qed

section \<open>Writing one page\<close>

text \<open>A piece that ends before the page does.\<close>

lemma page_add:
  assumes "unat (take_bit 12 a) + unat (d :: u32) < 4096"
  shows "drop_bit 12 (a + d) = drop_bit 12 a" "take_bit 12 (a + d) = take_bit 12 a + d"
proof -
  have "unat a div 4096 < 2 ^ 20" using unsigned_less [of a] by (simp add: div_less_iff_less_mult)
  then have "unat a div 4096 * 4096 + 4096 \<le> 2 ^ 32" by simp
  then have "unat a + unat d < 2 ^ 32" using assms unat_page(2) [of a] div_mult_mod_eq [of "unat a" 4096] by linarith
  then have u: "unat (a + d) = unat a + unat d" using unat_add_small [of a "unat d"] by simp
  have m: "unat a mod 4096 + unat d < 4096" using assms by (simp add: unat_page)
  have "unat d < 4096" using m by linarith
  with m have dm: "(unat a + unat d) div 4096 = unat a div 4096" "(unat a + unat d) mod 4096 = unat a mod 4096 + unat d"
    by (simp_all add: div_add1_eq [of "unat a"] mod_add_left_eq [of "unat a", symmetric] del: mod_add_left_eq)
  show "drop_bit 12 (a + d) = drop_bit 12 a" by (rule unat_eq_imp) (simp add: unat_page u dm)
  have "unat (take_bit 12 a + d) = unat a mod 4096 + unat d"
    using unat_add_small [of "take_bit 12 a" "unat d"] m by (simp add: unat_page)
  then show "take_bit 12 (a + d) = take_bit 12 a + d" by (intro unat_eq_imp) (simp add: unat_page u dm)
qed

lemma page_diff:
  assumes "drop_bit 12 a = drop_bit 12 (b :: u32)"
  shows "a - b = take_bit 12 a - take_bit 12 b"
proof -
  have "push_bit 12 (drop_bit 12 c) + take_bit 12 c = c" for c :: u32 by (rule bits_ident)
  from this [of a] this [of b] assms show ?thesis by (metis add_diff_cancel_left)
qed

lemma page_piece:
  assumes "unat (take_bit 12 a) + unat size' \<le> 4096"
  shows "b - a < size' \<longleftrightarrow> drop_bit 12 b = drop_bit 12 a \<and> take_bit 12 b - take_bit 12 a < (size' :: u32)"
proof
  assume l: "b - a < size'"
  then have "unat (take_bit 12 a) + unat (b - a) < 4096" using assms by (simp add: word_less_nat_alt)
  from page_add [OF this] l show "drop_bit 12 b = drop_bit 12 a \<and> take_bit 12 b - take_bit 12 a < size'" by simp
next
  assume "drop_bit 12 b = drop_bit 12 a \<and> take_bit 12 b - take_bit 12 a < size'"
  with page_diff [of b a] show "b - a < size'" by simp
qed

text \<open>The effect of writing \<open>size'\<close> bytes of \<open>buf\<close> from address \<open>a\<close> on, and what it leaves alone.\<close>

definition wrote :: "nat \<Rightarrow> kconsts \<Rightarrow> (ptr \<Rightarrow> u32 \<Rightarrow> page) \<Rightarrow> ptr \<Rightarrow> u32 \<Rightarrow> u32 \<Rightarrow> buffer \<Rightarrow> kstate \<Rightarrow> kstate \<Rightarrow> bool" where
  "wrote n K disk m a size' buf s s' \<longleftrightarrow> ready K s' \<and> mem_rest s' = mem_rest s \<and> shape s' = shape s \<and>
     (\<forall>b. ubyte n K disk s' m b = (if b - a < size' then Some (buf (b - a)) else ubyte n K disk s m b)) \<and>
     (\<forall>os pn. chain s os \<longrightarrow> top_objs s m \<inter> set os = {} \<longrightarrow> page_eq K (seen K disk s' os pn) (seen K disk s os pn))"

lemma ubyte_mapped:
  "mapped (areas s m) (ADDR_TO_PN K a) = Some (Some obj, pn, r) \<Longrightarrow>
    ubyte n K disk s m a = Some (seen K disk s (layers n s obj) pn (PAGE_OFFSET K a))"
  by (cases r) (simp add: ubyte_def)

lemma ubyte_eqI:
  assumes "user_space n K s m" "areas s' m = areas s m" "shape s' = shape s"
    and "\<And>obj os pn r. mapped (areas s m) (ADDR_TO_PN K a) = Some (Some obj, pn, r) \<Longrightarrow> layers n s obj = obj # os \<Longrightarrow>
      chain s (obj # os) \<Longrightarrow> seen K disk s' (obj # os) pn (PAGE_OFFSET K a) = seen K disk s (obj # os) pn (PAGE_OFFSET K a)"
  shows "ubyte n K disk s' m a = ubyte n K disk s m a"
proof (cases "mapped (areas s m) (ADDR_TO_PN K a)")
  case None
  then show ?thesis using assms(2) by (simp add: ubyte_def)
next
  case (Some mp)
  obtain obj os pn prot flags where o: "mp = (Some obj, pn, prot, flags)" "layers n s obj = obj # os" "chain s (obj # os)"
    by (rule user_space_mapped [OF assms(1) Some]) blast
  from assms(4) [OF Some [unfolded o(1)] o(2,3)] Some o assms(2) show ?thesis
    by (simp add: ubyte_def layers_shape [OF assms(3)])
qed

lemma store_piece:
  assumes K: "paging_ok K" and us: "user_space n K s m"
    and mp: "mapped (areas s m) (ADDR_TO_PN K a) = Some (Some obj, pn, r)"
    and lay: "layers n s obj = obj # os"
    and g: "found K disk s (obj # os) pn p fr s1" "pf_obj fr = Some obj" "mem_rest s1 = mem_rest s" "shape s1 = shape s"
      "\<forall>os' pn'. chain s os' \<longrightarrow> page_eq K (seen K disk s1 os' pn') (seen K disk s os' pn')"
    and st: "stored K p fr fr' s1 s2" and h: "hash_inv K s1"
    and fr': "pf_data fr' = (\<lambda>i. if i - PAGE_OFFSET K a < size' then buf (i - PAGE_OFFSET K a) else pf_data fr i)"
    and size': "unat (PAGE_OFFSET K a) + unat size' \<le> 4096"
  shows "wrote n K disk m a size' buf s s2"
proof -
  have mr: "mem_rest s2 = mem_rest s" and sh: "shape s2 = shape s" and rd: "ready K s2"
    using st g(3,4) by (simp_all add: stored_def)
  have fr: "pframes s1 p = Some fr" "pf_pagenum fr = pn" "page_eq K (pf_data fr) (seen K disk s (obj # os) pn)"
    using g(1) by (simp_all add: found_def)
  have off: "PAGE_OFFSET K b < PAGE_SIZE K" for b
    using K unat_page(2) [of b] by (simp add: paging_ok_def word_less_nat_alt)
  have pn: "ADDR_TO_PN K b = ADDR_TO_PN K a \<longleftrightarrow> drop_bit 12 b = drop_bit 12 a" "PAGE_OFFSET K b = take_bit 12 b" for b
    using K by (simp_all add: paging_ok_def)
  have far: "seen K disk s2 os' pn' = seen K disk s1 os' pn'" if "obj \<notin> set os' \<or> pn' \<noteq> pn" for os' pn'
    using that first_res_owner [OF h _ fr(1), of os' pn'] g(2) fr(2) by (intro seen_stored [OF st]) auto
  have here: "ubyte n K disk s2 m b = (if b - a < size' then Some (buf (b - a)) else ubyte n K disk s m b)"
    if pb: "drop_bit 12 b = drop_bit 12 a" for b
  proof -
    have mb: "mapped (areas s m) (ADDR_TO_PN K b) = Some (Some obj, pn, r)" using mp pb pn(1) [of b] by simp
    have "seen K disk s2 (obj # os) pn (PAGE_OFFSET K b) = (if b - a < size' then buf (b - a) else seen K disk s (obj # os) pn (PAGE_OFFSET K b))"
      unfolding seen_stored_top [OF st h g(2) fr(2)] fr' using fr(3) off page_diff [OF pb] by (simp add: page_eq_def pn(2))
    with mb lay user_space_frame(1) [OF mr sh] show ?thesis
      by (simp add: ubyte_mapped layers_shape [OF sh])
  qed
  have there: "ubyte n K disk s2 m b = ubyte n K disk s m b" if pb: "drop_bit 12 b \<noteq> drop_bit 12 a" for b
  proof (rule ubyte_eqI [OF us user_space_frame(1) [OF mr sh] sh])
    fix obj' os' pn' r'
    assume b: "mapped (areas s m) (ADDR_TO_PN K b) = Some (Some obj', pn', r')" "layers n s obj' = obj' # os'" "chain s (obj' # os')"
    have "obj \<notin> set (obj' # os') \<or> pn' \<noteq> pn"
      using user_space_own_page [OF us mp, of "ADDR_TO_PN K b" obj' r'] b pb pn(1) by auto
    from far [OF this] g(5) b(3) off [of b]
    show "seen K disk s2 (obj' # os') pn' (PAGE_OFFSET K b) = seen K disk s (obj' # os') pn' (PAGE_OFFSET K b)"
      unfolding page_eq_def by metis
  qed
  have "ubyte n K disk s2 m b = (if b - a < size' then Some (buf (b - a)) else ubyte n K disk s m b)" for b
    using here [of b] there [of b] page_piece [of a size' b] size' pn(2) by (cases "drop_bit 12 b = drop_bit 12 a") simp_all
  moreover have "obj \<in> top_objs s m" by (rule user_space_mapped [OF us mp]) auto
  then have "page_eq K (seen K disk s2 os' pn') (seen K disk s os' pn')" if "chain s os'" "top_objs s m \<inter> set os' = {}" for os' pn'
    using far [of os' pn'] that g(5) by (metis disjoint_iff)
  ultimately show ?thesis using rd mr sh by (simp add: wrote_def)
qed

section \<open>Writing and reading across pages\<close>

lemma wrote_nothing: "ready K s \<Longrightarrow> wrote n K disk m a 0 buf s s"
  by (simp add: wrote_def)

lemma piece_split:
  assumes "k \<le> (l :: u32)"
  shows "x < l \<longleftrightarrow> x < k \<or> x - k < l - k"
proof (cases "k \<le> x")
  case True
  then show ?thesis using assms by (auto simp: word_less_nat_alt word_le_nat_alt unat_sub)
next
  case False
  then show ?thesis using assms by (simp add: not_le)
qed

lemma piece_shift:
  assumes "k \<le> (l :: u32)" "i < l - k"
  shows "k + i < l"
proof -
  have "unat k + unat i < unat l" using assms by (simp add: word_less_nat_alt word_le_nat_alt unat_sub)
  moreover have "unat l < 2 ^ 32" using unsigned_less [of l] by simp
  ultimately show ?thesis using unat_add_small [of k "unat i"] by (simp add: word_less_nat_alt)
qed

lemma piece_end:
  assumes "dn \<le> (count :: u32)" "k \<le> count - dn"
  shows "dn + k \<le> count"
proof -
  have "unat dn + unat k \<le> unat count" using assms by (simp add: word_le_nat_alt unat_sub)
  moreover have "unat count < 2 ^ 32" using unsigned_less [of count] by simp
  ultimately show ?thesis using unat_add_small [of dn "unat k"] by (simp add: word_le_nat_alt)
qed

lemma wrote_trans:
  assumes "wrote n K disk m a k buf s s1" "wrote n K disk m (a + k) (l - k) (\<lambda>i. buf (k + i)) s1 s2" "k \<le> l"
  shows "wrote n K disk m a l buf s s2"
proof -
  have s1: "mem_rest s1 = mem_rest s" "shape s1 = shape s" using assms(1) by (simp_all add: wrote_def)
  have "ubyte n K disk s2 m b = (if b - a < l then Some (buf (b - a)) else ubyte n K disk s m b)" for b
  proof -
    have b: "b - (a + k) = b - a - k" "k + (b - a - k) = b - a" by simp_all
    have "ubyte n K disk s2 m b = (if b - (a + k) < l - k then Some (buf (k + (b - (a + k)))) else ubyte n K disk s1 m b)"
      using assms(2) by (simp add: wrote_def)
    moreover have "ubyte n K disk s1 m b = (if b - a < k then Some (buf (b - a)) else ubyte n K disk s m b)"
      using assms(1) by (simp add: wrote_def)
    ultimately show ?thesis unfolding b using piece_split [OF assms(3), of "b - a"] by auto
  qed
  moreover have "page_eq K (seen K disk s2 os pn) (seen K disk s os pn)" if "chain s os" "top_objs s m \<inter> set os = {}" for os pn
    using assms(1,2) that user_space_frame(3) [OF s1, of m] chain_shape [OF s1(2), of os]
      page_eq_trans [of K "seen K disk s2 os pn" "seen K disk s1 os pn" "seen K disk s os pn"] by (simp add: wrote_def)
  ultimately show ?thesis using assms(2) s1 by (simp add: wrote_def)
qed

text \<open>The size of the next piece.\<close>

lemma min_piece:
  assumes K: "paging_ok K" and l: "l \<noteq> 0"
  shows "min_uint32 l (PAGE_SIZE K - PAGE_OFFSET K a) \<noteq> 0" "min_uint32 l (PAGE_SIZE K - PAGE_OFFSET K a) \<le> l"
    "unat (PAGE_OFFSET K a) + unat (min_uint32 l (PAGE_SIZE K - PAGE_OFFSET K a)) \<le> 4096"
proof -
  have o: "unat (PAGE_OFFSET K a) < 4096" "PAGE_SIZE K = 4096" using K unat_page(2) [of a] by (simp_all add: paging_ok_def)
  then have "unat (PAGE_SIZE K - PAGE_OFFSET K a) = 4096 - unat (PAGE_OFFSET K a)" by (simp add: unat_sub word_le_nat_alt)
  with o l show "min_uint32 l (PAGE_SIZE K - PAGE_OFFSET K a) \<noteq> 0" "min_uint32 l (PAGE_SIZE K - PAGE_OFFSET K a) \<le> l"
      "unat (PAGE_OFFSET K a) + unat (min_uint32 l (PAGE_SIZE K - PAGE_OFFSET K a)) \<le> 4096"
    by (auto simp: min_uint32_def word_less_nat_alt word_le_nat_alt)
qed

lemma rest_shorter:
  assumes "k \<noteq> 0" "k \<le> (count - dn :: u32)" "unat (count - dn) < Suc f"
  shows "unat (count - (dn + k)) < f"
proof -
  have "count - (dn + k) = (count - dn) - k" by simp
  then have "unat (count - (dn + k)) = unat (count - dn) - unat k" using assms(2) by (simp only: unat_sub)
  moreover have "0 < unat k" using assms(1) by (simp add: unat_gt_0)
  ultimately show ?thesis using assms(2,3) by (simp add: word_le_nat_alt)
qed

lemma write_step:
  assumes X: "mem_ok K X disk" and K: "paging_ok K" and us: "user_space n K s m" and rd: "ready K s"
    and lt: "dn < count" and mp: "mapped (areas s m) (ADDR_TO_PN K a) \<noteq> None"
    and k: "k = min_uint32 (count - dn) (PAGE_SIZE K - PAGE_OFFSET K a)"
  shows "\<exists>s1. write_loop (Suc f) n K X (Some m) a dn count buf s = write_loop f n K X (Some m) (a + k) (dn + k) count buf s1 \<and>
    wrote n K disk m a k (\<lambda>i. buf (dn + i)) s s1"
proof -
  obtain mp' where mp: "mapped (areas s m) (ADDR_TO_PN K a) = Some mp'" using mp by blast
  obtain obj os pn prot flags ob where o: "mp' = (Some obj, pn, prot, flags)" "layers n s obj = obj # os"
      "chain s (obj # os)" "length (obj # os) \<le> n" "mmobjs s obj = Some ob" "mmo_ops ob \<noteq> Other_ops"
    by (rule user_space_mapped [OF us mp]) blast
  note mp = mp [unfolded o(1)]
  have sp: "space_ok K s m" using us by (simp add: user_space_def)
  obtain v where v: "vmmap_lookup (Some m) (ADDR_TO_PN K a) s = Inr (Some v)" "vmareas s v = Some (area s v)"
      "vma_obj (area s v) = Some obj" "ADDR_TO_PN K a - vma_start (area s v) + vma_off (area s v) = pn"
    by (rule lookup_mapped [OF sp mp]) blast
  obtain p fr s1 where p: "pframe_lookup n K X obj pn True s = Inr (0, Some p, s1)" "found K disk s (obj # os) pn p fr s1"
      "pf_obj fr = Some obj" "ready K s1" "mem_rest s1 = mem_rest s" "shape s1 = shape s"
      "\<forall>os' pn'. chain s os' \<longrightarrow> page_eq K (seen K disk s1 os' pn') (seen K disk s os' pn')"
    using page_lookup_ready [OF X rd o(3,4), of pn True] by blast
  have fr: "pframes s1 p = Some fr" "\<not> pf_busy fr" using p(2) by (simp_all add: found_def)
  let ?d = "\<lambda>x. x\<lparr>pf_data := (\<lambda>i. if i - PAGE_OFFSET K a < k then buf (dn + (i - PAGE_OFFSET K a)) else pf_data x i)\<rparr>"
  let ?s2 = "upd_pf p ?d s1"
  have st: "stored K p fr (?d fr) s1 ?s2" by (rule stored_upd_pf [OF p(4) fr(1)]) simp_all
  have s2: "pframes ?s2 p = Some (?d fr)" "ready K ?s2" using st by (simp_all add: stored_def)
  obtain ob' where ob': "mmobjs ?s2 obj = Some ob'" "mmo_ops ob' \<noteq> Other_ops"
    using fun_cong [OF p(6), of obj] o(5,6) by (auto simp: shape_def)
  have nw: "no_waiters ?s2" using s2(2) by (simp add: ready_def)
  obtain r d where dt: "pframe_dirty K (mmobj_dirtypage X) p ?s2 = Inr (r, upd_pf p (\<lambda>x. x\<lparr>pf_busy := False, pf_dirty := d\<rparr>) ?s2)"
    using pframe_dirty_own [OF s2(1) _ _ ob' nw, of K X] fr(2) p(3) by auto
  let ?s3 = "upd_pf p (\<lambda>x. x\<lparr>pf_busy := False, pf_dirty := d\<rparr>) ?s2"
  have st': "stored K p fr ((?d fr)\<lparr>pf_busy := False, pf_dirty := d\<rparr>) s1 ?s3"
    by (rule stored_trans [OF st], rule stored_upd_pf [OF s2(2,1)]) simp_all
  have h: "hash_inv K s1" using p(4) by (simp add: ready_def pf_invD)
  have "count - dn \<noteq> 0" using lt by auto
  note kk = min_piece [OF K this, of a, folded k]
  have "wrote n K disk m a k (\<lambda>i. buf (dn + i)) s ?s3"
    by (rule store_piece [OF K us mp o(2) p(2,3,5,6,7) st' h _ kk(3)]) simp
  moreover have "write_loop (Suc f) n K X (Some m) a dn count buf s = write_loop f n K X (Some m) (a + k) (dn + k) count buf ?s3"
    using lt v p(1) fr dt k by (simp add: Let_def)
  ultimately show ?thesis by blast
qed

lemma write_loop_writes:
  assumes X: "mem_ok K X disk" and K: "paging_ok K"
  shows "user_space n K s m \<Longrightarrow> ready K s \<Longrightarrow> unat (count - dn) < f \<Longrightarrow> dn \<le> count \<Longrightarrow>
    \<forall>i. i < count - dn \<longrightarrow> mapped (areas s m) (ADDR_TO_PN K (a + i)) \<noteq> None \<Longrightarrow>
    \<exists>s'. write_loop f n K X (Some m) a dn count buf s = Inr s' \<and>
      wrote n K disk m a (count - dn) (\<lambda>i. buf (dn + i)) s s'"
proof (induction f arbitrary: s a dn)
  case (Suc f)
  show ?case
  proof (cases "dn < count")
    case False
    with Suc.prems(4) have "dn = count" by simp
    with wrote_nothing [OF Suc.prems(2)] show ?thesis by simp
  next
    case True
    define k where "k = min_uint32 (count - dn) (PAGE_SIZE K - PAGE_OFFSET K a)"
    have nz: "count - dn \<noteq> 0" using True by auto
    note kk = min_piece [OF K nz, of a, folded k_def]
    have m0: "mapped (areas s m) (ADDR_TO_PN K a) \<noteq> None"
      using Suc.prems(5) nz spec [of "\<lambda>i. i < count - dn \<longrightarrow> mapped (areas s m) (ADDR_TO_PN K (a + i)) \<noteq> None" 0]
      by (simp add: word_gt_0)
    obtain s1 where s1: "write_loop (Suc f) n K X (Some m) a dn count buf s = write_loop f n K X (Some m) (a + k) (dn + k) count buf s1"
        "wrote n K disk m a k (\<lambda>i. buf (dn + i)) s s1"
      using write_step [OF X K Suc.prems(1,2) True m0 k_def] by blast
    have fr: "ready K s1" "mem_rest s1 = mem_rest s" "shape s1 = shape s" using s1(2) by (simp_all add: wrote_def)
    have us: "user_space n K s1 m" using user_space_frame(2) [OF fr(2,3)] Suc.prems(1) by blast
    have rest: "count - (dn + k) = (count - dn) - k" by simp
    have le: "dn + k \<le> count" by (rule piece_end [OF Suc.prems(4) kk(2)])
    have mp: "\<forall>i. i < count - (dn + k) \<longrightarrow> mapped (areas s1 m) (ADDR_TO_PN K (a + k + i)) \<noteq> None"
      using Suc.prems(5) piece_shift [OF kk(2)] unfolding rest user_space_frame(1) [OF fr(2,3)] add.assoc by blast
    obtain s' where s': "write_loop f n K X (Some m) (a + k) (dn + k) count buf s1 = Inr s'"
        "wrote n K disk m (a + k) (count - (dn + k)) (\<lambda>i. buf (dn + k + i)) s1 s'"
      using Suc.IH [OF us fr(1) rest_shorter [OF kk(1,2) Suc.prems(3)] le mp] by blast
    have "wrote n K disk m a (count - dn) (\<lambda>i. buf (dn + i)) s s'"
      by (rule wrote_trans [OF s1(2) _ kk(2)]) (use s'(2) in \<open>simp add: rest add.assoc\<close>)
    with s1(1) s'(1) show ?thesis by auto
  qed
qed simp

text \<open>Reading brings pages in; what anyone sees stays the same.\<close>

definition same_view :: "kconsts \<Rightarrow> (ptr \<Rightarrow> u32 \<Rightarrow> page) \<Rightarrow> kstate \<Rightarrow> kstate \<Rightarrow> bool" where
  "same_view K disk s s' \<longleftrightarrow> ready K s' \<and> mem_rest s' = mem_rest s \<and> shape s' = shape s \<and>
     (\<forall>os pn. chain s os \<longrightarrow> page_eq K (seen K disk s' os pn) (seen K disk s os pn))"

lemma same_view_refl: "ready K s \<Longrightarrow> same_view K disk s s"
  by (simp add: same_view_def)

lemma same_view_trans:
  assumes "same_view K disk s s1" "same_view K disk s1 s2"
  shows "same_view K disk s s2"
proof -
  have "chain s1 os = chain s os" for os using assms(1) by (intro chain_shape) (simp add: same_view_def)
  then have "page_eq K (seen K disk s2 os pn) (seen K disk s os pn)" if "chain s os" for os pn
    using assms that page_eq_trans [of K "seen K disk s2 os pn" "seen K disk s1 os pn" "seen K disk s os pn"]
    by (simp add: same_view_def)
  with assms show ?thesis by (simp add: same_view_def)
qed

lemma offset_small: "paging_ok K \<Longrightarrow> PAGE_OFFSET K a < PAGE_SIZE K"
  using unat_page(2) [of a] by (simp add: paging_ok_def word_less_nat_alt)

lemma same_view_ubyte:
  assumes K: "paging_ok K" and us: "user_space n K s m" and sv: "same_view K disk s s'"
  shows "ubyte n K disk s' m a = ubyte n K disk s m a"
proof -
  have f: "mem_rest s' = mem_rest s" "shape s' = shape s" using sv by (simp_all add: same_view_def)
  show ?thesis
    by (rule ubyte_eqI [OF us user_space_frame(1) [OF f] f(2)])
      (use sv offset_small [OF K, of a] in \<open>simp add: same_view_def page_eq_def del: seen.simps\<close>)
qed

lemma same_view_read_byte:
  assumes K: "paging_ok K" and us: "user_space n K s m" and sv: "same_view K disk s s'"
  shows "read_byte n K disk s' m a = read_byte n K disk s m a"
proof (cases "List.find (covers (ADDR_TO_PN K a)) (areas s m)")
  case None
  then show ?thesis using user_space_frame(1) [of s' s m] sv by (simp add: read_byte_def same_view_def)
next
  case (Some v)
  have f: "mem_rest s' = mem_rest s" "shape s' = shape s" using sv by (simp_all add: same_view_def)
  have "v \<in> set (areas s m)" using Some by (auto simp: find_Some_iff)
  then obtain obj os where o: "vma_obj v = Some obj" "layers n s obj = obj # os" "chain s (obj # os)"
    using us by (metis user_space_def plain_areaD)
  with sv offset_small [OF K, of a] have "seen K disk s' (obj # os) pn (PAGE_OFFSET K a) = seen K disk s (obj # os) pn (PAGE_OFFSET K a)" for pn
    by (simp add: same_view_def page_eq_def del: seen.simps)
  with Some o user_space_frame(1) [OF f] layers_shape [OF f(2)] show ?thesis by (simp add: read_byte_def del: seen.simps)
qed

definition filled :: "nat \<Rightarrow> kconsts \<Rightarrow> (ptr \<Rightarrow> u32 \<Rightarrow> page) \<Rightarrow> kstate \<Rightarrow> ptr \<Rightarrow> u32 \<Rightarrow> u32 \<Rightarrow> u32 \<Rightarrow> buffer \<Rightarrow> buffer \<Rightarrow> bool" where
  "filled n K disk s m a dn k buf buf' \<longleftrightarrow>
     (\<forall>i. if i - dn < k then Some (buf' i) = read_byte n K disk s m (a + (i - dn)) else buf' i = buf i)"

lemma filled_trans:
  assumes "filled n K disk s m a dn k buf buf1" "filled n K disk s m (a + k) (dn + k) (l - k) buf1 buf2" "k \<le> l"
  shows "filled n K disk s m a dn l buf buf2"
  unfolding filled_def
proof
  fix i
  have e: "i - (dn + k) = i - dn - k" "a + k + (i - dn - k) = a + (i - dn)" by simp_all
  have 2: "if i - dn - k < l - k then Some (buf2 i) = read_byte n K disk s m (a + (i - dn)) else buf2 i = buf1 i"
    using assms(2) unfolding filled_def by (metis e)
  have 1: "if i - dn < k then Some (buf1 i) = read_byte n K disk s m (a + (i - dn)) else buf1 i = buf i"
    using assms(1) unfolding filled_def by blast
  show "if i - dn < l then Some (buf2 i) = read_byte n K disk s m (a + (i - dn)) else buf2 i = buf i"
    using 1 2 piece_split [OF assms(3), of "i - dn"] by (auto split: if_splits)
qed

lemma lookup_found:
  assumes "space_ok K s m" "List.find (covers vfn) (areas s m) = Some a"
  shows "\<exists>v. vmmap_lookup (Some m) vfn s = Inr (Some v) \<and> vmareas s v = Some a"
proof -
  obtain v where v: "List.find (\<lambda>v. covers vfn (area s v)) (area_ptrs s m) = Some v" "a = area s v"
    using assms(2) by (auto simp: areas_def find_map comp_def)
  then have "v \<in> set (area_ptrs s m)" by (auto simp: find_Some_iff)
  with v vmmap_lookup_eq [OF assms(1), of vfn] space_okD(3) [OF assms(1)] show ?thesis by simp
qed

lemma read_step:
  assumes X: "mem_ok K X disk" and K: "paging_ok K" and us: "user_space n K s m" and rd: "ready K s"
    and lt: "dn < count" and mp: "mapped (areas s m) (ADDR_TO_PN K a) \<noteq> None"
    and k: "k = min_uint32 (count - dn) (PAGE_SIZE K - PAGE_OFFSET K a)"
  shows "\<exists>buf1 s1. read_loop (Suc f) n K X (Some m) a dn count buf s = read_loop f n K X (Some m) (a + k) (dn + k) count buf1 s1 \<and>
    same_view K disk s s1 \<and> filled n K disk s m a dn k buf buf1"
proof -
  let ?vfn = "ADDR_TO_PN K a"
  obtain mp' where mp': "mapped (areas s m) ?vfn = Some mp'" using mp by blast
  obtain obj os va where o: "List.find (covers ?vfn) (areas s m) = Some va" "vma_obj va = Some obj" "layers n s obj = obj # os"
      "chain s (obj # os)" "length (obj # os) \<le> n"
    by (rule user_space_mapped [OF us mp']) blast
  have sp: "space_ok K s m" using us by (simp add: user_space_def)
  obtain v where v: "vmmap_lookup (Some m) ?vfn s = Inr (Some v)" "vmareas s v = Some va"
    using lookup_found [OF sp o(1)] by blast
  define pn where "pn = ?vfn - (vma_start va + vma_off va)"
  obtain p fr s1 where p: "pframe_lookup n K X obj pn False s = Inr (0, Some p, s1)" "found K disk s (obj # os) pn p fr s1"
      "ready K s1" "mem_rest s1 = mem_rest s" "shape s1 = shape s"
      "\<forall>os' pn'. chain s os' \<longrightarrow> page_eq K (seen K disk s1 os' pn') (seen K disk s os' pn')"
    using page_lookup_ready [OF X rd o(4,5), of pn False] by blast
  have fr: "pframes s1 p = Some fr" "page_eq K (pf_data fr) (seen K disk s (obj # os) pn)" using p(2) by (simp_all add: found_def)
  let ?buf = "\<lambda>i. if i - dn < k then pf_data fr (PAGE_OFFSET K a + (i - dn)) else buf i"
  have "count - dn \<noteq> 0" using lt by auto
  note kk = min_piece [OF K this, of a, folded k]
  have "Some (?buf i) = read_byte n K disk s m (a + (i - dn))" if i: "i - dn < k" for i
  proof -
    have "unat (take_bit 12 a) + unat (i - dn) < 4096" using i kk(3) K by (simp add: paging_ok_def word_less_nat_alt)
    note pa = page_add [OF this]
    have "ADDR_TO_PN K (a + (i - dn)) = ?vfn" using pa(1) K by (simp add: paging_ok_def)
    then have "read_byte n K disk s m (a + (i - dn)) = Some (seen K disk s (obj # os) pn (PAGE_OFFSET K (a + (i - dn))))"
      using o(1-3) by (simp add: read_byte_def pn_def del: seen.simps)
    moreover have "PAGE_OFFSET K a + (i - dn) = PAGE_OFFSET K (a + (i - dn))" using pa(2) K by (simp add: paging_ok_def)
    ultimately show ?thesis using i fr(2) offset_small [OF K, of "a + (i - dn)"] by (simp add: page_eq_def del: seen.simps)
  qed
  then have "filled n K disk s m a dn k buf ?buf" by (simp add: filled_def)
  moreover have "same_view K disk s s1" using p by (simp add: same_view_def)
  moreover have "read_loop (Suc f) n K X (Some m) a dn count buf s = read_loop f n K X (Some m) (a + k) (dn + k) count ?buf s1"
    using lt v o(2) p(1) fr(1) k by (simp add: Let_def pn_def)
  ultimately show ?thesis by blast
qed

lemma read_loop_reads:
  assumes X: "mem_ok K X disk" and K: "paging_ok K"
  shows "user_space n K s m \<Longrightarrow> ready K s \<Longrightarrow> unat (count - dn) < f \<Longrightarrow> dn \<le> count \<Longrightarrow>
    \<forall>i. i < count - dn \<longrightarrow> mapped (areas s m) (ADDR_TO_PN K (a + i)) \<noteq> None \<Longrightarrow>
    \<exists>buf' s'. read_loop f n K X (Some m) a dn count buf s = Inr (buf', s') \<and>
      same_view K disk s s' \<and> filled n K disk s m a dn (count - dn) buf buf'"
proof (induction f arbitrary: s a dn buf)
  case (Suc f)
  show ?case
  proof (cases "dn < count")
    case False
    with Suc.prems(4) have "dn = count" by simp
    with same_view_refl [OF Suc.prems(2)] show ?thesis by (simp add: filled_def)
  next
    case True
    define k where "k = min_uint32 (count - dn) (PAGE_SIZE K - PAGE_OFFSET K a)"
    have nz: "count - dn \<noteq> 0" using True by auto
    note kk = min_piece [OF K nz, of a, folded k_def]
    have m0: "mapped (areas s m) (ADDR_TO_PN K a) \<noteq> None"
      using Suc.prems(5) nz spec [of "\<lambda>i. i < count - dn \<longrightarrow> mapped (areas s m) (ADDR_TO_PN K (a + i)) \<noteq> None" 0]
      by (simp add: word_gt_0)
    obtain buf1 s1 where s1: "read_loop (Suc f) n K X (Some m) a dn count buf s = read_loop f n K X (Some m) (a + k) (dn + k) count buf1 s1"
        "same_view K disk s s1" "filled n K disk s m a dn k buf buf1"
      using read_step [OF X K Suc.prems(1,2) True m0 k_def] by blast
    have fr: "ready K s1" "mem_rest s1 = mem_rest s" "shape s1 = shape s" using s1(2) by (simp_all add: same_view_def)
    have us: "user_space n K s1 m" using user_space_frame(2) [OF fr(2,3)] Suc.prems(1) by blast
    have rest: "count - (dn + k) = (count - dn) - k" by simp
    have le: "dn + k \<le> count" by (rule piece_end [OF Suc.prems(4) kk(2)])
    have mp: "\<forall>i. i < count - (dn + k) \<longrightarrow> mapped (areas s1 m) (ADDR_TO_PN K (a + k + i)) \<noteq> None"
      using Suc.prems(5) piece_shift [OF kk(2)] unfolding rest user_space_frame(1) [OF fr(2,3)] add.assoc by blast
    obtain buf' s' where s': "read_loop f n K X (Some m) (a + k) (dn + k) count buf1 s1 = Inr (buf', s')"
        "same_view K disk s1 s'" "filled n K disk s1 m (a + k) (dn + k) (count - (dn + k)) buf1 buf'"
      using Suc.IH [OF us fr(1) rest_shorter [OF kk(1,2) Suc.prems(3)] le mp] by blast
    have "filled n K disk s m (a + k) (dn + k) (count - dn - k) buf1 buf'"
      using s'(3) same_view_read_byte [OF K Suc.prems(1) s1(2)] by (simp add: filled_def rest)
    from filled_trans [OF s1(3) this kk(2)] same_view_trans [OF s1(2) s'(2)] s1(1) s'(1) show ?thesis by auto
  qed
qed simp

section \<open>Copying to and from a process\<close>

text \<open>The current process and its memory.\<close>

definition cur_space :: "nat \<Rightarrow> kconsts \<Rightarrow> kstate \<Rightarrow> ptr \<Rightarrow> bool" where
  "cur_space n K s m \<longleftrightarrow> ready K s \<and> user_space n K s m \<and>
     (case curproc s of None \<Rightarrow> False | Some c \<Rightarrow>
        (case procs s c of None \<Rightarrow> False | Some pr \<Rightarrow> p_vmmap pr = Some m))"

definition user_range :: "kconsts \<Rightarrow> kstate \<Rightarrow> ptr \<Rightarrow> u32 \<Rightarrow> u32 \<Rightarrow> bool" where
  "user_range K s m a len \<longleftrightarrow> unat len + 4096 \<le> 2 ^ 32 \<and>
     (\<forall>i. i < len \<longrightarrow> mapped (areas s m) (ADDR_TO_PN K (a + i)) \<noteq> None)"

lemma cur_space_proc:
  assumes "cur_space n K s m"
  obtains c pr where "cur_proc s = Inr (c, pr)" "p_vmmap pr = Some m" "space_ok K s m" "user_space n K s m" "ready K s"
  using assms by (auto simp: cur_space_def cur_proc_def user_space_def split: option.splits)

lemma cur_space_frame:
  assumes "cur_space n K s m" "mem_rest s' = mem_rest s" "shape s' = shape s" "ready K s'"
  shows "cur_space n K s' m"
  using assms mem_restD [OF assms(2)] user_space_frame(2) [OF assms(2,3)] by (auto simp: cur_space_def split: option.splits)

lemma range_perm_ok:
  assumes K: "paging_ok K" and sp: "space_ok K s m" "p_vmmap pr = Some m" and r: "user_range K s m a len"
  shows "range_perm K pr a len perm s = Inr True"
proof -
  have "mapped (areas s m) (ADDR_TO_PN K (a + of_nat (j * 4096))) \<noteq> None" if j: "j * 4096 < unat len" for j
  proof -
    have "of_nat (j * 4096) < len" using j le_unat_uoi [of "j * 4096" len] by (simp add: word_less_nat_alt)
    with r show ?thesis by (simp add: user_range_def)
  qed
  then show ?thesis using range_perm_steps [OF K sp, of len a perm] r by (simp add: user_range_def)
qed

lemma copy_to_user_writes:
  assumes X: "mem_ok K X disk" and K: "paging_ok K" and c: "cur_space n K s m" and r: "user_range K s m a len"
  shows "\<exists>s'. copy_to_user n K X a buf len s = Inr (0, s') \<and> wrote n K disk m a len buf s s'"
proof -
  obtain q pr where p: "cur_proc s = Inr (q, pr)" "p_vmmap pr = Some m" "space_ok K s m" "user_space n K s m" "ready K s"
    by (rule cur_space_proc [OF c])
  obtain s' where "write_loop (Suc (unat len)) n K X (Some m) a 0 len buf s = Inr s'" "wrote n K disk m a len buf s s'"
    using write_loop_writes [OF X K p(4,5), of len 0 "Suc (unat len)" a buf] r by (auto simp: user_range_def)
  with p range_perm_ok [OF K p(3,2) r] show ?thesis by (simp add: copy_to_user_def vmmap_write_def)
qed

lemma copy_from_user_reads:
  assumes X: "mem_ok K X disk" and K: "paging_ok K" and c: "cur_space n K s m" and r: "user_range K s m a len"
  shows "\<exists>buf' s'. copy_from_user n K X buf a len s = Inr (0, buf', s') \<and> same_view K disk s s' \<and>
    (\<forall>i. if i < len then Some (buf' i) = read_byte n K disk s m (a + i) else buf' i = buf i)"
proof -
  obtain q pr where p: "cur_proc s = Inr (q, pr)" "p_vmmap pr = Some m" "space_ok K s m" "user_space n K s m" "ready K s"
    by (rule cur_space_proc [OF c])
  obtain buf' s' where "read_loop (Suc (unat len)) n K X (Some m) a 0 len buf s = Inr (buf', s')" "same_view K disk s s'"
      "filled n K disk s m a 0 len buf buf'"
    using read_loop_reads [OF X K p(4,5), of len 0 "Suc (unat len)" a buf] r by (auto simp: user_range_def)
  with p range_perm_ok [OF K p(3,2) r] show ?thesis by (simp add: copy_from_user_def vmmap_read_def filled_def)
qed

text \<open>Address spaces that only share what neither writes to.\<close>

definition separate :: "nat \<Rightarrow> kstate \<Rightarrow> ptr \<Rightarrow> ptr \<Rightarrow> bool" where
  "separate n s m m' \<longleftrightarrow> (\<forall>obj\<in>top_objs s m'. top_objs s m \<inter> set (layers n s obj) = {})"

lemma wrote_separate:
  assumes K: "paging_ok K" and w: "wrote n K disk m a len buf s s'" and us: "user_space n K s m'" and sep: "separate n s m m'"
  shows "ubyte n K disk s' m' b = ubyte n K disk s m' b"
proof -
  have f: "mem_rest s' = mem_rest s" "shape s' = shape s" using w by (simp_all add: wrote_def)
  have "seen K disk s' (obj # os) pn (PAGE_OFFSET K b) = seen K disk s (obj # os) pn (PAGE_OFFSET K b)"
    if mp: "mapped (areas s m') (ADDR_TO_PN K b) = Some (Some obj, pn, r)" and l: "layers n s obj = obj # os" "chain s (obj # os)"
    for obj os pn r
  proof -
    have "obj \<in> top_objs s m'" by (rule user_space_mapped [OF us mp]) auto
    with sep l(1) have "top_objs s m \<inter> set (obj # os) = {}" unfolding separate_def by (metis)
    with w l(2) offset_small [OF K, of b] show ?thesis unfolding wrote_def page_eq_def by blast
  qed
  then show ?thesis by (intro ubyte_eqI [OF us user_space_frame(1) [OF f] f(2)]) blast
qed

section \<open>The memory of a process as an array of bytes\<close>

text \<open>
  The interface that the system calls rely on: \<open>put\<close> and \<open>get\<close> on ranges
  that are mapped, over a state that is only seen through \<open>view\<close>.
  \<open>overlay\<close> is the array after a sequence of writes, the last one first in
  rank.
\<close>

type_synonym uwrite = "u32 \<times> buffer \<times> u32"

fun overlay :: "uwrite list \<Rightarrow> (u32 \<Rightarrow> 8 word option) \<Rightarrow> u32 \<Rightarrow> 8 word option" where
  "overlay [] f b = f b"
| "overlay ((a, buf, len) # ws) f b = overlay ws (\<lambda>b. if b - a < len then Some (buf (b - a)) else f b) b"

fun put_all :: "(u32 \<Rightarrow> buffer \<Rightarrow> u32 \<Rightarrow> 's \<Rightarrow> (int \<times> 's) res) \<Rightarrow> uwrite list \<Rightarrow> 's \<Rightarrow> (int list \<times> 's) res" where
  "put_all put [] s = Inr ([], s)"
| "put_all put ((a, buf, len) # ws) s =
     bindE (put a buf len s) (\<lambda>(err, s1). bindE (put_all put ws s1) (\<lambda>(errs, s2). Inr (err # errs, s2)))"

locale byte_memory =
  fixes good :: "'s \<Rightarrow> bool"
    and view :: "'s \<Rightarrow> u32 \<Rightarrow> 8 word option"
    and valid :: "'s \<Rightarrow> u32 \<Rightarrow> u32 \<Rightarrow> bool"
    and put :: "u32 \<Rightarrow> buffer \<Rightarrow> u32 \<Rightarrow> 's \<Rightarrow> (int \<times> 's) res"
    and get :: "buffer \<Rightarrow> u32 \<Rightarrow> u32 \<Rightarrow> 's \<Rightarrow> (int \<times> buffer \<times> 's) res"
  assumes put_valid: "good s \<Longrightarrow> valid s a len \<Longrightarrow>
      \<exists>s'. put a buf len s = Inr (0, s') \<and> good s' \<and> valid s' = valid s \<and>
           (\<forall>b. view s' b = (if b - a < len then Some (buf (b - a)) else view s b))"
    and get_valid: "good s \<Longrightarrow> valid s a len \<Longrightarrow>
      \<exists>got s'. get old a len s = Inr (0, got, s') \<and> good s' \<and> valid s' = valid s \<and> view s' = view s \<and>
           (\<forall>i. if i < len then Some (got i) = view s (a + i) else got i = old i)"
begin

lemma put_all_overlay:
  assumes "good s" and "\<forall>(a, buf, len)\<in>set ws. valid s a len"
  shows "\<exists>s'. put_all put ws s = Inr (replicate (length ws) 0, s') \<and> good s' \<and> valid s' = valid s \<and> view s' = overlay ws (view s)"
  using assms
proof (induction ws arbitrary: s)
  case Nil
  then show ?case by (auto simp: fun_eq_iff)
next
  case (Cons w ws)
  obtain a buf len where w: "w = (a, buf, len)" by (cases w)
  then obtain s1 where s1: "put a buf len s = Inr (0, s1)" "good s1" "valid s1 = valid s"
      "\<forall>b. view s1 b = (if b - a < len then Some (buf (b - a)) else view s b)"
    using put_valid [of s a len buf] Cons.prems by auto
  then have v: "view s1 = (\<lambda>b. if b - a < len then Some (buf (b - a)) else view s b)" by blast
  from Cons.IH [of s1] s1(2,3) Cons.prems obtain s' where "put_all put ws s1 = Inr (replicate (length ws) 0, s')" "good s'" "valid s' = valid s" "view s' = overlay ws (view s1)"
    by auto
  then show ?case using w s1(1) v by (intro exI [of _ s']) (simp add: fun_eq_iff)
qed

lemma reads_last_write:
  assumes "good s" and "\<forall>(a, buf, len)\<in>set ws. valid s a len" and "valid s a len"
  shows "\<exists>s1 got s2. put_all put ws s = Inr (replicate (length ws) 0, s1) \<and> get old a len s1 = Inr (0, got, s2) \<and> view s2 = overlay ws (view s) \<and>
    (\<forall>i. if i < len then Some (got i) = overlay ws (view s) (a + i) else got i = old i)"
proof -
  obtain s1 where s1: "put_all put ws s = Inr (replicate (length ws) 0, s1)" "good s1" "valid s1 = valid s" "view s1 = overlay ws (view s)"
    using put_all_overlay [OF assms(1,2)] by blast
  then obtain got s2 where "get old a len s1 = Inr (0, got, s2)" "view s2 = overlay ws (view s)"
      "\<forall>i. if i < len then Some (got i) = overlay ws (view s) (a + i) else got i = old i"
    using get_valid [of s1 a len old] assms(3) by auto
  with s1(1) show ?thesis by blast
qed

lemma put_get:
  assumes "good s" and "valid s a len"
  shows "\<exists>s1 got s2. put a buf len s = Inr (0, s1) \<and> get old a len s1 = Inr (0, got, s2) \<and> (\<forall>i. got i = (if i < len then buf i else old i))"
proof -
  obtain s1 where s1: "put a buf len s = Inr (0, s1)" "good s1" "valid s1 = valid s"
      "\<forall>b. view s1 b = (if b - a < len then Some (buf (b - a)) else view s b)"
    using put_valid [OF assms] by blast
  then obtain got s2 where g: "get old a len s1 = Inr (0, got, s2)" "\<forall>i. if i < len then Some (got i) = view s1 (a + i) else got i = old i"
    using get_valid [of s1 a len old] assms(2) by auto
  have "got i = (if i < len then buf i else old i)" for i using g(2) [rule_format, of i] s1(4) by (simp split: if_splits)
  with s1(1) g(1) show ?thesis by blast
qed

end

interpretation um: byte_memory "\<lambda>s. mem_ok K X disk \<and> paging_ok K \<and> cur_space n K s m \<and> from_start s m" "\<lambda>s. ubyte n K disk s m" "\<lambda>s. user_range K s m"
    "copy_to_user n K X" "copy_from_user n K X" for K X disk n m
proof unfold_locales
  fix s a len buf
  assume g: "mem_ok K X disk \<and> paging_ok K \<and> cur_space n K s m \<and> from_start s m" and v: "user_range K s m a len"
  then obtain s' where s': "copy_to_user n K X a buf len s = Inr (0, s')" "wrote n K disk m a len buf s s'"
    using copy_to_user_writes by blast
  then have f: "ready K s'" "mem_rest s' = mem_rest s" "shape s' = shape s" by (simp_all add: wrote_def)
  have "user_range K s' m = user_range K s m" using user_space_frame(1) [OF f(2,3)] by (simp add: user_range_def fun_eq_iff)
  moreover have "from_start s' m" using g user_space_frame(1) [OF f(2,3)] by (simp add: from_start_def)
  moreover have "cur_space n K s' m" by (rule cur_space_frame [OF _ f(2,3,1)]) (use g in simp)
  ultimately show "\<exists>s'. copy_to_user n K X a buf len s = Inr (0, s') \<and> (mem_ok K X disk \<and> paging_ok K \<and> cur_space n K s' m \<and> from_start s' m) \<and>
      user_range K s' m = user_range K s m \<and>
      (\<forall>b. ubyte n K disk s' m b = (if b - a < len then Some (buf (b - a)) else ubyte n K disk s m b))"
    using g s' by (auto simp: wrote_def)
next
  fix s a len old
  assume g: "mem_ok K X disk \<and> paging_ok K \<and> cur_space n K s m \<and> from_start s m" and v: "user_range K s m a len"
  then obtain got s' where s': "copy_from_user n K X old a len s = Inr (0, got, s')" "same_view K disk s s'"
      "\<forall>i. if i < len then Some (got i) = ubyte n K disk s m (a + i) else got i = old i"
    using copy_from_user_reads [of K X disk n s m a len old] read_byte_from_start [of s m n K disk] by auto
  then have f: "ready K s'" "mem_rest s' = mem_rest s" "shape s' = shape s" by (simp_all add: same_view_def)
  have "user_range K s' m = user_range K s m" using user_space_frame(1) [OF f(2,3)] by (simp add: user_range_def fun_eq_iff)
  moreover have "from_start s' m" using g user_space_frame(1) [OF f(2,3)] by (simp add: from_start_def)
  moreover have "cur_space n K s' m" by (rule cur_space_frame [OF _ f(2,3,1)]) (use g in simp)
  moreover have "ubyte n K disk s' m = ubyte n K disk s m" using same_view_ubyte [OF _ _ s'(2)] g by (auto simp: cur_space_def)
  ultimately show "\<exists>got s'. copy_from_user n K X old a len s = Inr (0, got, s') \<and> (mem_ok K X disk \<and> paging_ok K \<and> cur_space n K s' m \<and> from_start s' m) \<and>
      user_range K s' m = user_range K s m \<and> ubyte n K disk s' m = ubyte n K disk s m \<and>
      (\<forall>i. if i < len then Some (got i) = ubyte n K disk s m (a + i) else got i = old i)"
    using g s' by blast
qed

text \<open>Two processes whose memory is a private copy of the same page.\<close>

definition demo_pair :: kstate where
  "demo_pair = demo_space\<lparr>vmmaps := [4 \<mapsto> \<lparr>vmm_list = [11], vmm_proc = Some 4\<rparr>, 5 \<mapsto> \<lparr>vmm_list = [12], vmm_proc = None\<rparr>],
     vmareas := [11 \<mapsto> demo_area 0x500 0x510 2, 12 \<mapsto> (demo_area 0x500 0x520 3)\<lparr>vma_vmmap := Some 5\<rparr>]\<rparr>"

lemma demo_pair_areas:
  "area_ptrs demo_pair 4 = [11]" "areas demo_pair 4 = [demo_area 0x500 0x510 2]"
  "area_ptrs demo_pair 5 = [12]" "areas demo_pair 5 = [(demo_area 0x500 0x520 3)\<lparr>vma_vmmap := Some 5\<rparr>]"
  by (simp_all add: area_ptrs_def areas_def area_def demo_pair_def)

lemma demo_pair_layers: "layers 2 demo_pair 2 = [2, 1]" "layers 2 demo_pair 3 = [3, 1]"
    "chain demo_pair [2, 1]" "chain demo_pair [3, 1]"
  by (simp_all add: numeral_2_eq_2 demo_pair_def demo_space_def two_shadows_def demo_obj_def)

lemma demo_pair_tops: "top_objs demo_pair 4 = {2}" "top_objs demo_pair 5 = {3}"
  by (auto simp: top_objs_def demo_pair_areas demo_area_def)

lemma demo_pair_user: "user_space 2 i386 demo_pair 4" "user_space 2 i386 demo_pair 5"
proof -
  have ops: "(case mmobjs demo_pair obj of Some ob \<Rightarrow> mmo_ops ob \<noteq> Other_ops | None \<Rightarrow> False)" if "obj = 2 \<or> obj = 3" for obj
    using that by (auto simp: demo_pair_def demo_space_def two_shadows_def demo_obj_def)
  have "space_ok i386 demo_pair 4" "space_ok i386 demo_pair 5"
    by (simp_all add: space_ok_def demo_pair_areas wf_areas_def wf_area_def)
      (simp_all add: area_def demo_pair_def demo_area_def i386_def)
  moreover have "\<forall>v\<in>set (areas demo_pair 4). plain_area 2 demo_pair v" "\<forall>v\<in>set (areas demo_pair 5). plain_area 2 demo_pair v"
    using ops demo_pair_layers by (simp_all add: demo_pair_areas plain_area_def demo_area_def del: layers.simps chain.simps)
  ultimately show "user_space 2 i386 demo_pair 4" "user_space 2 i386 demo_pair 5"
    unfolding user_space_def demo_pair_tops by (simp_all add: demo_pair_layers demo_pair_areas del: layers.simps)
qed

lemma demo_pair_cur: "cur_space 2 i386 demo_pair 4"
proof -
  have "pf_inv i386 demo_pair" by (rule pf_inv_cong [OF two_shadows_inv]) (simp_all add: demo_pair_def demo_space_def)
  then have "ready i386 demo_pair"
    using two_shadows_quiet by (simp add: ready_def no_waiters_def quiet_def demo_pair_def demo_space_def)
  then show ?thesis
    using demo_pair_user(1) by (simp add: cur_space_def demo_pair_def demo_space_def demo_proc_def)
qed

lemma demo_pair_start: "from_start demo_pair 4"
  by (simp add: from_start_def demo_pair_areas demo_area_def)

lemma demo_pair_separate: "separate 2 demo_pair 4 5"
  by (simp add: separate_def demo_pair_tops demo_pair_layers del: layers.simps)

lemma demo_pair_range: "user_range i386 demo_pair 4 0x500F00 0x300"
proof -
  have "0x500 \<le> drop_bit 12 (0x500F00 + i) \<and> drop_bit 12 (0x500F00 + i) < 0x510" if i: "i < 0x300" for i :: u32
  proof -
    have "unat i < 0x300" using i by (simp add: word_less_nat_alt)
    then have "unat (0x500F00 + i) = 0x500F00 + unat i" using unat_add_small [of "0x500F00" "unat i"] by simp
    moreover have "0x500 \<le> (0x500F00 + unat i) div 4096" "(0x500F00 + unat i) div 4096 < 0x510" using \<open>unat i < 0x300\<close> by simp_all
    ultimately show ?thesis by (simp add: word_le_nat_alt word_less_nat_alt unat_page)
  qed
  then show ?thesis
    by (simp add: user_range_def demo_pair_areas mapped_Cons covers_def demo_area_def i386_def)
qed

text \<open>C8: what the kernel copies to the current process it can copy back unchanged, provided that the areas of the
  process map their objects from the start.  The memory of the process is anonymous or private, with one object for each
  area, and every \<^verbatim>\<open>vma_off\<close> is 0; then for every range of addresses that is mapped, across as many pages as it
  has, both copies end and succeed, and the bytes that come back are the ones that were sent; behind the range the
  kernel's buffer keeps what it held.  For an area with another offset this fails, as \<open>copy_from_user_offset\<close> shows:
  \<^verbatim>\<open>vmmap_read\<close> reads another page than \<^verbatim>\<open>vmmap_write\<close> writes.\<close>

theorem copy_to_user_roundtrip:
  assumes "mem_ok K X disk" and "paging_ok K" and "cur_space n K s m" and "from_start s m" and "user_range K s m a len"
  shows "\<exists>s1 buf' s2. copy_to_user n K X a buf len s = Inr (0, s1) \<and>
    copy_from_user n K X old a len s1 = Inr (0, buf', s2) \<and>
    (\<forall>i. buf' i = (if i < len then buf i else old i))"
  using um.put_get [where K = K and X = X and disk = disk and n = n and m = m and s = s and a = a and len = len and buf = buf and old = old] assms by simp

theorem copy_to_user_roundtrip_witness:
  "\<exists>s1 buf' s2. copy_to_user 2 i386 demo_ext 0x500F00 (\<lambda>i. ucast i) 0x300 demo_pair = Inr (0, s1) \<and>
     copy_from_user 2 i386 demo_ext (\<lambda>_. 0) 0x500F00 0x300 s1 = Inr (0, buf', s2) \<and>
     buf' 0x17 = 0x17 \<and> buf' 0x2FF = 0xFF \<and> buf' 0x300 = 0"
  using copy_to_user_roundtrip [OF demo_mem_ok i386_paging demo_pair_cur demo_pair_start demo_pair_range, of "\<lambda>i. ucast i" "\<lambda>_. 0"]
  by force

text \<open>C7: the memory of a process whose areas map their objects from the start is an array of bytes.  The memory is anonymous
  or private, with one object for each area, and every \<^verbatim>\<open>vma_off\<close> is 0, the only offset with which
  \<^verbatim>\<open>vmmap_read\<close> and \<^verbatim>\<open>vmmap_write\<close> use the same pages.  Then after any sequence of copies to mapped
  ranges, which may overlap, all of which succeed, copying a range back gives for each byte what the last copy that reached
  it wrote there, and what was there before where none did.\<close>

theorem user_memory_array:
  assumes "mem_ok K X disk" and "paging_ok K" and "cur_space n K s m" and "from_start s m" and "\<forall>(a, buf, len)\<in>set ws. user_range K s m a len"
    and "user_range K s m a len"
  shows "\<exists>s1 got s2. put_all (copy_to_user n K X) ws s = Inr (replicate (length ws) 0, s1) \<and>
    copy_from_user n K X old a len s1 = Inr (0, got, s2) \<and> ubyte n K disk s2 m = overlay ws (ubyte n K disk s m) \<and>
    (\<forall>i. if i < len then Some (got i) = overlay ws (ubyte n K disk s m) (a + i) else got i = old i)"
  using um.reads_last_write [where K = K and X = X and disk = disk and n = n and m = m and s = s and ws = ws and a = a and len = len and old = old] assms
  by simp

theorem user_memory_array_witness:
  "\<exists>s1 got s2. put_all (copy_to_user 2 i386 demo_ext) [(0x500F00, (\<lambda>_. 7), 0x300), (0x500F80, (\<lambda>_. 9), 0x100)] demo_pair = Inr ([0, 0], s1) \<and>
     copy_from_user 2 i386 demo_ext (\<lambda>_. 0) 0x500F00 0x300 s1 = Inr (0, got, s2) \<and> got 0x7F = 7 \<and> got 0x80 = 9 \<and> got 0x180 = 7 \<and> got 0x300 = 0"
proof -
  let ?ws = "[(0x500F00, (\<lambda>_. 7), 0x300), (0x500F80, (\<lambda>_. 9), 0x100)] :: uwrite list"
  have "user_range i386 demo_pair 4 0x500F80 0x100" unfolding user_range_def
  proof (intro conjI allI impI)
    fix i :: u32 assume "i < 0x100"
    then have "0x80 + i < 0x300" by (simp add: word_less_nat_alt unat_word_ariths)
    then have "mapped (areas demo_pair 4) (ADDR_TO_PN i386 (0x500F00 + (0x80 + i))) \<noteq> None"
      using demo_pair_range unfolding user_range_def by blast
    then show "mapped (areas demo_pair 4) (ADDR_TO_PN i386 (0x500F80 + i)) \<noteq> None" by (simp add: add.assoc [symmetric])
  qed simp
  then have "\<forall>(a, buf, len)\<in>set ?ws. user_range i386 demo_pair 4 a len" using demo_pair_range by simp
  from user_memory_array [OF demo_mem_ok i386_paging demo_pair_cur demo_pair_start this demo_pair_range, of "\<lambda>_. 0"]
  obtain s1 got s2 where r: "put_all (copy_to_user 2 i386 demo_ext) ?ws demo_pair = Inr ([0, 0], s1)"
      "copy_from_user 2 i386 demo_ext (\<lambda>_. 0) 0x500F00 0x300 s1 = Inr (0, got, s2)"
    and g: "\<forall>i. if i < 0x300 then Some (got i) = overlay ?ws (ubyte 2 i386 demo_disk demo_pair 4) (0x500F00 + i) else got i = 0"
    by (auto simp: numeral_2_eq_2)
  have "got 0x7F = 7" "got 0x80 = 9" "got 0x180 = 7" "got 0x300 = 0"
    using g [rule_format, of "0x7F"] g [rule_format, of "0x80"] g [rule_format, of "0x180"] g [rule_format, of "0x300"] by simp_all
  with r show ?thesis by blast
qed

text \<open>C1: copying to a process whose memory is anonymous or private, with one object for each area and any offsets,
  changes the memory of that process in the given range and nowhere else.  It leaves alone the memory of every other such
  process that maps none of the objects the writer maps, also where both are private copies of the same page.  A process
  that maps an object of the writer itself, as after a fork with \<^verbatim>\<open>MAP_SHARED\<close>, is meant to see the
  change and is excluded by \<open>separate\<close>.  The views are the bytes seen through the areas and the chains of objects
  behind them.\<close>

theorem copy_to_user_exact:
  assumes "mem_ok K X disk" and "paging_ok K" and "cur_space n K s m" and "user_range K s m a len"
  shows "\<exists>s'. copy_to_user n K X a buf len s = Inr (0, s') \<and> cur_space n K s' m \<and>
    (\<forall>b. ubyte n K disk s' m b = (if b - a < len then Some (buf (b - a)) else ubyte n K disk s m b)) \<and>
    (\<forall>m' b. user_space n K s m' \<longrightarrow> separate n s m m' \<longrightarrow> ubyte n K disk s' m' b = ubyte n K disk s m' b)"
proof -
  obtain s' where s': "copy_to_user n K X a buf len s = Inr (0, s')" "wrote n K disk m a len buf s s'"
    using copy_to_user_writes [OF assms] by blast
  then have "cur_space n K s' m" using cur_space_frame [OF assms(3), of s'] by (simp add: wrote_def)
  with s' wrote_separate [OF assms(2) s'(2)] show ?thesis by (auto simp: wrote_def)
qed

theorem copy_to_user_exact_witness:
  "\<exists>s'. copy_to_user 2 i386 demo_ext 0x500F00 (\<lambda>i. ucast i) 0x300 demo_pair = Inr (0, s') \<and>
     ubyte 2 i386 demo_disk s' 4 0x500F17 = Some 0x17 \<and>
     ubyte 2 i386 demo_disk s' 4 0x500E17 = Some 5 \<and> ubyte 2 i386 demo_disk s' 5 0x500F17 = Some 5"
proof -
  have "page_of i386 demo_pair 2 0 = None" "page_of i386 demo_pair 3 0 = None" "page_of i386 demo_pair 1 0 = Some 7"
    by (simp_all add: page_of_def hash_page_def i386_def demo_pair_def demo_space_def two_shadows_defs)
  then have sn: "seen i386 demo_disk demo_pair [2, 1] 0 i = 5" "seen i386 demo_disk demo_pair [3, 1] 0 i = 5" for i
    by (simp_all add: frame_data_def demo_pair_def demo_space_def two_shadows_defs)
  have "ubyte 2 i386 demo_disk demo_pair 4 0x500E17 = Some 5" "ubyte 2 i386 demo_disk demo_pair 5 0x500F17 = Some 5"
    using sn by (simp_all add: ubyte_def demo_pair_areas mapped_Cons covers_def demo_area_def page_map_def i386_def
        demo_pair_layers del: layers.simps seen.simps)
  moreover obtain s' where "copy_to_user 2 i386 demo_ext 0x500F00 (\<lambda>i. ucast i) 0x300 demo_pair = Inr (0, s')"
      "\<forall>b. ubyte 2 i386 demo_disk s' 4 b = (if b - 0x500F00 < 0x300 then Some (ucast (b - 0x500F00)) else ubyte 2 i386 demo_disk demo_pair 4 b)"
      "\<forall>b. ubyte 2 i386 demo_disk s' 5 b = ubyte 2 i386 demo_disk demo_pair 5 b"
    using copy_to_user_exact [OF demo_mem_ok i386_paging demo_pair_cur demo_pair_range, of "\<lambda>i. ucast i"]
      demo_pair_user(2) demo_pair_separate by blast
  ultimately show ?thesis by (intro exI [of _ s']) simp
qed

text \<open>C15: checking a range ends and is exact for a range that starts on a page boundary: it accepts
  when the page of every byte of the range is mapped, and refuses otherwise.  The counter does not wrap,
  and no page inside the range is skipped.  The protection that the caller asks for plays no role.\<close>

theorem range_perm_exact:
  assumes "paging_ok K" and "space_ok K s m" and "p_vmmap p = Some m" and "unat len + 4096 \<le> 2 ^ 32"
    and "take_bit 12 a = 0" and "unat a + unat len \<le> 2 ^ 32"
  shows "range_perm K p a len perm s =
    Inr (\<forall>i. i < len \<longrightarrow> mapped (areas s m) (ADDR_TO_PN K (a + i)) \<noteq> None)"
  using range_perm_aligned [OF assms] by (simp add: word_less_nat_alt)

theorem range_perm_exact_witness:
  "range_perm i386 demo_proc 0x50F000 0x1000 3 demo_pair = Inr True \<and>
   range_perm i386 demo_proc 0x50F000 0x1001 3 demo_pair = Inr False"
proof -
  have mp: "mapped (areas demo_pair 4) (ADDR_TO_PN i386 (0x50F000 + i)) \<noteq> None \<longleftrightarrow> i < 0x1000" if "i < 0x1001" for i :: u32
  proof -
    have i: "unat i < 0x1001" using that by (simp add: word_less_nat_alt)
    then have "unat (0x50F000 + i) = 0x50F000 + unat i" using unat_add_small [of "0x50F000" "unat i"] by simp
    then have "drop_bit 12 (0x50F000 + i) < 0x510 \<longleftrightarrow> i < 0x1000" "0x500 \<le> drop_bit 12 (0x50F000 + i)"
      using i by (auto simp: word_le_nat_alt word_less_nat_alt unat_page div_less_iff_less_mult)
    then show ?thesis by (simp add: demo_pair_areas mapped_Cons covers_def demo_area_def page_map_def i386_def)
  qed
  have ok: "space_ok i386 demo_pair 4" "p_vmmap demo_proc = Some 4" "take_bit 12 (0x50F000 :: u32) = 0"
    using demo_pair_user(1) by (simp_all add: user_space_def demo_proc_def)
  have "i < 0x1001" if "i < 0x1000" for i :: u32 using that by (simp add: word_less_nat_alt)
  with mp have "\<forall>i. i < 0x1000 \<longrightarrow> mapped (areas demo_pair 4) (ADDR_TO_PN i386 (0x50F000 + i)) \<noteq> None" by blast
  moreover have "\<not> (\<forall>i. i < 0x1001 \<longrightarrow> mapped (areas demo_pair 4) (ADDR_TO_PN i386 (0x50F000 + i)) \<noteq> None)"
    using mp [of "0x1000"] by (auto intro!: exI [of _ "0x1000"])
  ultimately show ?thesis
    using range_perm_exact [OF i386_paging ok(1,2) _ ok(3), of "0x1000" 3] range_perm_exact [OF i386_paging ok(1,2) _ ok(3), of "0x1001" 3]
    by simp
qed

text \<open>
  A range that does not start on a page boundary may reach one page further than
  the check looks.  The copy then dereferences the null pointer that the lookup
  of the last page gives.
\<close>

lemma copy_from_user_unaligned:
  "range_perm i386 demo_proc 0x50FF00 0x200 3 demo_pair = Inr True"
  "copy_from_user 2 i386 demo_ext buf 0x50FF00 0x200 demo_pair = Inl Null_deref"
proof -
  have ok: "space_ok i386 demo_pair 4" "p_vmmap demo_proc = Some 4" "user_space 2 i386 demo_pair 4" "ready i386 demo_pair"
    using demo_pair_user(1) demo_pair_cur by (simp_all add: user_space_def demo_proc_def cur_space_def)
  have mp: "mapped (areas demo_pair 4) (ADDR_TO_PN i386 0x50FF00) \<noteq> None" "mapped (areas demo_pair 4) (ADDR_TO_PN i386 0x510000) = None"
    by (simp_all add: demo_pair_areas mapped_Cons covers_def demo_area_def i386_def)
  have rp: "range_perm i386 demo_proc 0x50FF00 0x200 perm demo_pair = Inr True" for perm
  proof -
    have "j = 0" if "j * 4096 < (512 :: nat)" for j using that by (cases j) auto
    then show ?thesis unfolding range_perm_steps [OF i386_paging ok(1,2), of "0x200", simplified] using mp(1) by auto
  qed
  then show "range_perm i386 demo_proc 0x50FF00 0x200 3 demo_pair = Inr True" .
  have k: "(0x100 :: u32) = min_uint32 (0x200 - 0) (PAGE_SIZE i386 - PAGE_OFFSET i386 0x50FF00)"
    by (simp add: min_uint32_def i386_def)
  obtain buf1 s1 where s1: "read_loop (Suc (Suc 511)) 2 i386 demo_ext (Some 4) 0x50FF00 0 0x200 buf demo_pair =
      read_loop (Suc 511) 2 i386 demo_ext (Some 4) (0x50FF00 + 0x100) (0 + 0x100) 0x200 buf1 s1" "same_view i386 demo_disk demo_pair s1"
    using read_step [OF demo_mem_ok i386_paging ok(3,4) _ mp(1) k, of "Suc 511" buf] by auto
  have f: "mem_rest s1 = mem_rest demo_pair" "shape s1 = shape demo_pair" using s1(2) by (simp_all add: same_view_def)
  have "vmmap_lookup (Some 4) (ADDR_TO_PN i386 0x510000) s1 = Inr None"
  proof (rule lookup_unmapped)
    have "user_space 2 i386 s1 4" using user_space_frame(2) [OF f] ok(3) by blast
    then show "space_ok i386 s1 4" by (simp add: user_space_def)
    show "mapped (areas s1 4) (ADDR_TO_PN i386 0x510000) = None" using mp(2) user_space_frame(1) [OF f] by simp
  qed
  then have "read_loop (Suc 511) 2 i386 demo_ext (Some 4) (0x50FF00 + 0x100) (0 + 0x100) 0x200 buf1 s1 = Inl Null_deref"
    unfolding read_loop.simps by (simp add: Let_def)
  with s1(1) have "read_loop (Suc (Suc 511)) 2 i386 demo_ext (Some 4) 0x50FF00 0 0x200 buf demo_pair = Inl Null_deref"
    by (simp only:)
  moreover have "Suc (unat (0x200 :: u32)) = Suc (Suc 511)" by simp
  moreover have "cur_proc demo_pair = Inr (4, demo_proc)" by (simp add: cur_proc_def demo_pair_def demo_space_def)
  ultimately show "copy_from_user 2 i386 demo_ext buf 0x50FF00 0x200 demo_pair = Inl Null_deref"
    using rp ok(2) by (simp add: copy_from_user_def vmmap_read_def del: read_loop.simps)
qed

text \<open>
  In an area that maps its object from an offset, a copy back reads the pages that lie
  two offsets further down, and so it misses what has just been written.
\<close>

lemma copy_from_user_offset:
  assumes "mem_ok K X disk" and "paging_ok K" and "cur_space n K s m" and "user_range K s m a len"
    and v: "\<forall>i. i < len \<longrightarrow> List.find (covers (ADDR_TO_PN K (a + i))) (areas s m) = Some v \<and>
      List.find (covers (ADDR_TO_PN K (b + i))) (areas s m) = Some v \<and>
      ADDR_TO_PN K (b + i) = ADDR_TO_PN K (a + i) - 2 * vma_off v \<and> PAGE_OFFSET K (b + i) = PAGE_OFFSET K (a + i) \<and> \<not> b + i - a < len"
  shows "\<exists>s1 buf' s2. copy_to_user n K X a buf len s = Inr (0, s1) \<and> copy_from_user n K X old a len s1 = Inr (0, buf', s2) \<and>
    (\<forall>i. i < len \<longrightarrow> Some (buf' i) = ubyte n K disk s m (b + i))"
proof -
  obtain s1 where s1: "copy_to_user n K X a buf len s = Inr (0, s1)" "wrote n K disk m a len buf s s1"
    using copy_to_user_writes [OF assms(1-4)] by blast
  then have f: "ready K s1" "mem_rest s1 = mem_rest s" "shape s1 = shape s"
    and w: "\<And>c. ubyte n K disk s1 m c = (if c - a < len then Some (buf (c - a)) else ubyte n K disk s m c)" by (simp_all add: wrote_def)
  note ar = user_space_frame(1) [OF f(2,3)]
  have "user_range K s1 m a len" using assms(4) ar by (simp add: user_range_def)
  then obtain buf' s2 where s2: "copy_from_user n K X old a len s1 = Inr (0, buf', s2)"
      "\<forall>i. if i < len then Some (buf' i) = read_byte n K disk s1 m (a + i) else buf' i = old i"
    using copy_from_user_reads [OF assms(1,2) cur_space_frame [OF assms(3) f(2,3,1)]] by blast
  have "Some (buf' i) = ubyte n K disk s m (b + i)" if i: "i < len" for i
    using s2(2) i v w [of "b + i"] read_byte_shift [of K "a + i" s1 m v "b + i" n disk] ar by auto
  with s1(1) s2(1) show ?thesis by blast
qed

definition demo_offset :: kstate where
  "demo_offset = demo_pair\<lparr>vmareas := (vmareas demo_pair)(11 \<mapsto> (demo_area 0x500 0x510 2)\<lparr>vma_off := 1\<rparr>)\<rparr>"

lemma demo_offset_areas: "area_ptrs demo_offset 4 = [11]" "areas demo_offset 4 = [(demo_area 0x500 0x510 2)\<lparr>vma_off := 1\<rparr>]"
  by (simp_all add: area_ptrs_def areas_def area_def demo_offset_def demo_pair_def)

lemma demo_offset_shape: "shape demo_offset = shape demo_pair"
  by (simp add: shape_def demo_offset_def fun_eq_iff)

lemma demo_offset_cur: "cur_space 2 i386 demo_offset 4"
proof -
  have e: "mmobjs demo_offset = mmobjs demo_pair" by (simp add: demo_offset_def)
  note sh = demo_offset_shape
  have "space_ok i386 demo_offset 4"
    by (simp add: space_ok_def demo_offset_areas wf_areas_def wf_area_def)
      (simp add: area_def demo_offset_def demo_pair_def demo_area_def i386_def)
  moreover have "plain_area 2 demo_offset ((demo_area 0x500 0x510 2)\<lparr>vma_off := 1\<rparr>)"
    using demo_pair_user(1) by (simp add: user_space_def plain_area_def demo_pair_areas e layers_shape [OF sh] chain_shape [OF sh] demo_area_def del: layers.simps chain.simps)
  moreover have "top_objs demo_offset 4 = {2}" by (auto simp: top_objs_def demo_offset_areas demo_area_def)
  ultimately have "user_space 2 i386 demo_offset 4"
    by (simp add: user_space_def demo_offset_areas layers_shape [OF sh] demo_pair_layers del: layers.simps)
  moreover have "pf_inv i386 demo_offset" by (rule pf_inv_cong [OF two_shadows_inv]) (simp_all add: demo_offset_def demo_pair_def demo_space_def)
  then have "ready i386 demo_offset"
    using two_shadows_quiet by (simp add: ready_def no_waiters_def quiet_def demo_offset_def demo_pair_def demo_space_def)
  ultimately show ?thesis by (simp add: cur_space_def demo_offset_def demo_pair_def demo_space_def demo_proc_def)
qed

lemma copy_from_user_offset_example:
  "\<exists>s1 buf' s2. copy_to_user 2 i386 demo_ext 0x502000 (\<lambda>_. 7) 1 demo_offset = Inr (0, s1) \<and>
     copy_from_user 2 i386 demo_ext old 0x502000 1 s1 = Inr (0, buf', s2) \<and> buf' 0 = 0"
proof -
  have one: "i = 0" if "i < 1" for i :: u32
    using that unat_eq_imp [of i 0] by (simp add: word_less_nat_alt)
  have c: "covers 0x502 ((demo_area 0x500 0x510 2)\<lparr>vma_off := 1\<rparr>)" "covers 0x500 ((demo_area 0x500 0x510 2)\<lparr>vma_off := 1\<rparr>)"
    by (simp_all add: covers_def demo_area_def)
  have r: "user_range i386 demo_offset 4 0x502000 1"
    using c(1) one by (auto simp: user_range_def demo_offset_areas mapped_Cons i386_def)
  have "ubyte 2 i386 demo_disk demo_offset 4 0x500000 = Some 0"
  proof -
    have "page_of i386 demo_offset 2 1 = None" "page_of i386 demo_offset 1 1 = None"
      by (simp_all add: page_of_def hash_page_def i386_def demo_offset_def demo_pair_def demo_space_def two_shadows_defs)
    then have "seen i386 demo_disk demo_offset [2, 1] 1 0 = 0"
      by (simp add: frame_data_def demo_offset_def demo_pair_def demo_space_def two_shadows_defs)
    moreover have "layers 2 demo_offset 2 = [2, 1]"
      unfolding layers_shape [OF demo_offset_shape] by (rule demo_pair_layers(1))
    ultimately show ?thesis
      using c(2) by (simp add: ubyte_def demo_offset_areas mapped_Cons page_map_def demo_area_def i386_def del: layers.simps seen.simps)
  qed
  moreover have "\<exists>s1 buf' s2. copy_to_user 2 i386 demo_ext 0x502000 (\<lambda>_. 7) 1 demo_offset = Inr (0, s1) \<and>
      copy_from_user 2 i386 demo_ext old 0x502000 1 s1 = Inr (0, buf', s2) \<and>
      (\<forall>i. i < 1 \<longrightarrow> Some (buf' i) = ubyte 2 i386 demo_disk demo_offset 4 (0x500000 + i))"
    by (rule copy_from_user_offset [OF demo_mem_ok i386_paging demo_offset_cur r, where v = "(demo_area 0x500 0x510 2)\<lparr>vma_off := 1\<rparr>"])
      (use c one in \<open>auto simp: demo_offset_areas demo_area_def i386_def\<close>)
  ultimately show ?thesis by fastforce
qed

end
