(* ===== verification/Fork_Memory.thy ===== *)
theory Fork_Memory
  imports Fork User_Memory
begin

text \<open>
  What \<^verbatim>\<open>do_fork\<close> does to the memory of the two processes: the child sees what
  the parent saw, and from then on neither sees what the other writes.
\<close>

section \<open>Adding objects\<close>

text \<open>
  Objects are added without pages, gain references and change the areas linked to
  them; everything else about the page cache stays as it is.
\<close>

definition objs_grow :: "kstate \<Rightarrow> kstate \<Rightarrow> bool" where
  "objs_grow s s' \<longleftrightarrow>
     (pframes s', pframe_hash s', alloc_list s', pinned_list s', nallocated s', npinned s') =
     (pframes s, pframe_hash s, alloc_list s, pinned_list s, nallocated s, npinned s) \<and>
     (\<forall>obj ob. mmobjs s obj = Some ob \<longrightarrow> (\<exists>ob'. mmobjs s' obj = Some ob' \<and>
        (mmo_ops ob', mmo_shadowed ob', mmo_bottom ob', mmo_respages ob', mmo_nrespages ob') =
        (mmo_ops ob, mmo_shadowed ob, mmo_bottom ob, mmo_respages ob, mmo_nrespages ob) \<and> mmo_refcount ob \<le> mmo_refcount ob')) \<and>
     (\<forall>obj ob'. mmobjs s obj = None \<longrightarrow> mmobjs s' obj = Some ob' \<longrightarrow>
        mmo_respages ob' = [] \<and> mmo_nrespages ob' = 0 \<and> 0 < mmo_refcount ob')"

lemma objs_grow_refl: "objs_grow s s"
  by (simp add: objs_grow_def)

lemma objs_growD:
  assumes "objs_grow s s'" "mmobjs s obj = Some ob"
  obtains ob' where "mmobjs s' obj = Some ob'" "mmo_ops ob' = mmo_ops ob" "mmo_shadowed ob' = mmo_shadowed ob"
    "mmo_bottom ob' = mmo_bottom ob" "mmo_respages ob' = mmo_respages ob" "mmo_nrespages ob' = mmo_nrespages ob"
    "mmo_refcount ob \<le> mmo_refcount ob'"
  using assms unfolding objs_grow_def by blast

lemma objs_grow_new:
  assumes "objs_grow s s'" "mmobjs s obj = None" "mmobjs s' obj = Some ob'"
  shows "mmo_respages ob' = []" "mmo_nrespages ob' = 0" "0 < mmo_refcount ob'"
  using assms unfolding objs_grow_def by blast+

lemma objs_grow_trans:
  assumes "objs_grow s s1" "objs_grow s1 s2"
  shows "objs_grow s s2"
  unfolding objs_grow_def
proof (intro conjI allI impI)
  show "(pframes s2, pframe_hash s2, alloc_list s2, pinned_list s2, nallocated s2, npinned s2) =
     (pframes s, pframe_hash s, alloc_list s, pinned_list s, nallocated s, npinned s)"
    using assms by (simp add: objs_grow_def)
  fix obj
  show "\<exists>ob2. mmobjs s2 obj = Some ob2 \<and> (mmo_ops ob2, mmo_shadowed ob2, mmo_bottom ob2, mmo_respages ob2, mmo_nrespages ob2) =
      (mmo_ops ob, mmo_shadowed ob, mmo_bottom ob, mmo_respages ob, mmo_nrespages ob) \<and> mmo_refcount ob \<le> mmo_refcount ob2"
    if h: "mmobjs s obj = Some ob" for ob
  proof -
    obtain ob1 where 1: "mmobjs s1 obj = Some ob1" "mmo_ops ob1 = mmo_ops ob" "mmo_shadowed ob1 = mmo_shadowed ob"
        "mmo_bottom ob1 = mmo_bottom ob" "mmo_respages ob1 = mmo_respages ob" "mmo_nrespages ob1 = mmo_nrespages ob"
        "mmo_refcount ob \<le> mmo_refcount ob1" by (rule objs_growD [OF assms(1) h])
    show ?thesis by (rule objs_growD [OF assms(2) 1(1)]) (use 1 in auto)
  qed
  show "mmo_respages ob2 = []" "mmo_nrespages ob2 = 0" "0 < mmo_refcount ob2"
    if n: "mmobjs s obj = None" and ob2: "mmobjs s2 obj = Some ob2" for ob2
  proof -
    have "mmo_respages ob2 = [] \<and> mmo_nrespages ob2 = 0 \<and> 0 < mmo_refcount ob2"
    proof (cases "mmobjs s1 obj")
      case None
      then show ?thesis using objs_grow_new [OF assms(2) None ob2] by simp
    next
      case (Some ob1)
      note f = objs_grow_new [OF assms(1) n Some]
      show ?thesis by (rule objs_growD [OF assms(2) Some]) (use f ob2 in auto)
    qed
    then show "mmo_respages ob2 = []" "mmo_nrespages ob2 = 0" "0 < mmo_refcount ob2" by simp_all
  qed
qed

lemma chain_live: "chain s os \<Longrightarrow> obj \<in> set os \<Longrightarrow> mmobjs s obj \<noteq> None"
  by (induction s os rule: chain.induct) (auto split: option.splits)

lemma objs_grow_chain:
  assumes "objs_grow s s'"
  shows "chain s os \<Longrightarrow> chain s' os"
proof (induction os rule: induct_list012)
  case (2 obj)
  then obtain ob where ob: "mmobjs s obj = Some ob" "mmo_ops ob \<noteq> Shadow_ops" "mmo_shadowed ob = None" by (auto split: option.splits)
  show ?case by (rule objs_growD [OF assms ob(1)]) (use ob in simp)
next
  case (3 obj o' os)
  then obtain ob where ob: "mmobjs s obj = Some ob" "mmo_ops ob = Shadow_ops" "mmo_shadowed ob = Some o'"
      "mmo_bottom ob = Some (last (o' # os))" by (auto split: option.splits)
  show ?case by (rule objs_growD [OF assms ob(1)]) (use ob 3 in auto)
qed simp

lemma objs_grow_seen:
  assumes g: "objs_grow s s'"
  shows "chain s os \<Longrightarrow> seen K disk s' os pn = seen K disk s os pn"
proof -
  have f: "page_of K s' obj pn = page_of K s obj pn" "frame_data s' p = frame_data s p" for obj p
    using g by (simp_all add: objs_grow_def page_of_def frame_data_def)
  show "chain s os \<Longrightarrow> seen K disk s' os pn = seen K disk s os pn"
  proof (induction os rule: induct_list012)
    case (2 obj)
    then obtain ob where ob: "mmobjs s obj = Some ob" by (auto split: option.splits)
    show ?case by (rule objs_growD [OF g ob]) (use ob f in \<open>auto split: option.splits\<close>)
  qed (simp_all add: f cong: option.case_cong)
qed

lemma objs_grow_inv:
  assumes g: "objs_grow s s'" and inv: "pf_inv K s"
  shows "pf_inv K s'"
proof -
  have f: "pframes s' = pframes s" "pframe_hash s' = pframe_hash s" "alloc_list s' = alloc_list s" "pinned_list s' = pinned_list s"
      "nallocated s' = nallocated s" "npinned s' = npinned s" using g by (simp_all add: objs_grow_def)
  have "obj_ok s' obj ob'" if ob': "mmobjs s' obj = Some ob'" for obj ob'
  proof (cases "mmobjs s obj")
    case None
    then have "\<not> (\<exists>p pf. pframes s p = Some pf \<and> pf_obj pf = Some obj)"
      using pf_invD(3) [OF inv] unfolding res_inv_def by force
    then show ?thesis using objs_grow_new [OF g None ob'] by (simp add: obj_ok_def f)
  next
    case (Some ob)
    note ok = res_inv_obj [OF pf_invD(3) [OF inv] Some]
    show ?thesis by (rule objs_growD [OF g Some]) (use ok ob' f in \<open>auto simp: obj_ok_def\<close>)
  qed
  moreover have "\<exists>obj ob. pf_obj pf = Some obj \<and> mmobjs s' obj = Some ob" if "pframes s p = Some pf" for p pf
    by (rule res_inv_page [OF pf_invD(3) [OF inv] that]) (metis objs_growD [OF g])
  ultimately have "res_inv s'" by (simp add: res_inv_def f)
  then show ?thesis using inv by (simp add: pf_inv_def link_inv_def hash_inv_def f)
qed

lemma objs_grow_layers:
  assumes "objs_grow s s'" "chain s (layers n s obj)"
  shows "layers n s' obj = layers n s obj"
proof -
  have l: "layers n s obj = obj # tl (layers n s obj)" using assms(2) by (intro layers_Cons) auto
  have "chain s' (obj # tl (layers n s obj))" using objs_grow_chain [OF assms] l by simp
  from chain_layers [OF this, of n] l length_layers [of n s obj] show ?thesis by simp
qed

section \<open>One area\<close>

text \<open>The allocator of shadow objects has room for \<open>N\<close> objects.\<close>

definition obj_room :: "kext \<Rightarrow> nat \<Rightarrow> bool" where
  "obj_room X N \<longleftrightarrow>
     (\<forall>s. finite (dom (mmobjs s)) \<and> card (dom (mmobjs s)) < N \<longrightarrow> shadow_slab X s \<noteq> None)"

lemma demo_obj_room: "obj_room demo_ext 10"
  unfolding obj_room_def demo_ext_def using free_cell_full by fastforce

definition shadow_ok :: "kext \<Rightarrow> nat \<Rightarrow> bool" where
  "shadow_ok X N \<longleftrightarrow> obj_fresh X \<and> init_ok X \<and> bottom_ok X \<and> obj_room X N"

lemma demo_shadow_ok: "shadow_ok demo_ext 10"
  using demo_frames demo_bottom_ok demo_obj_room by (simp add: shadow_ok_def)

lemma chain_bottom_of:
  assumes "chain s (obj # os)" "mmobjs s obj = Some ob"
  shows "bottom_of obj ob = Some (last (obj # os))"
  using assms by (cases os) (auto simp: bottom_of_def)

lemma new_shadow_grows:
  assumes X: "shadow_ok X N" and ch: "chain s (obj # os)" and room: "finite (dom (mmobjs s))" "card (dom (mmobjs s)) < N"
  shows "\<exists>sh s'. new_shadow X (last (obj # os)) obj s = Inr (sh, s') \<and> mmobjs s sh = None \<and> objs_grow s s' \<and>
    chain s' (sh # obj # os) \<and> s' = s\<lparr>mmobjs := mmobjs s'\<rparr> \<and> dom (mmobjs s') = insert sh (dom (mmobjs s))"
proof -
  obtain sh where sh: "shadow_slab X s = Some sh" using X room unfolding shadow_ok_def obj_room_def by blast
  then have fresh: "mmobjs s sh = None" using X by (simp add: shadow_ok_def obj_fresh_def)
  define ob where "ob = (mmobj_init X Shadow_ops)\<lparr>mmo_refcount := 1, mmo_bottom := Some (last (obj # os)), mmo_shadowed := Some obj\<rparr>"
  let ?s = "s\<lparr>mmobjs := (mmobjs s)(sh \<mapsto> ob)\<rparr>"
  have e: "new_shadow X (last (obj # os)) obj s = Inr (sh, ?s)"
    using sh by (simp add: new_shadow_def shadow_create_def upd_obj_def ob_def)
  have i: "mmo_ops ob = Shadow_ops" "mmo_nrespages ob = 0" "mmo_respages ob = []" "mmo_refcount ob = 1"
      "mmo_bottom ob = Some (last (obj # os))" "mmo_shadowed ob = Some obj"
    using X by (simp_all add: ob_def shadow_ok_def init_ok_def)
  have g: "objs_grow s ?s" using fresh i by (auto simp: objs_grow_def)
  have "chain ?s (sh # obj # os)" using objs_grow_chain [OF g ch] i by simp
  with e fresh g show ?thesis by (intro exI [of _ sh] exI [of _ ?s]) auto
qed

lemma objs_grow_vmas:
  "objs_grow s (upd_obj obj (\<lambda>x. x\<lparr>mmo_vmas := f x\<rparr>) s)" "objs_grow s (upd_area v g s)"
  "objs_grow s (upd_obj obj (\<lambda>x. x\<lparr>mmo_refcount := mmo_refcount x + 1\<rparr>) s)"
  by (auto simp: objs_grow_def upd_area_def upd_obj_def)

definition keeps_rest :: "kstate \<Rightarrow> kstate \<Rightarrow> bool" where
  "keeps_rest s s' \<longleftrightarrow> s' = s\<lparr>mmobjs := mmobjs s', vmareas := vmareas s'\<rparr>"

lemma keeps_rest_trans: "keeps_rest s s1 \<Longrightarrow> keeps_rest s1 s2 \<Longrightarrow> keeps_rest s s2"
  unfolding keeps_rest_def by (cases s; cases s1; cases s2) simp

definition relinked :: "ptr \<Rightarrow> vmarea \<Rightarrow> vmarea \<Rightarrow> bool" where
  "relinked t a a' \<longleftrightarrow> a' = a\<lparr>vma_obj := Some t, vma_olink := vma_olink a'\<rparr>"

lemma keeps_rest_ops:
  "keeps_rest s (upd_area v f s)" "keeps_rest s (upd_obj obj g s)" "s' = s\<lparr>mmobjs := mmobjs s'\<rparr> \<Longrightarrow> keeps_rest s s'"
  unfolding keeps_rest_def by (cases s; cases s'; simp add: upd_area_def upd_obj_def)+

lemma link_area_grows:
  assumes "vmareas s v = Some a"
  shows "objs_grow s (link_area b v t s)" "keeps_rest s (link_area b v t s)" "dom (mmobjs (link_area b v t s)) = dom (mmobjs s)"
    "vmareas (link_area b v t s) = (vmareas s)(v \<mapsto> a\<lparr>vma_obj := Some t, vma_olink := Some b\<rparr>)"
proof -
  show "objs_grow s (link_area b v t s)" unfolding link_area_def by (rule objs_grow_trans [OF objs_grow_vmas(1,2)])
  show "keeps_rest s (link_area b v t s)" unfolding link_area_def by (rule keeps_rest_trans [OF keeps_rest_ops(2,1)])
  show "dom (mmobjs (link_area b v t s)) = dom (mmobjs s)" by (auto simp: link_area_def)
  show "vmareas (link_area b v t s) = (vmareas s)(v \<mapsto> a\<lparr>vma_obj := Some t, vma_olink := Some b\<rparr>)"
    using assms by (simp add: link_area_def)
qed

lemma unlink_olink_grows:
  assumes "vmareas s v = Some a"
  shows "\<exists>s'. unlink_olink v s = Inr s' \<and> objs_grow s s' \<and> keeps_rest s s' \<and> dom (mmobjs s') = dom (mmobjs s) \<and>
    vmareas s' = (vmareas s)(v \<mapsto> a\<lparr>vma_olink := None\<rparr>)"
proof (cases "vma_olink a")
  case None
  then have "a\<lparr>vma_olink := None\<rparr> = a" by (cases a) simp
  with None assms show ?thesis by (auto simp: unlink_olink_def objs_grow_refl keeps_rest_def)
next
  case (Some b)
  let ?s1 = "upd_area v (\<lambda>x. x\<lparr>vma_olink := None\<rparr>) s"
  let ?s2 = "upd_obj b (\<lambda>x. x\<lparr>mmo_vmas := remove1 v (mmo_vmas x)\<rparr>) ?s1"
  have "objs_grow s ?s2" by (rule objs_grow_trans [OF objs_grow_vmas(2,1)])
  moreover have "keeps_rest s ?s2" by (rule keeps_rest_trans [OF keeps_rest_ops(1,2)])
  ultimately show ?thesis using Some assms by (intro exI [of _ ?s2]) (auto simp: unlink_olink_def)
qed

lemma fork_private_grows:
  assumes X: "shadow_ok X N" and ch: "chain s (obj # os)"
    and v: "vmareas s vc = Some ac" "vmareas s vp = Some ap" "vc \<noteq> vp"
    and room: "finite (dom (mmobjs s))" "card (dom (mmobjs s)) + 2 \<le> N"
  shows "\<exists>tc tp ac' ap' s'. fork_private X vc vp obj s = Inr s' \<and> objs_grow s s' \<and> keeps_rest s s' \<and>
    mmobjs s tc = None \<and> mmobjs s tp = None \<and> tc \<noteq> tp \<and> dom (mmobjs s') = {tc, tp} \<union> dom (mmobjs s) \<and>
    chain s' (tc # obj # os) \<and> chain s' (tp # obj # os) \<and>
    vmareas s' = (vmareas s)(vc \<mapsto> ac', vp \<mapsto> ap') \<and> relinked tc ac ac' \<and> relinked tp ap ap'"
proof -
  let ?b = "last (obj # os)"
  obtain ob where ob: "mmobjs s obj = Some ob" using chain_live [OF ch, of obj] by auto
  have bt: "mmobj_bottom_obj X s obj = Inr ?b"
    using X ob chain_bottom_of [OF ch ob] by (simp add: shadow_ok_def bottom_ok_def)
  have "card (dom (mmobjs s)) < N" using room(2) by simp
  from new_shadow_grows [OF X ch room(1) this] obtain tc s1
    where t: "new_shadow X ?b obj s = Inr (tc, s1)" "mmobjs s tc = None" "objs_grow s s1" "chain s1 (tc # obj # os)"
      "s1 = s\<lparr>mmobjs := mmobjs s1\<rparr>" "dom (mmobjs s1) = insert tc (dom (mmobjs s))" by blast
  have v1: "vmareas s1 = vmareas s" by (subst t(5)) simp
  let ?s2 = "link_area ?b vc tc s1"
  have v1': "vmareas s1 vc = Some ac" using v v1 by simp
  note l = link_area_grows [OF v1', of ?b tc]
  have c2: "chain ?s2 (obj # os)" using objs_grow_chain [OF l(1) t(4)] by simp
  have r2: "finite (dom (mmobjs ?s2))" "card (dom (mmobjs ?s2)) < N" unfolding l(3) t(6) using room card_insert_if [OF room(1), of tc] by simp_all
  obtain tp s3 where u: "new_shadow X ?b obj ?s2 = Inr (tp, s3)" "mmobjs ?s2 tp = None" "objs_grow ?s2 s3" "chain s3 (tp # obj # os)"
      "s3 = ?s2\<lparr>mmobjs := mmobjs s3\<rparr>" "dom (mmobjs s3) = insert tp (dom (mmobjs ?s2))"
    using new_shadow_grows [OF X c2 r2] by blast
  have tp: "mmobjs s tp = None" "tc \<noteq> tp" using u(2) l(3) t(6) by (auto simp: domIff)
  have v3: "vmareas s3 = vmareas ?s2" by (subst u(5)) simp
  have v3': "vmareas s3 vp = Some ap" using v v1 v3 l(4) by simp
  obtain s4 where s4: "unlink_olink vp s3 = Inr s4" "objs_grow s3 s4" "keeps_rest s3 s4" "dom (mmobjs s4) = dom (mmobjs s3)"
      "vmareas s4 = (vmareas s3)(vp \<mapsto> ap\<lparr>vma_olink := None\<rparr>)"
    using unlink_olink_grows [OF v3'] by blast
  have v4: "vmareas s4 vp = Some (ap\<lparr>vma_olink := None\<rparr>)" using s4(5) by simp
  let ?s5 = "link_area ?b vp tp s4"
  note m = link_area_grows [OF v4, of ?b tp]
  have g3: "objs_grow s3 ?s5" by (rule objs_grow_trans [OF s4(2) m(1)])
  have g2: "objs_grow s1 ?s5" by (rule objs_grow_trans [OF l(1) objs_grow_trans [OF u(3) g3]])
  have live: "mmobjs s1 ?b \<noteq> None" using chain_live [OF t(4), of ?b] by simp
  have "fork_private X vc vp obj s = Inr ?s5"
    using bt t(1) live u(1) s4(1) by (auto simp: fork_private_def)
  moreover have "keeps_rest s ?s5"
    using keeps_rest_ops(3) [OF t(5)] l(2) keeps_rest_ops(3) [OF u(5)] s4(3) m(2) keeps_rest_trans by blast
  moreover have "vmareas ?s5 = (vmareas s)(vc \<mapsto> ac\<lparr>vma_obj := Some tc, vma_olink := Some ?b\<rparr>,
      vp \<mapsto> ap\<lparr>vma_obj := Some tp, vma_olink := Some ?b\<rparr>)"
    unfolding m(4) s4(5) v3 l(4) v1 by (cases ap) simp
  moreover have "dom (mmobjs ?s5) = {tc, tp} \<union> dom (mmobjs s)" unfolding m(3) s4(4) u(6) l(3) t(6) by auto
  moreover note objs_grow_trans [OF t(3) g2] objs_grow_chain [OF g2 t(4)] objs_grow_chain [OF g3 u(4)] t(2) tp
  moreover have "relinked tc ac (ac\<lparr>vma_obj := Some tc, vma_olink := Some ?b\<rparr>)"
      "relinked tp ap (ap\<lparr>vma_obj := Some tp, vma_olink := Some ?b\<rparr>)" by (simp_all add: relinked_def)
  ultimately show ?thesis by blast
qed

lemma fork_area_private:
  assumes X: "shadow_ok X N" and inv: "pf_inv K s" and ch: "chain s (obj # os)" and top: "mmobjs s obj = Some ob" "mmo_ops ob \<noteq> Other_ops"
    and v: "vmareas s vc = Some ac" "vmareas s vp = Some ap" "vc \<noteq> vp" "vma_obj ap = Some obj" "vma_flags ap AND MAP_TYPE K = MAP_PRIVATE K"
    and room: "finite (dom (mmobjs s))" "card (dom (mmobjs s)) + 2 \<le> N"
  shows "\<exists>tc tp ac' ap' s'. fork_area K X vc vp s = Inr s' \<and> objs_grow s s' \<and> keeps_rest s s' \<and>
    mmobjs s tc = None \<and> mmobjs s tp = None \<and> tc \<noteq> tp \<and> dom (mmobjs s') = {tc, tp} \<union> dom (mmobjs s) \<and>
    chain s' (tc # obj # os) \<and> chain s' (tp # obj # os) \<and>
    vmareas s' = (vmareas s)(vc \<mapsto> ac', vp \<mapsto> ap') \<and> relinked tc ac ac' \<and> relinked tp ap ap'"
proof -
  let ?s0 = "upd_area vc (\<lambda>x. x\<lparr>vma_obj := Some obj\<rparr>) s"
  let ?s1 = "upd_obj obj (\<lambda>x. x\<lparr>mmo_refcount := mmo_refcount x + 1\<rparr>) ?s0"
  have g: "objs_grow s ?s1" by (rule objs_grow_trans [OF objs_grow_vmas(2,3)])
  have k: "keeps_rest s ?s1" by (rule keeps_rest_trans [OF keeps_rest_ops(1,2)])
  have rf: "mmobj_ref X obj ?s0 = Inr ?s1"
    using mmobj_ref_live [of ?s0 obj ob X] top obj_ref_inv(2) [OF inv top] by simp
  have d: "dom (mmobjs ?s1) = dom (mmobjs s)" using top by auto
  have a: "vmareas ?s1 vc = Some (ac\<lparr>vma_obj := Some obj\<rparr>)" "vmareas ?s1 vp = Some ap" using v by simp_all
  have r: "finite (dom (mmobjs ?s1))" "card (dom (mmobjs ?s1)) + 2 \<le> N" unfolding d by (rule room)+
  obtain tc tp ac' ap' s' where s': "fork_private X vc vp obj ?s1 = Inr s'" "objs_grow ?s1 s'" "keeps_rest ?s1 s'"
      "mmobjs ?s1 tc = None" "mmobjs ?s1 tp = None" "tc \<noteq> tp" "dom (mmobjs s') = {tc, tp} \<union> dom (mmobjs ?s1)"
      "chain s' (tc # obj # os)" "chain s' (tp # obj # os)" "vmareas s' = (vmareas ?s1)(vc \<mapsto> ac', vp \<mapsto> ap')"
      "relinked tc (ac\<lparr>vma_obj := Some obj\<rparr>) ac'" "relinked tp ap ap'"
    using fork_private_grows [OF X objs_grow_chain [OF g ch] a v(3) r] by blast
  have "fork_area K X vc vp s = Inr s'" using v rf s'(1) by (simp add: fork_area_def)
  moreover have "mmobjs s tc = None" "mmobjs s tp = None" using s'(4,5) d by blast+
  moreover have "relinked tc ac ac'" using s'(11) by (simp add: relinked_def)
  moreover have "vmareas s' = (vmareas s)(vc \<mapsto> ac', vp \<mapsto> ap')" unfolding s'(10) by simp
  moreover have "dom (mmobjs s') = {tc, tp} \<union> dom (mmobjs s)" unfolding s'(7) d ..
  ultimately show ?thesis
    using objs_grow_trans [OF g s'(2)] keeps_rest_trans [OF k s'(3)] s'(6,8,9,12) by blast
qed

section \<open>All areas\<close>

definition private_area :: "kconsts \<Rightarrow> kstate \<Rightarrow> vmarea \<Rightarrow> bool" where
  "private_area K s a \<longleftrightarrow> vma_flags a AND MAP_TYPE K = MAP_PRIVATE K \<and>
     (\<exists>obj os ob. vma_obj a = Some obj \<and> chain s (obj # os) \<and> mmobjs s obj = Some ob \<and> mmo_ops ob \<noteq> Other_ops)"

lemma private_area_grow:
  assumes "objs_grow s s'" "private_area K s a"
  shows "private_area K s' a"
proof -
  obtain obj os ob where o: "vma_obj a = Some obj" "chain s (obj # os)" "mmobjs s obj = Some ob" "mmo_ops ob \<noteq> Other_ops"
    using assms(2) by (auto simp: private_area_def)
  obtain ob' where "mmobjs s' obj = Some ob'" "mmo_ops ob' = mmo_ops ob" by (rule objs_growD [OF assms(1) o(3)])
  with o objs_grow_chain [OF assms(1) o(2)] assms(2) show ?thesis unfolding private_area_def by metis
qed

definition put_on_top :: "(ptr \<Rightarrow> ptr) \<Rightarrow> kstate \<Rightarrow> kstate \<Rightarrow> ptr \<Rightarrow> ptr \<Rightarrow> bool" where
  "put_on_top tf s s' vc vp \<longleftrightarrow> (\<forall>obj os. vma_obj (area s vp) = Some obj \<longrightarrow> chain s (obj # os) \<longrightarrow>
     chain s' (tf vc # obj # os) \<and> chain s' (tf vp # obj # os))"

definition forked :: "(ptr \<Rightarrow> ptr) \<Rightarrow> ptr list \<Rightarrow> ptr list \<Rightarrow> kstate \<Rightarrow> kstate \<Rightarrow> bool" where
  "forked tf vcs vps s s' \<longleftrightarrow> objs_grow s s' \<and> keeps_rest s s' \<and> inj_on tf (set (vcs @ vps)) \<and>
     (\<forall>v\<in>set (vcs @ vps). mmobjs s (tf v) = None \<and> vmareas s' v \<noteq> None \<and> relinked (tf v) (area s v) (area s' v)) \<and>
     (\<forall>v. v \<notin> set (vcs @ vps) \<longrightarrow> vmareas s' v = vmareas s v) \<and> list_all2 (put_on_top tf s s') vcs vps"

lemma forked_Cons:
  assumes g: "objs_grow s s1" "keeps_rest s s1" and t: "mmobjs s tc = None" "mmobjs s tp = None" "tc \<noteq> tp"
    and d: "dom (mmobjs s1) = {tc, tp} \<union> dom (mmobjs s)"
    and c: "chain s1 (tc # obj # os)" "chain s1 (tp # obj # os)" and o: "vma_obj (area s vp) = Some obj" "chain s (obj # os)"
    and v: "vmareas s1 = (vmareas s)(vc \<mapsto> ac, vp \<mapsto> ap)" "relinked tc (area s vc) ac" "relinked tp (area s vp) ap"
    and ds: "distinct ((vc # vcs) @ (vp # vps))" and f: "forked tf vcs vps s1 s'"
  shows "forked (tf(vc := tc, vp := tp)) (vc # vcs) (vp # vps) s s'"
proof -
  let ?tf = "tf(vc := tc, vp := tp)" and ?vs = "set (vcs @ vps)"
  have n: "vc \<notin> ?vs" "vp \<notin> ?vs" "vc \<noteq> vp" using ds by auto
  have g': "objs_grow s1 s'" and k': "keeps_rest s1 s'" and i': "inj_on tf ?vs"
    and w: "v \<in> ?vs \<Longrightarrow> mmobjs s1 (tf v) = None \<and> vmareas s' v \<noteq> None \<and> relinked (tf v) (area s1 v) (area s' v)"
    and r: "v \<notin> ?vs \<Longrightarrow> vmareas s' v = vmareas s1 v" and l: "list_all2 (put_on_top tf s1 s') vcs vps" for v
    using f by (simp_all add: forked_def)
  have same: "area s1 v = area s v" if "v \<in> ?vs" for v using that n v(1) by (auto simp: area_def)
  have tops: "tf v \<noteq> tc" "tf v \<noteq> tp" "mmobjs s (tf v) = None" if "v \<in> ?vs" for v using w [OF that] d by (auto simp: domIff)
  have e: "?tf v = tf v" if "v \<in> ?vs" for v using that n(1,2) by auto
  have set: "set ((vc # vcs) @ (vp # vps)) = insert vc (insert vp ?vs)" by auto
  have "inj_on ?tf ?vs" using i' e by (simp add: inj_on_def)
  moreover have "tc \<notin> ?tf ` ?vs" "tp \<notin> ?tf ` ?vs" using tops e by force+
  ultimately have inj: "inj_on ?tf (set ((vc # vcs) @ (vp # vps)))" unfolding set using n t(3) by (simp add: inj_on_insert)
  have a: "area s' vc = ac" "area s' vp = ap" "vmareas s' vc = Some ac" "vmareas s' vp = Some ap"
    using r [OF n(1)] r [OF n(2)] v(1) n(3) by (simp_all add: area_def)
  let ?P = "\<lambda>v. mmobjs s (?tf v) = None \<and> vmareas s' v \<noteq> None \<and> relinked (?tf v) (area s v) (area s' v)"
  have "?P vc" "?P vp" using a t v n(3) by simp_all
  moreover have "?P v" if "v \<in> ?vs" for v using w [OF that] tops(3) [OF that] same [OF that] e [OF that] by simp
  ultimately have new: "\<forall>v\<in>set ((vc # vcs) @ (vp # vps)). ?P v" unfolding set by (simp only: ball_simps) blast
  have rest: "vmareas s' v = vmareas s v" if "v \<notin> set ((vc # vcs) @ (vp # vps))" for v using that r [of v] v(1) by auto
  have "put_on_top ?tf s s' vc vp"
    unfolding put_on_top_def
  proof (intro allI impI)
    fix obj' os' assume "vma_obj (area s vp) = Some obj'" "chain s (obj' # os')"
    with o chain_unique [OF o(2)] have "obj' = obj" "os' = os" by auto
    with objs_grow_chain [OF g' c(1)] objs_grow_chain [OF g' c(2)] n(3)
    show "chain s' (?tf vc # obj' # os') \<and> chain s' (?tf vp # obj' # os')" by (simp del: chain.simps)
  qed
  moreover have "list_all2 (put_on_top ?tf s s') vcs vps"
  proof (rule list.rel_mono_strong [OF l])
    fix x y assume x: "x \<in> set vcs" "y \<in> set vps" and p: "put_on_top tf s1 s' x y"
    have "x \<noteq> vc" "x \<noteq> vp" "y \<noteq> vc" "y \<noteq> vp" using x n by auto
    then show "put_on_top ?tf s s' x y"
      using p same [of y] x objs_grow_chain [OF g(1)] by (simp add: put_on_top_def del: chain.simps)
  qed
  ultimately have "list_all2 (put_on_top ?tf s s') (vc # vcs) (vp # vps)" by (simp only: list_all2_Cons)
  with objs_grow_trans [OF g(1) g'] keeps_rest_trans [OF g(2) k'] inj new rest show ?thesis unfolding forked_def by blast
qed

lemma fork_loop_private:
  assumes X: "shadow_ok X N"
  shows "pf_inv K s \<Longrightarrow> length vcs = length vps \<Longrightarrow> distinct (vcs @ vps) \<Longrightarrow> \<forall>v\<in>set (vcs @ vps). vmareas s v \<noteq> None \<Longrightarrow>
    \<forall>v\<in>set vps. private_area K s (area s v) \<Longrightarrow> finite (dom (mmobjs s)) \<Longrightarrow> card (dom (mmobjs s)) + 2 * length vps \<le> N \<Longrightarrow>
    \<exists>tf s'. fork_loop K X vcs vps s = Inr s' \<and> forked tf vcs vps s s'"
proof (induction vcs arbitrary: vps s)
  case Nil
  then show ?case by (simp add: forked_def objs_grow_refl keeps_rest_def)
next
  case (Cons vc vcs)
  then obtain vp vps' where vps: "vps = vp # vps'" "length vcs = length vps'" by (cases vps) auto
  have a: "vmareas s vc = Some (area s vc)" "vmareas s vp = Some (area s vp)" "vc \<noteq> vp"
    using Cons.prems(3,4) vps by (auto simp: area_def)
  obtain obj os ob where o: "vma_obj (area s vp) = Some obj" "chain s (obj # os)" "mmobjs s obj = Some ob" "mmo_ops ob \<noteq> Other_ops"
      "vma_flags (area s vp) AND MAP_TYPE K = MAP_PRIVATE K"
    using Cons.prems(5) vps by (auto simp: private_area_def)
  have "card (dom (mmobjs s)) + 2 \<le> N" using Cons.prems(7) vps by simp
  from fork_area_private [OF X Cons.prems(1) o(2,3,4) a o(1,5) Cons.prems(6) this]
  obtain tc tp ac ap s1 where s1: "fork_area K X vc vp s = Inr s1" "objs_grow s s1" "keeps_rest s s1"
      "mmobjs s tc = None" "mmobjs s tp = None" "tc \<noteq> tp" "dom (mmobjs s1) = {tc, tp} \<union> dom (mmobjs s)"
      "chain s1 (tc # obj # os)" "chain s1 (tp # obj # os)" "vmareas s1 = (vmareas s)(vc \<mapsto> ac, vp \<mapsto> ap)"
      "relinked tc (area s vc) ac" "relinked tp (area s vp) ap" by blast
  have n: "distinct (vcs @ vps')" "vc \<notin> set vps'" "vp \<notin> set vps'" using Cons.prems(3) vps by auto
  have same: "area s1 v = area s v" if "v \<in> set vps'" for v using that n s1(10) by (auto simp: area_def)
  have p1: "\<forall>v\<in>set vps'. private_area K s1 (area s1 v)"
    using Cons.prems(5) vps same private_area_grow [OF s1(2)] by simp
  have l1: "\<forall>v\<in>set (vcs @ vps'). vmareas s1 v \<noteq> None" using Cons.prems(4) vps s1(10) by auto
  have "card (dom (mmobjs s1)) = card (dom (mmobjs s)) + 2"
    unfolding s1(7) using s1(4-6) Cons.prems(6) by (simp add: domIff)
  then have r1: "finite (dom (mmobjs s1))" "card (dom (mmobjs s1)) + 2 * length vps' \<le> N"
    using Cons.prems(6,7) vps s1(7) by simp_all
  obtain tf s' where s': "fork_loop K X vcs vps' s1 = Inr s'" "forked tf vcs vps' s1 s'"
    using Cons.IH [OF objs_grow_inv [OF s1(2) Cons.prems(1)] vps(2) n(1) l1 p1 r1] by blast
  have "distinct ((vc # vcs) @ (vp # vps'))" using Cons.prems(3) vps by simp
  from forked_Cons [OF s1(2-9) o(1,2) s1(10-12) this s'(2)] s1(1) s'(1) vps(1) show ?case by auto
qed

section \<open>The same memory behind new objects\<close>

definition extent :: "vmarea \<Rightarrow> u32 \<times> u32 \<times> u32 \<times> u32 \<times> u32" where
  "extent a = (vma_start a, vma_end a, vma_off a, vma_prot a, vma_flags a)"

definition renewed :: "nat \<Rightarrow> kstate \<Rightarrow> kstate \<Rightarrow> vmarea \<Rightarrow> vmarea \<Rightarrow> bool" where
  "renewed n s s' a a' \<longleftrightarrow> extent a' = extent a \<and>
     (\<exists>obj t. vma_obj a = Some obj \<and> vma_obj a' = Some t \<and> mmobjs s t = None \<and>
        chain s (layers n s obj) \<and> chain s' (t # layers n s obj))"

lemma renewedD:
  assumes "renewed n s s' a a'"
  obtains obj os t where "extent a' = extent a" "vma_obj a = Some obj" "vma_obj a' = Some t" "mmobjs s t = None"
    "layers n s obj = obj # os" "chain s (obj # os)" "layers (Suc n) s' t = t # obj # os" "chain s' (t # obj # os)"
proof -
  obtain obj t where o: "extent a' = extent a" "vma_obj a = Some obj" "vma_obj a' = Some t" "mmobjs s t = None"
      "chain s (layers n s obj)" "chain s' (t # layers n s obj)"
    using assms by (auto simp: renewed_def)
  then have l: "layers n s obj = obj # tl (layers n s obj)" by (intro layers_Cons) auto
  then have "layers (Suc n) s' t = t # obj # tl (layers n s obj)"
    using chain_layers [of s' t "layers n s obj" "Suc n"] o(6) length_layers [of n s obj] by (simp del: layers.simps)
  with that [of obj t "tl (layers n s obj)"] o l show ?thesis by simp
qed

lemma seen_fresh:
  assumes g: "objs_grow s s'" and inv: "pf_inv K s" and t: "mmobjs s t = None" and ch: "chain s os"
  shows "seen K disk s' (t # os) pn = seen K disk s os pn"
proof -
  have "page_of K s' t pn \<noteq> Some p" for p
  proof
    assume "page_of K s' t pn = Some p"
    then obtain pf where pf: "pframes s' p = Some pf" "pf_obj pf = Some t"
      using page_of_iff [OF pf_invD(2) [OF objs_grow_inv [OF g inv]]] by blast
    then have "pframes s p = Some pf" using g by (simp add: objs_grow_def)
    then show False by (rule res_inv_page [OF pf_invD(3) [OF inv]]) (use pf t in simp)
  qed
  then have "page_of K s' t pn = None" by (cases "page_of K s' t pn") auto
  moreover have "os \<noteq> []" using ch by auto
  ultimately show ?thesis using objs_grow_seen [OF g ch] by simp
qed

lemma find_all2:
  assumes "list_all2 R as bs" "\<And>a b. R a b \<Longrightarrow> P a = Q b"
  shows "rel_option R (List.find P as) (List.find Q bs)"
  using assms(1) by (induction rule: list_all2_induct) (auto simp: assms(2))

lemma covers_extent: "extent a' = extent a \<Longrightarrow> covers vfn a' = covers vfn a"
  by (simp add: extent_def covers_def)

lemma renewed_ubyte:
  assumes l: "list_all2 (renewed n s s') (areas s m) (areas s' m')" and g: "objs_grow s s'" and inv: "pf_inv K s"
  shows "ubyte (Suc n) K disk s' m' b = ubyte n K disk s m b"
proof -
  let ?v = "ADDR_TO_PN K b"
  have "rel_option (renewed n s s') (List.find (covers ?v) (areas s m)) (List.find (covers ?v) (areas s' m'))"
    by (rule find_all2 [OF l]) (metis covers_extent renewed_def)
  then consider "List.find (covers ?v) (areas s m) = None" "List.find (covers ?v) (areas s' m') = None"
    | a a' where "List.find (covers ?v) (areas s m) = Some a" "List.find (covers ?v) (areas s' m') = Some a'" "renewed n s s' a a'"
    by (cases "List.find (covers ?v) (areas s m)"; cases "List.find (covers ?v) (areas s' m')") auto
  then show ?thesis
  proof cases
    case 1
    then show ?thesis by (simp add: ubyte_def mapped_def)
  next
    case (2 a a')
    obtain obj os t where r: "extent a' = extent a" "vma_obj a = Some obj" "vma_obj a' = Some t" "mmobjs s t = None"
        "layers n s obj = obj # os" "chain s (obj # os)" "layers (Suc n) s' t = t # obj # os"
      by (rule renewedD [OF 2(3)])
    let ?pn = "?v - vma_start a + vma_off a"
    have "mapped (areas s m) ?v = Some (Some obj, ?pn, vma_prot a, vma_flags a)" using 2(1) r(2) by (simp add: mapped_def page_map_def)
    from ubyte_mapped [OF this] have "ubyte n K disk s m b = Some (seen K disk s (obj # os) ?pn (PAGE_OFFSET K b))" by (simp only: r(5))
    moreover have "mapped (areas s' m') ?v = Some (Some t, ?pn, vma_prot a, vma_flags a)"
      using 2(2) r(1,3) by (simp add: mapped_def page_map_def extent_def)
    from ubyte_mapped [OF this] have "ubyte (Suc n) K disk s' m' b = Some (seen K disk s' (t # obj # os) ?pn (PAGE_OFFSET K b))"
      by (simp only: r(7))
    moreover note seen_fresh [OF g inv r(4,6), of disk ?pn]
    ultimately show ?thesis by (simp only:)
  qed
qed

lemma renewed_areaD:
  assumes l: "list_all2 (renewed n s s') as (areas s' m')" and v: "v \<in> set (areas s' m')"
  obtains a obj os t where "a \<in> set as" "extent v = extent a" "vma_obj v = Some t" "mmobjs s t = None" "vma_obj a = Some obj" "chain s (obj # os)"
    "layers (Suc n) s' t = t # obj # os" "chain s' (t # obj # os)"
proof -
  from v obtain i where i: "i < length (areas s' m')" "v = areas s' m' ! i" by (auto simp: in_set_conv_nth)
  then have r: "renewed n s s' (as ! i) v" "as ! i \<in> set as" using l by (auto simp: list_all2_conv_all_nth)
  show ?thesis by (rule renewedD [OF r(1)]) (rule that [OF r(2)])
qed

lemma renewed_tops:
  assumes l: "list_all2 (renewed n s s') as (areas s' m')" and t: "t \<in> top_objs s' m'"
  obtains obj os where "mmobjs s t = None" "layers (Suc n) s' t = t # obj # os" "\<forall>u\<in>set (obj # os). mmobjs s u \<noteq> None"
proof -
  obtain v where v: "v \<in> set (areas s' m')" "vma_obj v = Some t" using t by (auto simp: top_objs_def)
  show ?thesis
  proof (rule renewed_areaD [OF l v(1)])
    fix a obj os t'
    assume o: "vma_obj v = Some t'" "mmobjs s t' = None" "layers (Suc n) s' t' = t' # obj # os" "chain s (obj # os)"
    then have "t' = t" using v(2) by simp
    moreover have "\<forall>u\<in>set (obj # os). mmobjs s u \<noteq> None" using chain_live [OF o(4)] by blast
    ultimately show ?thesis using that o by blast
  qed
qed

lemma renewed_user_space:
  assumes us: "user_space n K s m" and l: "list_all2 (renewed n s s') (areas s m) (areas s' m')"
    and sp: "space_ok K s' m'" and d: "distinct (map vma_obj (areas s' m'))"
  shows "user_space (Suc n) K s' m'"
proof -
  have "plain_area (Suc n) s' v" if v: "v \<in> set (areas s' m')" for v
  proof (rule renewed_areaD [OF l v])
    fix a obj os t
    assume o: "a \<in> set (areas s m)" "extent v = extent a" "vma_obj v = Some t" "layers (Suc n) s' t = t # obj # os" "chain s' (t # obj # os)"
    obtain ob where "mmobjs s' t = Some ob" "mmo_ops ob = Shadow_ops" using o(5) by (auto split: option.splits)
    then show ?thesis using o by (simp add: plain_area_def del: layers.simps chain.simps)
  qed
  moreover have "t \<notin> set (tl (layers (Suc n) s' t'))" if "t \<in> top_objs s' m'" "t' \<in> top_objs s' m'" for t t'
  proof (rule renewed_tops [OF l that(2)])
    fix obj os assume o: "layers (Suc n) s' t' = t' # obj # os" "\<forall>u\<in>set (obj # os). mmobjs s u \<noteq> None"
    have "mmobjs s t = None" by (rule renewed_tops [OF l that(1)])
    with o show ?thesis by (auto simp del: layers.simps)
  qed
  ultimately show ?thesis using sp d by (simp add: user_space_def)
qed

lemma renewed_separate:
  assumes l: "list_all2 (renewed n s s') as (areas s' m)" "list_all2 (renewed n s s') bs (areas s' m')"
    and d: "top_objs s' m \<inter> top_objs s' m' = {}"
  shows "separate (Suc n) s' m m'"
  unfolding separate_def
proof
  fix t assume t: "t \<in> top_objs s' m'"
  show "top_objs s' m \<inter> set (layers (Suc n) s' t) = {}"
  proof (rule renewed_tops [OF l(2) t])
    fix obj os assume o: "layers (Suc n) s' t = t # obj # os" "\<forall>u\<in>set (obj # os). mmobjs s u \<noteq> None"
    have "mmobjs s u = None" if "u \<in> top_objs s' m" for u by (rule renewed_tops [OF l(1) that])
    with o d t show ?thesis by (auto simp del: layers.simps)
  qed
qed

section \<open>The address space of the child\<close>

lemma relinkedD: "relinked t a a' \<Longrightarrow> vma_obj a' = Some t \<and> extent a' = extent a \<and> vma_vmmap a' = vma_vmmap a"
  unfolding relinked_def extent_def by (cases a; cases a') simp

lemma forked_renewed:
  assumes f: "forked tf vcs vps s s'" and pl: "\<forall>v\<in>set vps. plain_area n s (area s v)"
    and ex: "map (extent \<circ> area s) vcs = map (extent \<circ> area s) vps"
  shows "list_all2 (renewed n s s') (map (area s) vps) (map (area s') vcs)"
    "list_all2 (renewed n s s') (map (area s) vps) (map (area s') vps)"
proof -
  have len: "length vcs = length vps" using ex by (rule map_eq_imp_length_eq)
  have "renewed n s s' (area s (vps ! i)) (area s' (vcs ! i)) \<and> renewed n s s' (area s (vps ! i)) (area s' (vps ! i))"
    if i: "i < length vps" for i
  proof -
    have in_vs: "vcs ! i \<in> set (vcs @ vps)" "vps ! i \<in> set (vcs @ vps)" "vps ! i \<in> set vps" using i len by auto
    obtain obj os where o: "vma_obj (area s (vps ! i)) = Some obj" "layers n s obj = obj # os" "chain s (obj # os)"
      using pl in_vs(3) by (metis plain_areaD)
    have p: "put_on_top tf s s' (vcs ! i) (vps ! i)" using f i by (simp add: forked_def list_all2_conv_all_nth)
    have r: "relinked (tf v) (area s v) (area s' v)" "mmobjs s (tf v) = None" if "v \<in> set (vcs @ vps)" for v
      using f that by (simp_all add: forked_def)
    have "extent (area s (vcs ! i)) = extent (area s (vps ! i))" using arg_cong [OF ex, of "\<lambda>xs. xs ! i"] i len by simp
    with relinkedD [OF r(1) [OF in_vs(1)]] relinkedD [OF r(1) [OF in_vs(2)]] r(2) [OF in_vs(1)] r(2) [OF in_vs(2)] o p
    show ?thesis unfolding renewed_def put_on_top_def by (metis (no_types))
  qed
  then show "list_all2 (renewed n s s') (map (area s) vps) (map (area s') vcs)"
      "list_all2 (renewed n s s') (map (area s) vps) (map (area s') vps)"
    using len by (simp_all add: list_all2_conv_all_nth)
qed

lemma keeps_restD:
  assumes "keeps_rest s s'"
  shows "vmmaps s' = vmmaps s" "procs s' = procs s" "curproc s' = curproc s" "queues s' = queues s" "area_ptrs s' = area_ptrs s"
    "curthr s' = curthr s" "threads s' = threads s"
proof -
  show "vmmaps s' = vmmaps s" "procs s' = procs s" "curproc s' = curproc s" "queues s' = queues s" "curthr s' = curthr s" "threads s' = threads s"
    by (subst assms [unfolded keeps_rest_def], simp)+
  then show "area_ptrs s' = area_ptrs s" by (intro ext) (simp add: area_ptrs_def)
qed

lemma space_ok_relinked:
  assumes sp: "space_ok K s m" and p: "area_ptrs s' m = area_ptrs s m" "vmmaps s' = vmmaps s"
    and r: "\<forall>v\<in>set (area_ptrs s m). vmareas s' v \<noteq> None \<and> relinked (tf v) (area s v) (area s' v)"
  shows "space_ok K s' m"
proof -
  have e: "extent (area s' v) = extent (area s v)" "vma_vmmap (area s' v) = vma_vmmap (area s v)" if "v \<in> set (area_ptrs s m)" for v
    using r that relinkedD by blast+
  have "wf_areas K (areas s' m)"
    using sp e(1) unfolding space_ok_def wf_areas_def areas_def p(1) sorted_wrt_map
    by (auto simp: wf_area_def extent_def elim!: sorted_wrt_mono_rel [rotated])
  then show ?thesis using sp r e(2) p by (simp add: space_ok_def)
qed

lemma forked_tops:
  assumes f: "forked tf vcs vps s s'" and p: "area_ptrs s' m = vs" "set vs \<subseteq> set (vcs @ vps)" "distinct vs"
  shows "top_objs s' m = tf ` set vs" "distinct (map vma_obj (areas s' m))"
proof -
  have o: "vma_obj (area s' v) = Some (tf v)" if "v \<in> set vs" for v
    using f that p(2) relinkedD unfolding forked_def by blast
  then show "top_objs s' m = tf ` set vs" by (auto simp: top_objs_def areas_def p(1))
  have "inj_on tf (set vs)" using f p(2) by (auto simp: forked_def intro: inj_on_subset)
  then have "inj_on (\<lambda>v. vma_obj (area s' v)) (set vs)" using o by (simp add: inj_on_def)
  then show "distinct (map vma_obj (areas s' m))" using p(3) by (simp add: areas_def p(1) distinct_map o_def)
qed

lemma seen_cong:
  assumes "mmobjs s' = mmobjs s" "pframes s' = pframes s" "pframe_hash s' = pframe_hash s"
  shows "seen K disk s' os pn = seen K disk s os pn"
  by (induction os) (simp_all add: page_of_def frame_data_def assms cong: option.case_cong)

lemma user_space_cong:
  assumes "mmobjs s' = mmobjs s" "areas s' m = areas s m" "space_ok K s' m" "user_space n K s m"
  shows "user_space n K s' m"
proof -
  have sh: "shape s' = shape s" using assms(1) by (rule shape_cong)
  have "plain_area n s' = plain_area n s"
    by (intro ext) (simp add: plain_area_def layers_shape [OF sh] chain_shape [OF sh] assms(1) split: option.split)
  with assms show ?thesis by (simp add: user_space_def top_objs_def layers_shape [OF sh])
qed

lemma ubyte_cong:
  assumes "mmobjs s' = mmobjs s" "pframes s' = pframes s" "pframe_hash s' = pframe_hash s" "areas s' m = areas s m"
  shows "ubyte n K disk s' m b = ubyte n K disk s m b"
  unfolding ubyte_def assms(4) layers_shape [OF shape_cong [OF assms(1)]] seen_cong [OF assms(1-3)] ..

definition fork_room :: "kext \<Rightarrow> kstate \<Rightarrow> ptr \<Rightarrow> ptr \<Rightarrow> bool" where
  "fork_room X s m c \<longleftrightarrow> area_fresh X \<and> vmmap_slab X s = Some c \<and> vmmaps s c = None \<and>
     (\<exists>M. area_room X M \<and> finite (dom (vmareas s)) \<and> card (dom (vmareas s)) + length (areas s m) \<le> M) \<and>
     (\<exists>N. shadow_ok X N \<and> finite (dom (mmobjs s)) \<and> card (dom (mmobjs s)) + 2 * length (areas s m) \<le> N)"

lemma fork_loop_memory:
  assumes inv: "pf_inv K s" and us: "user_space n K s m" and pr: "\<forall>a\<in>set (areas s m). vma_flags a AND MAP_TYPE K = MAP_PRIVATE K"
    and c: "space_ok K s c" "c \<noteq> m" "areas s c = map (copy_area c) (areas s m)"
    and X: "shadow_ok X N" "finite (dom (mmobjs s))" "card (dom (mmobjs s)) + 2 * length (areas s m) \<le> N"
  shows "\<exists>s'. fork_loop K X (area_ptrs s c) (area_ptrs s m) s = Inr s' \<and> objs_grow s s' \<and> keeps_rest s s' \<and>
    user_space (Suc n) K s' m \<and> user_space (Suc n) K s' c \<and> separate (Suc n) s' m c \<and> separate (Suc n) s' c m \<and>
    (\<forall>disk b. ubyte (Suc n) K disk s' m b = ubyte n K disk s m b \<and> ubyte (Suc n) K disk s' c b = ubyte n K disk s m b)"
proof -
  let ?vc = "area_ptrs s c" and ?vp = "area_ptrs s m"
  have m: "space_ok K s m" and pl: "\<forall>a\<in>set (areas s m). plain_area n s a" using us by (simp_all add: user_space_def)
  have len: "length ?vc = length ?vp" using arg_cong [OF c(3), of length] by (simp add: areas_def)
  have ne: "vma_vmmap (area s v) = Some c" if "v \<in> set ?vc" for v using c(1) that by (simp add: space_ok_def)
  have nm: "vma_vmmap (area s v) = Some m" if "v \<in> set ?vp" for v using m that by (simp add: space_ok_def)
  have dj: "set ?vc \<inter> set ?vp = {}" using ne nm c(2) by fastforce
  have dd: "distinct ?vc" "distinct ?vp" using space_okD(2) [OF c(1)] space_okD(2) [OF m] by simp_all
  then have d: "distinct (?vc @ ?vp)" using dj by simp
  have live: "\<forall>v\<in>set (?vc @ ?vp). vmareas s v \<noteq> None" using c(1) m by (auto simp: space_ok_def)
  have p: "\<forall>v\<in>set ?vp. private_area K s (area s v)"
  proof
    fix v assume "v \<in> set ?vp"
    then have a: "area s v \<in> set (areas s m)" by (simp add: areas_def)
    obtain obj os ob where "vma_obj (area s v) = Some obj" "chain s (obj # os)" "mmobjs s obj = Some ob" "mmo_ops ob \<noteq> Other_ops"
      using pl a by (metis plain_areaD)
    with pr a show "private_area K s (area s v)" unfolding private_area_def by blast
  qed
  have "card (dom (mmobjs s)) + 2 * length ?vp \<le> N" using X(3) by (simp add: areas_def)
  from fork_loop_private [OF X(1) inv len d live p X(2) this]
  obtain tf s' where s': "fork_loop K X ?vc ?vp s = Inr s'" "forked tf ?vc ?vp s s'" by blast
  have g: "objs_grow s s'" and k: "keeps_rest s s'" and inj: "inj_on tf (set (?vc @ ?vp))"
    and r: "\<forall>v\<in>set (?vc @ ?vp). vmareas s' v \<noteq> None \<and> relinked (tf v) (area s v) (area s' v)"
    using s'(2) by (simp_all add: forked_def)
  note kd = keeps_restD [OF k]
  have ptrs: "area_ptrs s' c = ?vc" "area_ptrs s' m = ?vp" using kd(5) by simp_all
  have sp: "space_ok K s' c" "space_ok K s' m"
    using r by (auto intro: space_ok_relinked [OF c(1) ptrs(1) kd(1), of tf] space_ok_relinked [OF m ptrs(2) kd(1), of tf])
  have "map (extent \<circ> area s) ?vc = map extent (areas s c)" by (simp add: areas_def)
  also have "\<dots> = map extent (areas s m)" unfolding c(3) by (simp add: copy_area_def extent_def)
  finally have ex: "map (extent \<circ> area s) ?vc = map (extent \<circ> area s) ?vp" by (simp add: areas_def)
  have "\<forall>v\<in>set ?vp. plain_area n s (area s v)" using pl by (simp add: areas_def)
  from forked_renewed [OF s'(2) this ex]
  have l: "list_all2 (renewed n s s') (areas s m) (areas s' c)" "list_all2 (renewed n s s') (areas s m) (areas s' m)"
    by (simp_all add: areas_def ptrs)
  have sub: "set ?vc \<subseteq> set (?vc @ ?vp)" "set ?vp \<subseteq> set (?vc @ ?vp)" by simp_all
  note tc = forked_tops [OF s'(2) ptrs(1) sub(1) dd(1)] and tm = forked_tops [OF s'(2) ptrs(2) sub(2) dd(2)]
  have "tf ` set ?vc \<inter> tf ` set ?vp = {}" using inj_on_image_Int [OF inj sub] dj by simp
  then have disj: "top_objs s' m \<inter> top_objs s' c = {}" "top_objs s' c \<inter> top_objs s' m = {}"
    unfolding tc(1) tm(1) by (simp_all add: Int_commute)
  note goal = renewed_user_space [OF us l(2) sp(2) tm(2)] renewed_user_space [OF us l(1) sp(1) tc(2)]
      renewed_separate [OF l(2,1) disj(1)] renewed_separate [OF l disj(2)] renewed_ubyte [OF l(2) g inv] renewed_ubyte [OF l(1) g inv]
  show ?thesis by (intro exI [of _ s'] conjI allI s'(1) g k goal)
qed

lemma fork_vm_memory:
  assumes cs: "cur_space n K s m" and pr: "\<forall>a\<in>set (areas s m). vma_flags a AND MAP_TYPE K = MAP_PRIVATE K"
    and room: "fork_room X s m c"
    and np: "procs s np = Some p" "p_state p = PROC_RUNNING" "p_pagedir p \<noteq> None" "curproc s \<noteq> Some np"
  shows "\<exists>s'. fork_vm K X np s = Inr s' \<and> procs s' = (procs s)(np \<mapsto> p\<lparr>p_vmmap := Some c\<rparr>) \<and>
    s' = s\<lparr>vmareas := vmareas s', vmmaps := vmmaps s', procs := procs s', mmobjs := mmobjs s'\<rparr> \<and>
    cur_space (Suc n) K s' m \<and> user_space (Suc n) K s' c \<and> separate (Suc n) s' m c \<and> separate (Suc n) s' c m \<and>
    (\<forall>disk b. ubyte (Suc n) K disk s' m b = ubyte n K disk s m b \<and> ubyte (Suc n) K disk s' c b = ubyte n K disk s m b)"
proof -
  obtain q cur where cur: "cur_proc s = Inr (q, cur)" "p_vmmap cur = Some m" and us: "user_space n K s m" and rd: "ready K s"
    by (rule cur_space_proc [OF cs])
  have q: "curproc s = Some q" "procs s q = Some cur" "q \<noteq> np" using cur(1) np(4) by (auto simp: cur_proc_def bindE_def deref_def split: option.splits)
  have sp: "space_ok K s m" using us by (simp add: user_space_def)
  obtain M N where X: "area_fresh X" "area_room X M" "vmmap_slab X s = Some c" "vmmaps s c = None" "finite (dom (vmareas s))"
      "card (dom (vmareas s)) + length (areas s m) \<le> M" "shadow_ok X N" "finite (dom (mmobjs s))" "card (dom (mmobjs s)) + 2 * length (areas s m) \<le> N"
    using room by (auto simp: fork_room_def)
  obtain s1 where s1: "vmmap_clone K X m s = Inr (Some c, s1)" "space_ok K s1 c" "areas s1 c = map (copy_area c) (areas s m)"
      "space_ok K s1 m" "areas s1 m = areas s m" "s1 = s\<lparr>vmareas := vmareas s1, vmmaps := vmmaps s1\<rparr>"
    using vmmap_clone_copies [OF X(1-4) sp X(5,6)] by blast
  have e1: "mmobjs s1 = mmobjs s" "procs s1 = procs s" "curproc s1 = curproc s" "queues s1 = queues s" "pframes s1 = pframes s"
      "pframe_hash s1 = pframe_hash s" "alloc_list s1 = alloc_list s" "pinned_list s1 = pinned_list s" "nallocated s1 = nallocated s" "npinned s1 = npinned s"
    by (subst s1(6), simp)+
  define s2 where "s2 = upd_proc np (\<lambda>x. x\<lparr>p_vmmap := Some c\<rparr>) s1"
  have e2: "mmobjs s2 = mmobjs s" "procs s2 = (procs s)(np \<mapsto> p\<lparr>p_vmmap := Some c\<rparr>)" "curproc s2 = curproc s" "queues s2 = queues s"
      "pframes s2 = pframes s" "pframe_hash s2 = pframe_hash s" "alloc_list s2 = alloc_list s" "pinned_list s2 = pinned_list s"
      "nallocated s2 = nallocated s" "npinned s2 = npinned s" "vmmaps s2 = vmmaps s1" "vmareas s2 = vmareas s1"
    using e1 np(1) by (simp_all add: s2_def upd_proc_def)
  have a2: "area_ptrs s2 = area_ptrs s1" "areas s2 = areas s1" by (auto simp: area_ptrs_def areas_def area_def e2(11,12))
  have sp2: "space_ok K s2 c" "space_ok K s2 m" using s1(2,4) by (simp_all add: space_ok_def a2 area_def e2(11,12))
  have inv: "pf_inv K s2" using rd by (intro pf_inv_cong [of K s s2]) (simp_all add: ready_def e2)
  have "areas s2 m = areas s m" "areas s2 c = map (copy_area c) (areas s2 m)" using s1(3,5) a2 by simp_all
  note ar = this
  have us2: "user_space n K s2 m" by (rule user_space_cong [OF e2(1) ar(1) sp2(2) us])
  have "c \<noteq> m" using X(4) sp by (auto simp: space_ok_def)
  from fork_loop_memory [OF inv us2 _ sp2(1) this ar(2) X(7)] pr X(8,9) ar(1) e2(1)
  obtain s' where s': "fork_loop K X (area_ptrs s2 c) (area_ptrs s2 m) s2 = Inr s'" "objs_grow s2 s'" "keeps_rest s2 s'"
      "user_space (Suc n) K s' m" "user_space (Suc n) K s' c" "separate (Suc n) s' m c" "separate (Suc n) s' c m"
      "\<forall>disk b. ubyte (Suc n) K disk s' m b = ubyte n K disk s2 m b \<and> ubyte (Suc n) K disk s' c b = ubyte n K disk s2 m b"
    by auto
  obtain vm vc where v: "vmmaps s2 m = Some vm" "vmm_list vm = area_ptrs s2 m" "vmmaps s2 c = Some vc" "vmm_list vc = area_ptrs s2 c"
    using space_okD(4) [OF sp2(1)] space_okD(4) [OF sp2(2)] by blast
  have "fork_loop K X (vmm_list vc) (vmm_list vm) s2 = Inr s'" unfolding v(2,4) by (rule s'(1))
  then have "fork_vm K X np s = Inr s'"
    using cur s1(1) np v(1,3) e1(2) unfolding s2_def by (simp add: fork_vm_def Let_def)
  moreover have "procs s' = (procs s)(np \<mapsto> p\<lparr>p_vmmap := Some c\<rparr>)" "curproc s' = Some q" "queues s' = queues s"
    using keeps_restD [OF s'(3)] e2 q by simp_all
  moreover have "quiet {} s'" using rd s'(2) e2(5) by (simp add: ready_def quiet_def objs_grow_def)
  then have "ready K s'" using objs_grow_inv [OF s'(2) inv] rd \<open>queues s' = queues s\<close> by (simp add: ready_def no_waiters_def)
  ultimately have "cur_space (Suc n) K s' m" using s'(4) q cur(2) by (simp add: cur_space_def)
  moreover have "s' = s\<lparr>vmareas := vmareas s', vmmaps := vmmaps s', procs := procs s', mmobjs := mmobjs s'\<rparr>"
    using s'(3) s1(6) unfolding keeps_rest_def s2_def upd_proc_def by (cases s; cases s1; cases s') simp
  ultimately show ?thesis
    using \<open>fork_vm K X np s = Inr s'\<close> \<open>procs s' = _\<close> s'(5-8) ubyte_cong [OF e2(1,5,6) ar(1)] by auto
qed

text \<open>A second process that has just been created, with nothing mapped yet.\<close>

definition demo_fork :: kstate where
  "demo_fork = demo_pair\<lparr>procs := [4 \<mapsto> demo_proc, 6 \<mapsto> demo_proc\<lparr>p_pid := 2, p_vmmap := None, p_pagedir := Some 6\<rparr>]\<rparr>"

lemma demo_fork_room: "fork_room demo_ext demo_fork 4 100"
proof -
  have "areas demo_fork 4 = areas demo_pair 4" by (simp add: areas_def area_ptrs_def area_def demo_fork_def)
  then have "length (areas demo_fork 4) = 1" by (simp add: demo_pair_areas)
  moreover have "dom (vmareas demo_fork) = {11, 12}" "dom (mmobjs demo_fork) = {1, 2, 3}"
    by (auto simp: demo_fork_def demo_pair_def demo_space_def two_shadows_def split: if_splits)
  moreover have "vmmap_slab demo_ext demo_fork = Some 100" "vmmaps demo_fork 100 = None"
    by (simp_all add: demo_ext_def free_cell_def demo_fork_def demo_pair_def)
  ultimately show ?thesis
    using demo_frames(3) demo_area_room demo_shadow_ok unfolding fork_room_def by (intro conjI exI [of _ 10]) simp_all
qed

lemma demo_fork_cur: "cur_space 2 i386 demo_fork 4"
proof -
  have e: "mmobjs demo_fork = mmobjs demo_pair" "areas demo_fork 4 = areas demo_pair 4"
    by (simp_all add: areas_def area_ptrs_def area_def demo_fork_def)
  have "space_ok i386 demo_fork 4" using demo_pair_user(1) space_frame(3) [of demo_fork 4 demo_pair i386]
    by (simp add: user_space_def demo_fork_def)
  from user_space_cong [OF e this demo_pair_user(1)] have "user_space 2 i386 demo_fork 4" .
  moreover have "pf_inv i386 demo_fork" by (rule pf_inv_cong [OF two_shadows_inv]) (simp_all add: demo_fork_def demo_pair_def demo_space_def)
  then have "ready i386 demo_fork"
    using two_shadows_quiet by (simp add: ready_def no_waiters_def quiet_def demo_fork_def demo_pair_def demo_space_def)
  ultimately show ?thesis by (simp add: cur_space_def demo_fork_def demo_pair_def demo_space_def demo_proc_def)
qed

lemma demo_fork_proc:
  "\<forall>a\<in>set (areas demo_fork 4). vma_flags a AND MAP_TYPE i386 = MAP_PRIVATE i386"
  "procs demo_fork 6 = Some (demo_proc\<lparr>p_pid := 2, p_vmmap := None, p_pagedir := Some 6\<rparr>)" "curproc demo_fork \<noteq> Some 6"
  "p_state (demo_proc\<lparr>p_pid := 2, p_vmmap := None, p_pagedir := Some 6\<rparr>) = PROC_RUNNING"
proof -
  have "areas demo_fork 4 = areas demo_pair 4" by (simp add: areas_def area_ptrs_def area_def demo_fork_def)
  then show "\<forall>a\<in>set (areas demo_fork 4). vma_flags a AND MAP_TYPE i386 = MAP_PRIVATE i386"
    by (simp add: demo_pair_areas demo_area_def i386_def)
qed (simp_all add: demo_fork_def demo_pair_def demo_space_def demo_proc_def)

lemma ubyte_None:
  assumes "user_space n K s m"
  shows "ubyte n K disk s m a = None \<longleftrightarrow> mapped (areas s m) (ADDR_TO_PN K a) = None"
proof (cases "mapped (areas s m) (ADDR_TO_PN K a)")
  case (Some mp)
  show ?thesis by (rule user_space_mapped [OF assms Some]) (use Some in \<open>auto simp: ubyte_def\<close>)
qed (simp add: ubyte_def)

lemma user_range_ubyte:
  assumes "user_space n K s m" "user_space n' K s' m'" "\<And>b. ubyte n' K disk s' m' b = ubyte n K disk s m b" "user_range K s m a len"
  shows "user_range K s' m' a len"
  using assms(3,4) ubyte_None [OF assms(1), of disk] ubyte_None [OF assms(2), of disk] unfolding user_range_def by metis

section \<open>Properties\<close>

text \<open>C2: after a fork of a process with private memory the child does not see what the parent writes.  Whatever the
  kernel then copies into the memory of the parent changes the parent's bytes in that range only, and the child still sees, byte by byte,
  the memory that the parent had at the time of the fork, although both started from the same frames.\<close>

theorem fork_isolates:
  assumes "mem_ok K X disk" and "paging_ok K" and "cur_space n K s m"
    and "\<forall>a\<in>set (areas s m). vma_flags a AND MAP_TYPE K = MAP_PRIVATE K" and "fork_room X s m c"
    and "procs s np = Some p" and "p_state p = PROC_RUNNING" and "p_pagedir p \<noteq> None" and "curproc s \<noteq> Some np"
    and "user_range K s m a len"
  shows "\<exists>s1 s2. fork_vm K X np s = Inr s1 \<and> copy_to_user (Suc n) K X a buf len s1 = Inr (0, s2) \<and>
    (\<forall>b. ubyte (Suc n) K disk s2 m b = (if b - a < len then Some (buf (b - a)) else ubyte n K disk s m b)) \<and>
    (\<forall>b. ubyte (Suc n) K disk s2 c b = ubyte n K disk s m b)"
proof -
  obtain s1 where s1: "fork_vm K X np s = Inr s1" "cur_space (Suc n) K s1 m" "user_space (Suc n) K s1 c" "separate (Suc n) s1 m c"
      "\<forall>b. ubyte (Suc n) K disk s1 m b = ubyte n K disk s m b \<and> ubyte (Suc n) K disk s1 c b = ubyte n K disk s m b"
    using fork_vm_memory [OF assms(3-9)] by blast
  have us: "user_space n K s m" "user_space (Suc n) K s1 m" using assms(3) s1(2) by (simp_all add: cur_space_def)
  have eq: "ubyte (Suc n) K disk s1 m b = ubyte n K disk s m b" for b using s1(5) by blast
  have r: "user_range K s1 m a len" by (rule user_range_ubyte [OF us eq assms(10)])
  obtain s2 where s2: "copy_to_user (Suc n) K X a buf len s1 = Inr (0, s2)" "wrote (Suc n) K disk m a len buf s1 s2"
    using copy_to_user_writes [OF assms(1,2) s1(2) r] by blast
  have "ubyte (Suc n) K disk s2 c b = ubyte n K disk s m b" for b
    using wrote_separate [OF assms(2) s2(2) s1(3,4)] s1(5) by simp
  moreover have "ubyte (Suc n) K disk s2 m b = (if b - a < len then Some (buf (b - a)) else ubyte n K disk s m b)" for b
    using s2(2) s1(5) by (simp add: wrote_def)
  ultimately show ?thesis using s1(1) s2(1) by blast
qed

theorem fork_isolates_witness:
  "\<exists>s1 s2. fork_vm i386 demo_ext 6 demo_fork = Inr s1 \<and>
     copy_to_user 3 i386 demo_ext 0x500F00 (\<lambda>i. ucast i) 0x300 s1 = Inr (0, s2) \<and>
     ubyte 3 i386 demo_disk s2 4 0x500F17 = Some 0x17 \<and> ubyte 3 i386 demo_disk s2 100 0x500F17 = Some 5"
proof -
  have ar: "areas demo_fork 4 = areas demo_pair 4" by (simp add: areas_def area_ptrs_def area_def demo_fork_def)
  have "page_of i386 demo_pair 2 0 = None" "page_of i386 demo_pair 1 0 = Some 7"
    by (simp_all add: page_of_def hash_page_def i386_def demo_pair_def demo_space_def two_shadows_defs)
  then have "seen i386 demo_disk demo_pair [2, 1] 0 i = 5" for i
    by (simp add: frame_data_def demo_pair_def demo_space_def two_shadows_defs)
  then have "ubyte 2 i386 demo_disk demo_pair 4 0x500F17 = Some 5"
    by (simp add: ubyte_def demo_pair_areas mapped_Cons covers_def demo_area_def page_map_def i386_def
        demo_pair_layers del: layers.simps seen.simps)
  then have five: "ubyte 2 i386 demo_disk demo_fork 4 0x500F17 = Some 5"
    using ubyte_cong [of demo_fork demo_pair 4 2 i386 demo_disk "0x500F17"] ar by (simp add: demo_fork_def)
  have r: "user_range i386 demo_fork 4 0x500F00 0x300" using demo_pair_range ar by (simp add: user_range_def)
  have pd: "p_pagedir (demo_proc\<lparr>p_pid := 2, p_vmmap := None, p_pagedir := Some 6\<rparr>) \<noteq> None" by simp
  obtain s1 s2 where "fork_vm i386 demo_ext 6 demo_fork = Inr s1"
      "copy_to_user (Suc 2) i386 demo_ext 0x500F00 (\<lambda>i. ucast i) 0x300 s1 = Inr (0, s2)"
      "\<forall>b. ubyte (Suc 2) i386 demo_disk s2 4 b = (if b - 0x500F00 < 0x300 then Some (ucast (b - 0x500F00)) else ubyte 2 i386 demo_disk demo_fork 4 b)"
      "\<forall>b. ubyte (Suc 2) i386 demo_disk s2 100 b = ubyte 2 i386 demo_disk demo_fork 4 b"
    using fork_isolates [OF demo_mem_ok i386_paging demo_fork_cur demo_fork_proc(1) demo_fork_room demo_fork_proc(2,4) pd demo_fork_proc(3) r,
        of "\<lambda>i. ucast i"] by blast
  with five show ?thesis by (intro exI [of _ s1] exI [of _ s2]) simp
qed

end
