(* ===== verification/Fork_Process.thy ===== *)
theory Fork_Process
  imports Fork_Memory
begin

text \<open>
  The whole of \<^verbatim>\<open>do_fork\<close>: creating the process, copying the address space,
  sharing the open files and starting the thread.  The lemmas give the state
  after each step; the theorem puts them together.
\<close>

section \<open>Creating the process\<close>

text \<open>
  What is relied on of the routines outside the repository: references to vnodes
  and files are counted, the page directory routines change page tables only, and
  there is room for a page directory and a stack.
\<close>

definition fork_env :: "kext \<Rightarrow> kenv \<Rightarrow> bool" where
  "fork_env X E \<longleftrightarrow> refs_ok E \<and>
     (\<forall>s. \<exists>pd t. pt_create_pagedir E s = (Some pd, s\<lparr>pagetabs := t\<rparr>)) \<and>
     (\<forall>v s. vnodes s v \<noteq> None \<longrightarrow> vget_root E v s = Inr (bump v 1 s)) \<and>
     (\<forall>f s fl. files s f = Some fl \<longrightarrow> fref E f s = Inr (s\<lparr>files := (files s)(f \<mapsto> fl\<lparr>f_refcount := f_refcount fl + 1\<rparr>)\<rparr>)) \<and>
     (\<forall>pd lo hi s. \<exists>t. pt_unmap_range X pd lo hi s = s\<lparr>pagetabs := t\<rparr>) \<and> (\<forall>s. page_alloc_n E s \<noteq> None)"

lemma fork_envD:
  assumes "fork_env X E"
  shows "refs_ok E" "\<exists>pd t. pt_create_pagedir E s = (Some pd, s\<lparr>pagetabs := t\<rparr>)"
    "vnodes s v \<noteq> None \<Longrightarrow> vget_root E v s = Inr (bump v 1 s)"
    "files s f = Some fl \<Longrightarrow> fref E f s = Inr (s\<lparr>files := (files s)(f \<mapsto> fl\<lparr>f_refcount := f_refcount fl + 1\<rparr>)\<rparr>)"
    "\<exists>t. pt_unmap_range X pd lo hi s = s\<lparr>pagetabs := t\<rparr>" "\<exists>a. alloc_stack E s = Some a"
  using assms unfolding fork_env_def alloc_stack_def by blast+

text \<open>The state after \<^verbatim>\<open>proc_create\<close>.\<close>

definition after_create ::
  "kconsts \<Rightarrow> int \<Rightarrow> string \<Rightarrow> ptr \<Rightarrow> ptr \<Rightarrow> proc \<Rightarrow> ptr \<Rightarrow> ptr \<Rightarrow> ptr \<Rightarrow> int \<Rightarrow> (ptr \<Rightarrow> u32 \<Rightarrow> pte option) \<Rightarrow> kstate \<Rightarrow> kstate" where
  "after_create K pid name p c cr r pd m k t s = (bump r 1 s)\<lparr>next_pid := k,
     procs := (procs s)(c \<mapsto> cr\<lparr>p_children := p # p_children cr\<rparr>, p \<mapsto> created K pid name c cr (Some r) (Some pd) m),
     queues := (queues s)(Waitq p := empty_queue), pagetabs := t, proc_list := p # proc_list s,
     vmmaps := (vmmaps s)(m \<mapsto> \<lparr>vmm_list = [], vmm_proc = Some p\<rparr>)\<rparr>"

lemma bump_keeps [simp]:
  "vmmaps (bump v k s) = vmmaps s" "procs (bump v k s) = procs s" "threads (bump v k s) = threads s" "queues (bump v k s) = queues s"
  "curproc (bump v k s) = curproc s" "curthr (bump v k s) = curthr s" "mmobjs (bump v k s) = mmobjs s" "files (bump v k s) = files s"
  "vmareas (bump v k s) = vmareas s" "pframes (bump v k s) = pframes s" "pframe_hash (bump v k s) = pframe_hash s"
  "proc_list (bump v k s) = proc_list s" "kmem_ptr (bump v k s) = kmem_ptr s" "kmem_regs (bump v k s) = kmem_regs s"
  "alloc_list (bump v k s) = alloc_list s" "pinned_list (bump v k s) = pinned_list s" "nallocated (bump v k s) = nallocated s"
  "npinned (bump v k s) = npinned s" "vnodes (bump v k s) v = map_option (\<lambda>x. x\<lparr>vn_refcount := vn_refcount x + k\<rparr>) (vnodes s v)"
  "w \<noteq> v \<Longrightarrow> vnodes (bump v k s) w = vnodes s w"
  by (simp_all add: bump_def upd_vnode_def)

lemma proc_create_exact:
  assumes E: "fork_env X E" and root: "vfs_root_vn s = Some r" "vnodes s r \<noteq> None"
    and p: "proc_slab E s = Some p" "procs s p = None" and c: "curproc s = Some c" "procs s c = Some cr"
    and g: "proc_getid K s = Inr (pid, s\<lparr>next_pid := k\<rparr>)" "pid \<noteq> PID_IDLE K" "pid \<noteq> PID_INIT K" "1 < pid"
    and m: "\<forall>s'. vmmaps s' = vmmaps s \<longrightarrow> vmmap_slab X s' = Some m"
  shows "\<exists>pd t. proc_create K X E name s = Inr (p, after_create K pid name p c cr r pd m k t s)"
proof -
  let ?s1 = "s\<lparr>next_pid := k, procs := (procs s)(p \<mapsto> new_proc K pid name (Some c))\<rparr>"
  let ?s2 = "sched_queue_init (Waitq p) (upd_proc c (\<lambda>x. x\<lparr>p_children := p # p_children x\<rparr>) ?s1)"
  obtain pd t where pd: "pt_create_pagedir E ?s2 = (Some pd, ?s2\<lparr>pagetabs := t\<rparr>)" using fork_envD(2) [OF E] by blast
  have pc: "p \<noteq> c" using p c by auto
  let ?s5 = "(upd_proc p (\<lambda>x. x\<lparr>p_pagedir := Some pd\<rparr>) (?s2\<lparr>pagetabs := t\<rparr>))\<lparr>proc_list := p # proc_list s\<rparr>"
  let ?s6 = "bump r 1 (upd_proc p (\<lambda>x. x\<lparr>p_cwd := Some r\<rparr>) ?s5)"
  have s6: "proc_set_cwd E p pid ?s5 = Inr ?s6"
    using fork_envD(3) [OF E] root g(4) by (simp add: proc_set_cwd_def sched_queue_init_def upd_proc_def)
  have "vmmap_slab X ?s6 = Some m" using m by (simp add: sched_queue_init_def)
  then have s7: "proc_set_vm K X p pid ?s6 = Inr (after_create K pid name p c cr r pd m k t s)"
    using pc c g(2,4) p(2)
    by (simp add: proc_set_vm_def vmmap_create_def Let_def upd_map_def bump_def upd_vnode_def sched_queue_init_def upd_proc_def
       after_create_def created_def new_proc_def fun_upd_twist [of p c])
  have l: "proc_list ?s2 = proc_list s" by (simp add: sched_queue_init_def)
  have "proc_create K X E name s = Inr (p, after_create K pid name p c cr r pd m k t s)"
    using p(1) g c(1) pd s6 s7 l by (simp add: proc_create_def Let_def)
  then show ?thesis by blast
qed

section \<open>Sharing the open files\<close>

text \<open>Each file has one more reference for each of the descriptors in the list.\<close>

definition more_refs :: "ptr option list \<Rightarrow> (ptr \<Rightarrow> ofile option) \<Rightarrow> ptr \<Rightarrow> ofile option" where
  "more_refs fs m f = map_option (\<lambda>x. x\<lparr>f_refcount := f_refcount x + int (count_list fs (Some f))\<rparr>) (m f)"

lemma more_refs_Nil [simp]: "more_refs [] m = m"
  by (rule ext) (simp add: more_refs_def option.map_ident_strong)

lemma more_refs_Cons:
  "more_refs (e # es) m = more_refs es (case e of None \<Rightarrow> m | Some f \<Rightarrow> m(f := map_option (\<lambda>x. x\<lparr>f_refcount := f_refcount x + 1\<rparr>) (m f)))"
  by (rule ext) (auto simp: more_refs_def option.map_comp o_def add.assoc split: option.split)

lemma fork_files_effect:
  assumes "fork_env X E" and "procs s p = Some cur" and "procs s np = Some x" and "np \<noteq> p"
    and "length (p_files x) = length (p_files cur)" and "\<forall>i\<in>set is. i < length (p_files cur)"
    and "\<forall>f. Some f \<in> set (p_files cur) \<longrightarrow> files s f \<noteq> None"
  shows "fork_files E np p is s = Inr (s\<lparr>files := more_refs (map (\<lambda>i. p_files cur ! i) is) (files s),
     procs := (procs s)(np \<mapsto> x\<lparr>p_files := fold (\<lambda>i fs. fs[i := p_files cur ! i]) is (p_files x)\<rparr>)\<rparr>)"
  using assms(2-)
proof (induction "is" arbitrary: s x)
  case Nil
  then show ?case by (simp add: fun_upd_idem)
next
  case (Cons i js)
  let ?e = "p_files cur ! i"
  let ?x = "x\<lparr>p_files := (p_files x)[i := ?e]\<rparr>"
  let ?s1 = "s\<lparr>procs := (procs s)(np \<mapsto> ?x)\<rparr>"
  let ?fs = "case ?e of None \<Rightarrow> files s | Some f \<Rightarrow> (files s)(f := map_option (\<lambda>x. x\<lparr>f_refcount := f_refcount x + 1\<rparr>) (files s f))"
  let ?s2 = "?s1\<lparr>files := ?fs\<rparr>"
  have i: "i < length (p_files cur)" "\<And>f. ?e = Some f \<Longrightarrow> files s f \<noteq> None"
    using Cons.prems(5,6) nth_mem [of i "p_files cur"] by auto
  have r: "(case ?e of Some g \<Rightarrow> fref E g ?s1 | None \<Rightarrow> Inr ?s1) = Inr ?s2"
    using i(2) by (auto simp: fork_envD(4) [OF assms(1)] split: option.splits)
  have "fork_files E np p (i # js) s = fork_files E np p js ?s2" using r Cons.prems(1-4) i(1) by (simp add: get_fd_def set_fd_def upd_proc_def)
  also have "\<dots> = Inr (?s2\<lparr>files := more_refs (map (\<lambda>i. p_files cur ! i) js) (files ?s2),
     procs := (procs ?s2)(np \<mapsto> ?x\<lparr>p_files := fold (\<lambda>i fs. fs[i := p_files cur ! i]) js (p_files ?x)\<rparr>)\<rparr>)"
    by (rule Cons.IH) (use Cons.prems in \<open>auto split: option.split\<close>)
  also have "(procs ?s2)(np \<mapsto> ?x\<lparr>p_files := fold (\<lambda>i fs. fs[i := p_files cur ! i]) js (p_files ?x)\<rparr>) =
      (procs s)(np \<mapsto> x\<lparr>p_files := fold (\<lambda>i fs. fs[i := p_files cur ! i]) (i # js) (p_files x)\<rparr>)" (is "_ = ?p") by simp
  also have "more_refs (map (\<lambda>i. p_files cur ! i) js) (files ?s2) = more_refs (map (\<lambda>i. p_files cur ! i) (i # js)) (files s)" (is "_ = ?f")
    by (simp add: more_refs_Cons)
  also have "?s2\<lparr>files := ?f, procs := ?p\<rparr> = s\<lparr>files := ?f, procs := ?p\<rparr>" by (cases s) (simp only: kstate.simps)
  finally show ?case .
qed

lemma fold_update_all:
  "length xs = length ys \<Longrightarrow> k \<le> length ys \<Longrightarrow> fold (\<lambda>i fs. fs[i := ys ! i]) [0..<k] xs = take k ys @ drop k xs"
proof (induction k)
  case (Suc k)
  then have "drop k xs = xs ! k # drop (Suc k) xs" by (simp add: Cons_nth_drop_Suc)
  with Suc show ?case by (simp add: list_update_append take_Suc_conv_app_nth)
qed simp

lemma fork_files_all:
  assumes "fork_env X E" "procs s p = Some cur" "procs s np = Some x" "np \<noteq> p"
    and "length (p_files x) = length (p_files cur)" "NFILES K = length (p_files cur)" "\<forall>f. Some f \<in> set (p_files cur) \<longrightarrow> files s f \<noteq> None"
  shows "fork_files E np p [0..<NFILES K] s = Inr (s\<lparr>files := more_refs (p_files cur) (files s),
     procs := (procs s)(np \<mapsto> x\<lparr>p_files := p_files cur\<rparr>)\<rparr>)"
  using fork_files_effect [OF assms(1-5) _ assms(7), of "[0..<NFILES K]"] fold_update_all [OF assms(5), of "NFILES K"]
  by (simp add: assms(5,6) map_nth)

section \<open>Steps that leave the memory alone\<close>

definition same_mem :: "kstate \<Rightarrow> kstate \<Rightarrow> bool" where
  "same_mem s s' \<longleftrightarrow>
     (mmobjs s', pframes s', pframe_hash s', alloc_list s', pinned_list s', nallocated s', npinned s', vmareas s') =
     (mmobjs s, pframes s, pframe_hash s, alloc_list s, pinned_list s, nallocated s, npinned s, vmareas s) \<and>
     (\<forall>p. queues s' (Pfq p) = queues s (Pfq p))"

lemma same_mem_areas: "same_mem s s' \<Longrightarrow> vmmaps s' m = vmmaps s m \<Longrightarrow> areas s' m = areas s m"
  by (rule space_frame(2)) (simp_all add: same_mem_def)

lemma same_mem_ready: "same_mem s s' \<Longrightarrow> ready K s \<Longrightarrow> ready K s'"
  using pf_inv_cong [of K s s'] by (simp add: same_mem_def ready_def no_waiters_def quiet_def)

lemma same_mem_user_space:
  assumes "same_mem s s'" "vmmaps s' m = vmmaps s m" "user_space n K s m"
  shows "user_space n K s' m"
proof -
  have "space_ok K s' m" using space_frame(3) [of s' m s K] assms by (simp add: same_mem_def user_space_def)
  then show ?thesis using assms same_mem_areas [OF assms(1,2)] by (intro user_space_cong [of s' s m K n]) (simp_all add: same_mem_def)
qed

lemma same_mem_ubyte: "same_mem s s' \<Longrightarrow> vmmaps s' m = vmmaps s m \<Longrightarrow> ubyte n K disk s' m b = ubyte n K disk s m b"
  using same_mem_areas [of s s' m] by (intro ubyte_cong) (simp_all add: same_mem_def)

lemma same_mem_separate:
  assumes "same_mem s s'" "vmmaps s' = vmmaps s" "separate n s m m'"
  shows "separate n s' m m'"
proof -
  have sh: "shape s' = shape s" using assms(1) by (intro shape_cong) (simp add: same_mem_def)
  have "top_objs s' = top_objs s" using same_mem_areas [OF assms(1)] assms(2) by (intro ext) (simp add: top_objs_def)
  then show ?thesis using assms(3) by (simp add: separate_def layers_shape [OF sh])
qed

lemma same_mem_cur_space:
  assumes "same_mem s s'" "vmmaps s' m = vmmaps s m" "cur_space n K s m" "curproc s' = Some p" "procs s' p = Some cur" "p_vmmap cur = Some m"
  shows "cur_space n K s' m"
  using assms same_mem_ready [OF assms(1)] same_mem_user_space [OF assms(1,2)] by (simp add: cur_space_def)

section \<open>The caller and the allocators\<close>

text \<open>The caller: a running process with a thread, open files and a working directory, below a root directory that is in use.\<close>

definition fork_caller :: "kconsts \<Rightarrow> kstate \<Rightarrow> ptr \<Rightarrow> proc \<Rightarrow> ptr \<Rightarrow> bool" where
  "fork_caller K s p cur w \<longleftrightarrow> curproc s = Some p \<and> procs s p = Some cur \<and> p_state cur = PROC_RUNNING \<and>
     length (p_files cur) = NFILES K \<and> (\<forall>f. Some f \<in> set (p_files cur) \<longrightarrow> files s f \<noteq> None) \<and>
     p_cwd cur = Some w \<and> vnodes s w \<noteq> None \<and>
     (\<exists>t thr. curthr s = Some t \<and> threads s t = Some thr \<and> kt_state thr = KT_RUN) \<and>
     (\<exists>r vn. vfs_root_vn s = Some r \<and> vnodes s r = Some vn \<and> 0 < vn_refcount vn)"

text \<open>The allocators: the cells for the process, its first address space, which is dropped, its second and its thread.\<close>

definition fork_cells :: "kext \<Rightarrow> kenv \<Rightarrow> kstate \<Rightarrow> ptr \<Rightarrow> ptr \<Rightarrow> ptr \<Rightarrow> ptr \<Rightarrow> ptr \<Rightarrow> bool" where
  "fork_cells X E s np m0 m c nt \<longleftrightarrow> proc_slab E s = Some np \<and> procs s np = None \<and>
     (\<forall>s'. vmmaps s' = vmmaps s \<longrightarrow> vmmap_slab X s' = Some m0) \<and> vmmaps s m0 = None \<and>
     (\<forall>s'. vmmaps s' = (vmmaps s)(m0 \<mapsto> \<lparr>vmm_list = [], vmm_proc = Some np\<rparr>) \<and> vmareas s' = vmareas s \<and> mmobjs s' = mmobjs s \<longrightarrow>
        fork_room X s' m c) \<and>
     (\<forall>s'. threads s' = threads s \<longrightarrow> kthread_slab E s' = Some nt) \<and> threads s nt = None"

text \<open>The process and the thread that the call makes.\<close>

definition forked_proc :: "kconsts \<Rightarrow> int \<Rightarrow> ptr \<Rightarrow> proc \<Rightarrow> ptr \<Rightarrow> ptr \<Rightarrow> ptr \<Rightarrow> proc" where
  "forked_proc K pid p cur pd c nt =
     (new_proc K pid ''newproc'' (Some p))\<lparr>p_pagedir := Some pd, p_cwd := p_cwd cur, p_vmmap := Some c, p_brk := p_brk cur,
        p_start_brk := p_start_brk cur, p_files := p_files cur, p_threads := [nt]\<rparr>"

lemma new_runnable:
  assumes "threads s t = Some thr" "kt_wchan thr = None" "kt_qlink thr = None"
  shows "sched_make_runnable K t s = Inr (runnable_state t thr s)"
  using assms by (cases s) (simp add: sched_make_runnable_def ktqueue_enqueue_def upd_thread_def intr_setipl_def runnable_state_def Let_def)

lemma root_given_back:
  assumes "refs_ok E" "vnodes s r = Some vn" "0 < vn_refcount vn" "vnodes s1 = vnodes (bump r 1 s)"
  shows "\<exists>s2. vput E r s1 = Inr s2 \<and> s2 = s1\<lparr>vnodes := vnodes s\<rparr>"
proof -
  have "vnodes s1 r = Some (vn\<lparr>vn_refcount := vn_refcount vn + 1\<rparr>)" using assms(2,4) by simp
  then have "vput E r s1 = Inr (bump r (- 1) s1)" using assms(1,3) by (simp add: refs_ok_def)
  moreover have "bump r (- 1) s1 = s1\<lparr>vnodes := vnodes s\<rparr>"
    using assms(2) unfolding bump_def upd_vnode_def assms(4) by (simp add: fun_upd_idem)
  ultimately show ?thesis by simp
qed

definition forked_thread :: "kconsts \<Rightarrow> kthread \<Rightarrow> ptr \<Rightarrow> ptr option \<Rightarrow> ptr \<Rightarrow> kthread" where
  "forked_thread K thr np pd stack =
     \<lparr>kt_kstack = Some stack, kt_retval = kt_retval thr, kt_errno = kt_errno thr, kt_proc = Some np, kt_cancelled = kt_cancelled thr,
      kt_wchan = Some Runq, kt_state = KT_RUN, kt_qlink = Some Runq, kt_plink = Some np, kt_ipl = None,
      kt_ctx = zero_context\<lparr>c_eip := userland_entry K, c_esp := of_nat stack + DEFAULT_STACK_SIZE K - (sizeof_regs K + 12),
        c_kstack := of_nat stack, c_kstacksz := DEFAULT_STACK_SIZE K, c_pdptr := pd\<rparr>\<rparr>"

text \<open>The new thread with its stack, on the run queue.\<close>

definition started :: "kconsts \<Rightarrow> regs \<Rightarrow> ptr \<Rightarrow> proc \<Rightarrow> ptr \<Rightarrow> kthread \<Rightarrow> ptr \<Rightarrow> kstate \<Rightarrow> kstate" where
  "started K regs np y nt thr stack s =
     (let esp = of_nat stack + DEFAULT_STACK_SIZE K - (sizeof_regs K + 12)
      in runnable_state nt (forked_thread K thr np (p_pagedir y) stack)
        (s\<lparr>kmem_ptr := (kmem_ptr s)(esp + 4 \<mapsto> esp + 8), kmem_regs := (kmem_regs s)(esp + 8 \<mapsto> regs),
           procs := (procs s)(np \<mapsto> y\<lparr>p_threads := p_threads y @ [nt]\<rparr>)\<rparr>))"

lemma fork_starts:
  assumes y: "procs s np = Some y" and thr1: "threads s nt = Some \<lparr>kt_kstack = Some stack, kt_retval = kt_retval thr, kt_errno = kt_errno thr,
     kt_proc = None, kt_cancelled = kt_cancelled thr, kt_wchan = None, kt_state = KT_RUN, kt_qlink = None, kt_plink = None, kt_ipl = None,
     kt_ctx = zero_context\<lparr>c_kstack := of_nat stack\<rparr>\<rparr>"
  shows "\<exists>s8. fork_thread K regs np nt s = Inr s8 \<and> sched_make_runnable K nt s8 = Inr (started K regs np y nt thr stack s)"
proof -
  define esp where "esp = of_nat stack + DEFAULT_STACK_SIZE K - (sizeof_regs K + 12)"
  define thr8 where "thr8 = (forked_thread K thr np (p_pagedir y) stack)\<lparr>kt_wchan := None, kt_qlink := None\<rparr>"
  define s8 where "s8 = s\<lparr>kmem_ptr := (kmem_ptr s)(esp + 4 \<mapsto> esp + 8), kmem_regs := (kmem_regs s)(esp + 8 \<mapsto> regs),
     threads := (threads s)(nt \<mapsto> thr8), procs := (procs s)(np \<mapsto> y\<lparr>p_threads := p_threads y @ [nt]\<rparr>)\<rparr>"
  have "fork_thread K regs np nt s = Inr s8"
    using y thr1
    by (simp add: fork_thread_def fork_setup_stack_def Let_def s8_def thr8_def forked_thread_def esp_def upd_proc_def upd_thread_def)
  moreover have "sched_make_runnable K nt s8 = Inr (runnable_state nt thr8 s8)"
    by (rule new_runnable) (simp_all add: s8_def thr8_def)
  moreover have "runnable_state nt thr8 s8 = started K regs np y nt thr stack s"
    by (simp add: started_def Let_def runnable_state_def s8_def thr8_def forked_thread_def esp_def)
  ultimately show ?thesis by auto
qed

lemma do_fork_rest:
  assumes E: "fork_env X E" and cur: "curproc s = Some p" "procs s p = Some cr" "p_state cr = PROC_RUNNING"
    and pc: "proc_create K X E ''newproc'' s = Inr (np, s1)" "fork_vm K X np s1 = Inr s2"
    and s2: "curproc s2 = Some p" "procs s2 p = Some cur" "procs s2 np = Some x" "np \<noteq> p" "curthr s2 = Some t" "threads s2 t = Some thr"
    and th: "kt_state thr = KT_RUN" "\<forall>s'. threads s' = threads s2 \<longrightarrow> kthread_slab E s' = Some nt"
    and fs: "length (p_files x) = length (p_files cur)" "NFILES K = length (p_files cur)" "\<forall>f. Some f \<in> set (p_files cur) \<longrightarrow> files s2 f \<noteq> None"
    and wd: "p_cwd x = Some r" "vnodes s r = Some vn" "0 < vn_refcount vn" "vnodes s2 = vnodes (bump r 1 s)" "p_cwd cur = Some w" "vnodes s w \<noteq> None"
  shows "\<exists>s' stack. do_fork K X E regs s = Inr (p_pid x, regs\<lparr>r_eax := 0\<rparr>, s') \<and> same_mem s2 s' \<and> vmmaps s' = vmmaps s2 \<and>
    procs s' = (procs s2)(np \<mapsto> x\<lparr>p_brk := p_brk cur, p_start_brk := p_start_brk cur, p_files := p_files cur,
      p_threads := p_threads x @ [nt], p_cwd := Some w\<rparr>) \<and> files s' = more_refs (p_files cur) (files s2) \<and> vnodes s' = vnodes (bump w 1 s) \<and>
    proc_list s' = proc_list s2 \<and> curproc s' = curproc s2 \<and> curthr s' = curthr s2 \<and> 
    threads s' = (threads s2)(nt \<mapsto> forked_thread K thr np (p_pagedir x) stack) \<and> waiting Runq s' = waiting Runq s2 @ [nt] \<and>
    (let esp = of_nat stack + DEFAULT_STACK_SIZE K - (sizeof_regs K + 12)
     in kmem_ptr s' (esp + 4) = Some (esp + 8) \<and> kmem_regs s' (esp + 8) = Some (regs\<lparr>r_eax := 0\<rparr>))"
proof -
  obtain stack where st: "alloc_stack E s2 = Some stack" using fork_envD(6) [OF E] by blast
  define thr1 where "thr1 = \<lparr>kt_kstack = Some stack, kt_retval = kt_retval thr, kt_errno = kt_errno thr, kt_proc = None,
     kt_cancelled = kt_cancelled thr, kt_wchan = None, kt_state = KT_RUN, kt_qlink = None, kt_plink = None, kt_ipl = None,
     kt_ctx = zero_context\<lparr>c_kstack := of_nat stack\<rparr>\<rparr>"
  define s3 where "s3 = s2\<lparr>threads := (threads s2)(nt \<mapsto> thr1)\<rparr>"
  have c3: "kthread_clone E t s2 = Inr (nt, s3)" using s2(6) th st by (simp add: kthread_clone_def s3_def thr1_def)
  let ?x4 = "x\<lparr>p_brk := p_brk cur, p_start_brk := p_start_brk cur\<rparr>"
  define s4 where "s4 = upd_proc np (\<lambda>x. x\<lparr>p_brk := p_brk cur, p_start_brk := p_start_brk cur\<rparr>) s3"
  obtain pts where pt: "pt_unmap_range X (p_pagedir cur) (USER_MEM_LOW K) (USER_MEM_HIGH K) s4 = s4\<lparr>pagetabs := pts\<rparr>"
    using fork_envD(5) [OF E] by blast
  define s5 where "s5 = s4\<lparr>pagetabs := pts\<rparr>"
  have p5: "procs s5 p = Some cur" "procs s5 np = Some ?x4" "files s5 = files s2" using s2 by (simp_all add: s5_def s4_def s3_def upd_proc_def)
  define s6 where "s6 = s5\<lparr>files := more_refs (p_files cur) (files s5), procs := (procs s5)(np \<mapsto> ?x4\<lparr>p_files := p_files cur\<rparr>)\<rparr>"
  have f6: "fork_files E np p [0..<NFILES K] s5 = Inr s6"
    unfolding s6_def by (rule fork_files_all [OF E p5(1,2) s2(4)]) (use fs p5(3) in simp_all)
  have "vnodes s6 = vnodes (bump r 1 s)" using wd(4) by (simp add: s6_def s5_def s4_def s3_def upd_proc_def)
  then obtain s7 where s7: "vput E r s6 = Inr s7" "s7 = s6\<lparr>vnodes := vnodes s\<rparr>" using root_given_back [OF fork_envD(1) [OF E] wd(2,3)] by blast
  let ?r = "regs\<lparr>r_eax := 0\<rparr>" and ?y = "?x4\<lparr>p_files := p_files cur\<rparr>"
  have e7: "threads s7 = (threads s2)(nt \<mapsto> thr1)" "procs s7 = (procs s2)(np \<mapsto> ?y)"
    using s2(3) by (simp_all add: s7(2) s6_def s5_def s4_def s3_def upd_proc_def)
  obtain s8 where s8: "fork_thread K ?r np nt s7 = Inr s8" "sched_make_runnable K nt s8 = Inr (started K ?r np ?y nt thr stack s7)"
    using fork_starts [of s7 np ?y nt stack thr] e7 by (auto simp: thr1_def)
  define s9 where "s9 = started K ?r np ?y nt thr stack s7"
  define s' where "s' = bump w 1 (upd_proc np (\<lambda>x. x\<lparr>p_cwd := Some w\<rparr>) s9)"
  have e9: "curproc s9 = Some p" "procs s9 p = Some cur" "vnodes s9 = vnodes s"
    using s2 e7 by (simp_all add: s9_def started_def Let_def runnable_state_def s7(2) s6_def s5_def s4_def s3_def upd_proc_def)
  then have c10: "fork_cwd E np s9 = Inr s'"
    using wd(5,6) fork_envD(1) [OF E] by (auto simp: fork_cwd_def cur_proc_def s'_def refs_ok_def)
  have "do_fork K X E regs s = Inr (p_pid x, ?r, s')"
    using cur pc s2 c3 pt f6 s7(1) s8 c10 wd(1) unfolding s9_def s5_def
    by (simp add: do_fork_def cur_proc_def s3_def s4_def thr1_def s6_def s5_def Let_def)
  moreover have "same_mem s2 s'" "vmmaps s' = vmmaps s2" "files s' = more_refs (p_files cur) (files s2)" "vnodes s' = vnodes (bump w 1 s)"
      "proc_list s' = proc_list s2" "curproc s' = curproc s2" "curthr s' = curthr s2" "waiting Runq s' = waiting Runq s2 @ [nt]"
      "procs s' = (procs s2)(np \<mapsto> ?y\<lparr>p_threads := p_threads x @ [nt], p_cwd := Some w\<rparr>)"
      "threads s' = (threads s2)(nt \<mapsto> forked_thread K thr np (p_pagedir x) stack)"
    using e7 e9(3) by (simp_all add: same_mem_def s'_def bump_def upd_vnode_def s9_def started_def Let_def runnable_state_def s7(2) s6_def s5_def
        s4_def s3_def upd_proc_def waiting_def forked_thread_def)
  moreover have "let esp = of_nat stack + DEFAULT_STACK_SIZE K - (sizeof_regs K + 12)
      in kmem_ptr s' (esp + 4) = Some (esp + 8) \<and> kmem_regs s' (esp + 8) = Some ?r"
    by (simp add: s'_def upd_proc_def s9_def started_def Let_def runnable_state_def)
  ultimately show ?thesis by (intro exI [of _ s'] exI [of _ stack]) simp
qed

section \<open>The whole call\<close>

lemma after_create_mem:
  assumes "vmmaps s m0 = None" "vmmaps s m \<noteq> None"
  shows "same_mem s (after_create K pid name np p cur r pd m0 k t s)" "vmmaps (after_create K pid name np p cur r pd m0 k t s) m = vmmaps s m"
  using assms by (auto simp: same_mem_def after_create_def)

lemma after_create_sel:
  "curproc (after_create K pid name np p cur r pd m0 k t s) = curproc s" "curthr (after_create K pid name np p cur r pd m0 k t s) = curthr s"
  "threads (after_create K pid name np p cur r pd m0 k t s) = threads s" "files (after_create K pid name np p cur r pd m0 k t s) = files s"
  "vnodes (after_create K pid name np p cur r pd m0 k t s) = vnodes (bump r 1 s)"
  "proc_list (after_create K pid name np p cur r pd m0 k t s) = np # proc_list s"
  "vmareas (after_create K pid name np p cur r pd m0 k t s) = vmareas s" "mmobjs (after_create K pid name np p cur r pd m0 k t s) = mmobjs s"
  "procs (after_create K pid name np p cur r pd m0 k t s) =
     (procs s)(p \<mapsto> cur\<lparr>p_children := np # p_children cur\<rparr>, np \<mapsto> created K pid name p cur (Some r) (Some pd) m0)"
  "vmmaps (after_create K pid name np p cur r pd m0 k t s) = (vmmaps s)(m0 \<mapsto> \<lparr>vmm_list = [], vmm_proc = Some np\<rparr>)"
  "waiting Runq (after_create K pid name np p cur r pd m0 k t s) = waiting Runq s"
  by (simp_all add: after_create_def waiting_def)

text \<open>Two address spaces with the same contents that share nothing they are written through.\<close>

definition twins :: "nat \<Rightarrow> kconsts \<Rightarrow> kstate \<Rightarrow> ptr \<Rightarrow> kstate \<Rightarrow> ptr \<Rightarrow> bool" where
  "twins n K s m s' c \<longleftrightarrow> cur_space (Suc n) K s' m \<and> user_space (Suc n) K s' c \<and> separate (Suc n) s' m c \<and> separate (Suc n) s' c m \<and>
     (\<forall>disk b. ubyte (Suc n) K disk s' m b = ubyte n K disk s m b \<and> ubyte (Suc n) K disk s' c b = ubyte n K disk s m b)"

lemma twins_after:
  assumes "twins n K s m s2 c" "same_mem s2 s'" "vmmaps s' = vmmaps s2" "curproc s' = Some p" "procs s' p = Some cur" "p_vmmap cur = Some m"
  shows "twins n K s m s' c"
proof -
  have v: "vmmaps s' k = vmmaps s2 k" for k using assms(3) by simp
  show ?thesis using assms(1) unfolding twins_def
    using same_mem_cur_space [OF assms(2) v _ assms(4-6)] same_mem_user_space [OF assms(2) v] same_mem_separate [OF assms(2,3)]
      same_mem_ubyte [OF assms(2) v] by simp
qed

lemma fork_begins:
  assumes E: "fork_env X E" and cells: "fork_cells X E s np m0 m c nt" and cur: "curproc s = Some p" "procs s p = Some cr"
    and root: "vfs_root_vn s = Some r" "vnodes s r \<noteq> None" and mem: "cur_space n K s m" "\<forall>a\<in>set (areas s m). vma_flags a AND MAP_TYPE K = MAP_PRIVATE K"
    and pid: "proc_getid K s = Inr (pid, s\<lparr>next_pid := k\<rparr>)" "pid \<noteq> PID_IDLE K" "pid \<noteq> PID_INIT K" "1 < pid"
  shows "\<exists>s1 s2 pd. proc_create K X E ''newproc'' s = Inr (np, s1) \<and> fork_vm K X np s1 = Inr s2 \<and> twins n K s m s2 c \<and>
    procs s2 = (procs s)(p \<mapsto> cr\<lparr>p_children := np # p_children cr\<rparr>, np \<mapsto> created K pid ''newproc'' p cr (Some r) (Some pd) c) \<and>
    (curproc s2, curthr s2, threads s2, files s2, vnodes s2, proc_list s2, waiting Runq s2) =
    (curproc s, curthr s, threads s, files s, vnodes (bump r 1 s), np # proc_list s, waiting Runq s)"
proof -
  have np: "proc_slab E s = Some np" "procs s np = None" "np \<noteq> p" and m0: "\<forall>s'. vmmaps s' = vmmaps s \<longrightarrow> vmmap_slab X s' = Some m0" "vmmaps s m0 = None"
    using cells cur by (auto simp: fork_cells_def)
  obtain pd t where pc: "proc_create K X E ''newproc'' s = Inr (np, after_create K pid ''newproc'' np p cr r pd m0 k t s)" (is "_ = Inr (_, ?s1)")
    using proc_create_exact [OF E root np(1,2) cur pid m0(1)] by blast
  have us: "user_space n K s m" "p_vmmap cr = Some m" using mem(1) cur by (simp_all add: cur_space_def)
  then have m: "vmmaps s m \<noteq> None" by (simp add: user_space_def space_ok_def)
  note sm = after_create_mem [OF m0(2) m, of K pid "''newproc''" np p cr r pd k t] and sel = after_create_sel [of K pid "''newproc''" np p cr r pd m0 k t s]
  have cs: "cur_space n K ?s1 m" by (rule same_mem_cur_space [OF sm mem(1), of p "cr\<lparr>p_children := np # p_children cr\<rparr>"]) (use cur np us in \<open>simp_all add: sel\<close>)
  have pr: "\<forall>a\<in>set (areas ?s1 m). vma_flags a AND MAP_TYPE K = MAP_PRIVATE K" using mem(2) same_mem_areas [OF sm] by simp
  have room: "fork_room X ?s1 m c" using cells unfolding fork_cells_def by (simp add: sel)
  let ?x = "created K pid ''newproc'' p cr (Some r) (Some pd) m0"
  have x: "procs ?s1 np = Some ?x" "p_state ?x = PROC_RUNNING" "p_pagedir ?x \<noteq> None" "curproc ?s1 \<noteq> Some np"
    using cur np by (simp_all add: sel created_def new_proc_def)
  obtain s2 where s2: "fork_vm K X np ?s1 = Inr s2" "procs s2 = (procs ?s1)(np \<mapsto> ?x\<lparr>p_vmmap := Some c\<rparr>)"
      "s2 = ?s1\<lparr>vmareas := vmareas s2, vmmaps := vmmaps s2, procs := procs s2, mmobjs := mmobjs s2\<rparr>" "cur_space (Suc n) K s2 m"
      "user_space (Suc n) K s2 c" "separate (Suc n) s2 m c" "separate (Suc n) s2 c m"
      "\<forall>disk b. ubyte (Suc n) K disk s2 m b = ubyte n K disk ?s1 m b \<and> ubyte (Suc n) K disk s2 c b = ubyte n K disk ?s1 m b"
    using fork_vm_memory [OF cs pr room x] by blast
  have "twins n K s m s2 c" using s2(4-8) same_mem_ubyte [OF sm] by (simp add: twins_def)
  moreover have "curproc s2 = curproc ?s1" "curthr s2 = curthr ?s1" "threads s2 = threads ?s1" "files s2 = files ?s1" "vnodes s2 = vnodes ?s1"
      "proc_list s2 = proc_list ?s1" "waiting Runq s2 = waiting Runq ?s1"
    by (subst s2(3), simp add: waiting_def)+
  moreover have "procs s2 = (procs s)(p \<mapsto> cr\<lparr>p_children := np # p_children cr\<rparr>, np \<mapsto> created K pid ''newproc'' p cr (Some r) (Some pd) c)"
    unfolding s2(2) sel by (simp add: created_def new_proc_def)
  ultimately show ?thesis using pc s2(1) by (auto simp: sel)
qed

text \<open>C3: what a call of fork does, from beginning to end.  For a running process whose areas are private, while the
  allocators and the process numbers last, \<^verbatim>\<open>do_fork\<close> ends and returns a number no process has.  The child is a
  running process at the head of the children of the caller, with the open files, the working directory and the
  break of the caller; each open file gains one reference for each descriptor, the working directory one, and the root
  directory none.  The child has an address space with the contents of the caller's and objects of its own.  Its only
  thread waits at the end of the run queue, in the kernel routine that enters user mode, with the registers of the caller and
  0 in eax.  The caller goes on, and the process tree stays well formed.\<close>

theorem do_fork_child:
  assumes "fork_env X E" and "fork_cells X E s np m0 m c nt" and "fork_caller K s p cur w" and "tree_inv s" and "cur_space n K s m"
    and "\<forall>a\<in>set (areas s m). vma_flags a AND MAP_TYPE K = MAP_PRIVATE K"
    and "PID_IDLE K = 0" and "PID_INIT K = 1" and "pid_used s 0" and "pid_used s 1" and "0 \<le> next_pid s" and "next_pid s < PROC_MAX_COUNT K"
    and "\<exists>i. 0 \<le> i \<and> i < PROC_MAX_COUNT K \<and> \<not> pid_used s i"
  shows "\<exists>s' pid pd stack t thr. do_fork K X E regs s = Inr (pid, regs\<lparr>r_eax := 0\<rparr>, s') \<and> \<not> pid_used s pid \<and> 1 < pid \<and> tree_inv s' \<and>
    procs s' = (procs s)(p \<mapsto> cur\<lparr>p_children := np # p_children cur\<rparr>, np \<mapsto> forked_proc K pid p cur pd c nt) \<and>
    twins n K s m s' c \<and> files s' = more_refs (p_files cur) (files s) \<and> vnodes s' = vnodes (bump w 1 s) \<and>
    curproc s' = Some p \<and> curthr s' = Some t \<and> threads s t = Some thr \<and>
    threads s' = (threads s)(nt \<mapsto> forked_thread K thr np (Some pd) stack) \<and> waiting Runq s' = waiting Runq s @ [nt] \<and>
    kmem_regs s' (c_esp (kt_ctx (forked_thread K thr np (Some pd) stack)) + 8) = Some (regs\<lparr>r_eax := 0\<rparr>)"
proof -
  have live: "\<forall>p\<in>set (proc_list s). procs s p \<noteq> None" using tree_inv_list [OF assms(4)] by blast
  then obtain pid where pid: "proc_getid K s = Inr (pid, s\<lparr>next_pid := (pid + 1) mod PROC_MAX_COUNT K\<rparr>)" "0 \<le> pid" "\<not> pid_used s pid"
    using proc_getid_result [OF live assms(11,12)] assms(13) by blast
  have ne: "pid \<noteq> PID_IDLE K" "pid \<noteq> PID_INIT K" using pid(3) assms(7-10) by auto
  then have gt: "1 < pid" using pid(2) assms(7,8) by linarith
  obtain t thr r vn where cl: "curproc s = Some p" "procs s p = Some cur" "p_state cur = PROC_RUNNING" "NFILES K = length (p_files cur)"
      "\<forall>f. Some f \<in> set (p_files cur) \<longrightarrow> files s f \<noteq> None" "p_cwd cur = Some w" "vnodes s w \<noteq> None" "curthr s = Some t" "threads s t = Some thr"
      "kt_state thr = KT_RUN" "vfs_root_vn s = Some r" "vnodes s r = Some vn" "0 < vn_refcount vn"
    using assms(3) by (auto simp: fork_caller_def)
  have r: "vnodes s r \<noteq> None" using cl(12) by simp
  let ?cr = "cur\<lparr>p_children := np # p_children cur\<rparr>"
  obtain s1 s2 pd where f: "proc_create K X E ''newproc'' s = Inr (np, s1)" "fork_vm K X np s1 = Inr s2" "twins n K s m s2 c"
      "procs s2 = (procs s)(p \<mapsto> ?cr, np \<mapsto> created K pid ''newproc'' p cur (Some r) (Some pd) c)"
      "curproc s2 = Some p" "curthr s2 = Some t" "threads s2 = threads s" "files s2 = files s" "vnodes s2 = vnodes (bump r 1 s)"
      "proc_list s2 = np # proc_list s" "waiting Runq s2 = waiting Runq s"
    using fork_begins [OF assms(1,2) cl(1,2,11) r assms(5,6) pid(1) ne gt] cl(1,8) by auto
  have np: "procs s np = None" "np \<noteq> p" and nt: "\<forall>s'. threads s' = threads s2 \<longrightarrow> kthread_slab E s' = Some nt"
    using assms(2) cl(2) f(7) by (auto simp: fork_cells_def)
  let ?x = "created K pid ''newproc'' p cur (Some r) (Some pd) c"
  have x: "procs s2 p = Some ?cr" "procs s2 np = Some ?x" "threads s2 t = Some thr" "length (p_files ?x) = length (p_files ?cr)" "NFILES K = length (p_files ?cr)"
      "\<forall>f. Some f \<in> set (p_files ?cr) \<longrightarrow> files s2 f \<noteq> None" "p_cwd ?x = Some r" "p_cwd ?cr = Some w"
    using f np(2) cl gt by (simp_all add: created_def new_proc_def)
  from do_fork_rest [OF assms(1) cl(1-3) f(1,2,5) x(1,2) np(2) f(6) x(3) cl(10) nt x(4-7) cl(12,13) f(9) x(8) cl(7), of regs]
  obtain s' stack where s': "do_fork K X E regs s = Inr (pid, regs\<lparr>r_eax := 0\<rparr>, s')" "same_mem s2 s'" "vmmaps s' = vmmaps s2"
      "procs s' = (procs s2)(np \<mapsto> forked_proc K pid p cur pd c nt)" "files s' = more_refs (p_files cur) (files s)" "vnodes s' = vnodes (bump w 1 s)"
      "proc_list s' = np # proc_list s" "curproc s' = Some p" "curthr s' = Some t" "threads s' = (threads s)(nt \<mapsto> forked_thread K thr np (Some pd) stack)"
      "waiting Runq s' = waiting Runq s @ [nt]" "kmem_regs s' (c_esp (kt_ctx (forked_thread K thr np (Some pd) stack)) + 8) = Some (regs\<lparr>r_eax := 0\<rparr>)"
    using f(5-11) cl(6) by (auto simp: forked_proc_def created_def new_proc_def forked_thread_def Let_def)
  have ps: "procs s' = (procs s)(p \<mapsto> ?cr, np \<mapsto> forked_proc K pid p cur pd c nt)" using s'(4) f(4) by simp
  have "tree_inv s'" by (rule tree_inv_create [OF assms(4) np(1) cl(2,3) _ _ _ _ s'(7) ps]) (use pid(3) in \<open>simp_all add: forked_proc_def new_proc_def\<close>)
  moreover have "p_vmmap ?cr = Some m" using assms(5) cl(1,2) by (simp add: cur_space_def)
  then have "twins n K s m s' c" using twins_after [OF f(3) s'(2,3,8), of ?cr] ps np(2) by simp
  ultimately show ?thesis using s' ps pid(3) gt cl(9) by (intro exI [of _ s'] exI [of _ pid] exI [of _ pd] exI [of _ stack] exI [of _ t] exI [of _ thr]) simp
qed

text \<open>The processes of \<open>demo_family\<close>, with the memory of \<open>demo_pair\<close>, an open file and a working directory for the shell.\<close>

definition demo_caller :: proc where
  "demo_caller = (kin 2 (Some 21) [24, 23] PROC_RUNNING 0 32)\<lparr>p_vmmap := Some 4, p_files := Some 70 # replicate 31 None, p_cwd := Some 60\<rparr>"

definition demo_call :: kstate where
  "demo_call = demo_pair\<lparr>procs := (procs demo_family)(22 \<mapsto> demo_caller), proc_list := proc_list demo_family, threads := threads demo_family,
     queues := queues demo_family, curproc := Some 22, curthr := Some 32, next_pid := 3, vnodes := [60 \<mapsto> demo_vnode 2],
     vfs_root_vn := Some 60, files := [70 \<mapsto> \<lparr>f_pos = 0, f_mode = 1, f_refcount = 1, f_vnode = None\<rparr>]\<rparr>"

lemma demo_call_env: "fork_env demo_ext demo_fs"
  unfolding fork_env_def
proof (intro conjI allI impI)
  show "refs_ok demo_fs" by (rule demo_fs_laws(2))
  fix s show "\<exists>pd t. pt_create_pagedir demo_fs s = (Some pd, s\<lparr>pagetabs := t\<rparr>)" 
    by (intro exI [of _ 40] exI [of _ "pagetabs s"]) (simp add: demo_fs_def demo_env_def)
qed (auto simp: demo_fs_def demo_env_def demo_ext_def bump_def upd_vnode_def)

lemma demo_call_mem: "same_mem demo_pair demo_call" "vmmaps demo_call = vmmaps demo_pair"
  by (simp_all add: same_mem_def demo_call_def demo_family_def demo_pair_def demo_space_def two_shadows_def three_threads_def blank_state_def)

lemma demo_call_space: "cur_space 2 i386 demo_call 4"
  by (rule same_mem_cur_space [OF demo_call_mem(1) _ _, of 4 2 i386 22 demo_caller])
    (use demo_pair_cur demo_call_mem(2) in \<open>simp_all add: demo_call_def demo_caller_def\<close>)

lemma demo_call_procs:
  "p_pid (the (procs demo_call q)) = p_pid (the (procs demo_family q))" "p_state (the (procs demo_call q)) = p_state (the (procs demo_family q))"
  "p_pproc (the (procs demo_call q)) = p_pproc (the (procs demo_family q))" "p_children (the (procs demo_call q)) = p_children (the (procs demo_family q))"
  "dom (procs demo_call) = dom (procs demo_family)" "proc_list demo_call = proc_list demo_family"
  using demo_family_dom by (auto simp: demo_call_def demo_caller_def demo_family_proc kin_def)

lemma demo_call_tree: "tree_inv demo_call" "pid_used demo_call i \<longleftrightarrow> i \<in> {0, 1, 2, 3, 4}"
proof -
  show t: "tree_inv demo_call" using demo_family_tree unfolding tree_inv_def demo_call_procs .
  show "pid_used demo_call i \<longleftrightarrow> i \<in> {0, 1, 2, 3, 4}"
    using demo_family_pids [of i] unfolding pid_used_tree [OF t] pid_used_tree [OF demo_family_tree] demo_call_procs .
qed

lemma demo_call_caller: "fork_caller i386 demo_call 22 demo_caller 60"
  unfolding fork_caller_def
  by (simp add: demo_call_def demo_caller_def kin_def demo_vnode_def i386_def) (simp add: demo_family_def mk_thread_def)

lemma demo_call_cells: "fork_cells demo_ext demo_fs demo_call 400 100 4 101 500"
proof -
  have "length (areas s 4) = 1" "finite (dom (vmareas s))" "card (dom (vmareas s)) = 2" "finite (dom (mmobjs s))" "card (dom (mmobjs s)) = 3"
      "vmmap_slab demo_ext s = Some 101" "vmmaps s 101 = None"
    if "vmmaps s = (vmmaps demo_call)(100 \<mapsto> v)" "vmareas s = vmareas demo_call" "mmobjs s = mmobjs demo_call" for s v
  proof -
    have m: "vmmaps s = [4 \<mapsto> \<lparr>vmm_list = [11], vmm_proc = Some 4\<rparr>, 5 \<mapsto> \<lparr>vmm_list = [12], vmm_proc = None\<rparr>, 100 \<mapsto> v]"
      using that(1) by (simp add: demo_call_def demo_pair_def)
    show "length (areas s 4) = 1" by (simp add: areas_def area_ptrs_def m)
    show "vmmap_slab demo_ext s = Some 101" "vmmaps s 101 = None" by (simp_all add: demo_ext_def free_cell_def upt_conv_Cons m)
    have "dom (vmareas s) = {11, 12}" "dom (mmobjs s) = {1, 2, 3}"
      unfolding that(2,3) by (auto simp: demo_call_def demo_pair_def demo_space_def two_shadows_def split: if_splits)
    then show "finite (dom (vmareas s))" "card (dom (vmareas s)) = 2" "finite (dom (mmobjs s))" "card (dom (mmobjs s)) = 3" by simp_all
  qed
  then have "fork_room demo_ext s 4 101" if "vmmaps s = (vmmaps demo_call)(100 \<mapsto> v)" "vmareas s = vmareas demo_call" "mmobjs s = mmobjs demo_call" for s v
    unfolding fork_room_def using that demo_frames(3) demo_area_room demo_shadow_ok by (intro conjI exI [of _ 10]) simp_all
  moreover have "vmmap_slab demo_ext s = Some 100" if "vmmaps s = vmmaps demo_call" for s
    using that by (simp add: demo_ext_def free_cell_first demo_call_def demo_pair_def)
  moreover have "kthread_slab demo_fs s = Some 500" if "threads s = threads demo_call" for s
    using that by (simp add: demo_fs_def demo_env_def free_cell_first demo_call_def demo_family_def)
  moreover have "proc_slab demo_fs demo_call = Some 400" "procs demo_call 400 = None" "vmmaps demo_call 100 = None" "threads demo_call 500 = None"
    by (simp_all add: demo_fs_def demo_env_def free_cell_first demo_call_def demo_family_procs(1) demo_family_def demo_pair_def)
  ultimately show ?thesis by (simp add: fork_cells_def)
qed

theorem do_fork_child_witness:
  "\<exists>s' pid child. do_fork i386 demo_ext demo_fs \<lparr>r_eax = 2, r_edx = 0, r_other = [7]\<rparr> demo_call =
       Inr (pid, \<lparr>r_eax = 0, r_edx = 0, r_other = [7]\<rparr>, s') \<and> pid \<notin> {0, 1, 2, 3, 4} \<and>
     procs s' 400 = Some child \<and> p_pid child = pid \<and> p_pproc child = Some 22 \<and> p_files child ! 0 = Some 70 \<and> p_cwd child = Some 60 \<and>
     map_option f_refcount (files s' 70) = Some 2 \<and> map_option vn_refcount (vnodes s' 60) = Some 2 \<and>
     ubyte 3 i386 demo_disk s' 101 0x500F17 = ubyte 2 i386 demo_disk demo_call 4 0x500F17"
proof -
  let ?r = "\<lparr>r_eax = 2, r_edx = 0, r_other = [7]\<rparr> :: regs"
  have a: "\<forall>a\<in>set (areas demo_call 4). vma_flags a AND MAP_TYPE i386 = MAP_PRIVATE i386"
    using same_mem_areas [OF demo_call_mem(1), of 4] demo_call_mem(2) by (simp add: demo_pair_areas demo_area_def i386_def)
  have n: "0 \<le> next_pid demo_call" "next_pid demo_call < PROC_MAX_COUNT i386" "pid_used demo_call 0" "pid_used demo_call 1"
      "\<exists>i. 0 \<le> i \<and> i < PROC_MAX_COUNT i386 \<and> \<not> pid_used demo_call i"
    unfolding demo_call_tree(2) by (simp_all add: demo_call_def i386_pids) (rule exI [of _ 9], simp)
  obtain s' pid pd where s': "do_fork i386 demo_ext demo_fs ?r demo_call = Inr (pid, ?r\<lparr>r_eax := 0\<rparr>, s')" "\<not> pid_used demo_call pid"
      "procs s' = (procs demo_call)(22 \<mapsto> demo_caller\<lparr>p_children := 400 # p_children demo_caller\<rparr>, 400 \<mapsto> forked_proc i386 pid 22 demo_caller pd 101 500)"
      "twins 2 i386 demo_call 4 s' 101" "files s' = more_refs (p_files demo_caller) (files demo_call)" "vnodes s' = vnodes (bump 60 1 demo_call)"
    using do_fork_child [OF demo_call_env demo_call_cells demo_call_caller demo_call_tree(1) demo_call_space a i386_pids(1,2) n(3,4,1,2,5), of ?r] by blast
  have "ubyte (Suc 2) i386 demo_disk s' 101 0x500F17 = ubyte 2 i386 demo_disk demo_call 4 0x500F17" using s'(4) by (simp add: twins_def)
  moreover have "map_option f_refcount (files s' 70) = Some 2" "map_option vn_refcount (vnodes s' 60) = Some 2"
    unfolding s'(5,6) by (simp_all add: more_refs_def demo_call_def demo_caller_def demo_vnode_def count_list_0_iff)
  moreover have "pid \<notin> {0, 1, 2, 3, 4}" using s'(2) unfolding demo_call_tree(2) .
  ultimately show ?thesis using s'(1,3)
    by (intro exI [of _ s'] exI [of _ pid] exI [of _ "forked_proc i386 pid 22 demo_caller pd 101 500"]) (simp add: forked_proc_def new_proc_def demo_caller_def)
qed

end
