(* ===== verification/Syscall_Results.thy ===== *)
theory Syscall_Results
  imports Syscall
begin

text \<open>
  What a system call gives back to the program.  Most calls report a status: a
  result that is not negative, or -1 with the reason in the
  \<^verbatim>\<open>kt_errno\<close> of the calling thread.  \<open>honest\<close> says that of one
  routine; the rules for it follow the way the calls of
  \<^verbatim>\<open>kernel/api/syscall.c\<close> are put together, and they carry the property from
  the single calls to the trap handler.
\<close>

section \<open>Status results\<close>

definition errno_set :: "kstate \<Rightarrow> bool" where
  "errno_set s \<longleftrightarrow> (case curthr s of None \<Rightarrow> False | Some t \<Rightarrow> (case threads s t of None \<Rightarrow> False | Some thr \<Rightarrow> kt_errno thr \<noteq> 0))"

definition status_ok :: "kstate \<Rightarrow> int \<Rightarrow> bool" where
  "status_ok s v \<longleftrightarrow> 0 \<le> v \<or> v = - 1 \<and> errno_set s"

definition honest :: "(int \<times> kstate) res \<Rightarrow> bool" where
  "honest r \<longleftrightarrow> (\<forall>v s. r = Inr (v, s) \<longrightarrow> status_ok s v)"

definition honest_call :: "(sys_outcome \<times> regs \<times> kstate) res \<Rightarrow> bool" where
  "honest_call r \<longleftrightarrow> (\<forall>v regs s. r = Inr (Ret v, regs, s) \<longrightarrow> status_ok s v)"

text \<open>
  The calls that report something else: a process number, an error number, an
  address or a count of bytes that may exceed the range of an
  \<^verbatim>\<open>int\<close>, and \<^verbatim>\<open>halt\<close>, which sets no error number.
\<close>

definition reports_status :: "sysno \<Rightarrow> bool" where
  "reports_status call \<longleftrightarrow> call \<notin> set [SYS_getpid, SYS_errno, SYS_mmap, SYS_brk, SYS_getdents, SYS_halt]"

section \<open>Rules for the way calls are put together\<close>

named_theorems honest_rules

lemma honest_Inr [honest_rules]: "0 \<le> v \<Longrightarrow> honest (Inr (v, s))"
  by (simp add: honest_def status_ok_def)

lemma honest_bind [honest_rules]: "(\<And>x. m = Inr x \<Longrightarrow> honest (f x)) \<Longrightarrow> honest (bindE m f)"
  by (auto simp: honest_def bindE_eq_Inr_conv)

lemma honest_fail [honest_rules]: "e \<noteq> 0 \<Longrightarrow> honest (sys_fail e s)"
  by (auto simp: honest_def sys_fail_def set_errno_def status_ok_def errno_set_def bindE_eq_Inr_conv bindE_deref upd_thread_def split: option.splits)

lemma honest_Inl [honest_rules]: "honest (Inl e)"
  by (simp add: honest_def)

lemma honest_result [honest_rules]: "honest (sys_result r)"
  by (auto simp: sys_result_def split: prod.splits intro: honest_rules)

lemma honest_with_args [honest_rules]: "(\<And>b s. honest (body b s)) \<Longrightarrow> honest (with_args n K X A kind arg body s)"
  unfolding with_args_def by (auto intro!: honest_rules split: prod.splits)

lemma honest_with_str [honest_rules]:
  "errno K EINVAL \<noteq> 0 \<Longrightarrow> (\<And>p s. honest (body p s)) \<Longrightarrow> honest (with_str n K X E A ustr body s)"
  unfolding with_str_def by (auto intro!: honest_rules split: prod.splits option.splits)

lemma honest_with_path [honest_rules]:
  "errno K EINVAL \<noteq> 0 \<Longrightarrow> (\<And>p s. honest (body p s)) \<Longrightarrow> honest (with_path n K X E A ustr body s)"
  unfolding with_path_def by (auto intro!: honest_rules)

lemma honest_returns: "honest r \<Longrightarrow> honest_call (returns regs r)"
  by (auto simp: honest_def honest_call_def returns_def bindE_eq_Inr_conv)

lemma honest_leaves: "honest_call (leaves regs w r)"
  by (auto simp: honest_call_def leaves_def bindE_eq_Inr_conv)

section \<open>The calls\<close>

lemma uname_honest: "honest (uname_loop n K X A arg fs s)"
  by (induction n K X A arg fs s rule: uname_loop.induct) (auto intro!: honest_rules split: prod.splits)

lemma files_honest:
  assumes "\<And>e. errno K e \<noteq> 0"
  shows "honest (sys_read n K X E A arg s)" "honest (sys_write n K X E A arg s)" "honest (sys_close K E fd s)"
    "honest (sys_dup K E fd s)" "honest (sys_dup2 n K X E A arg s)" "honest (sys_lseek n K X E A arg s)"
    "honest (sys_open n K X E A arg s)" "honest (sys_stat n K X E A arg s)" "honest (sys_pipe n K X A arg s)"
  unfolding sys_read_def sys_write_def sys_close_def sys_dup_def sys_dup2_def sys_lseek_def sys_open_def sys_stat_def sys_pipe_def
  by (auto simp: Let_def intro!: honest_rules assms split: prod.splits)

lemma paths_honest:
  assumes "\<And>e. errno K e \<noteq> 0"
  shows "honest (sys_mkdir n K X E A arg s)" "honest (sys_rmdir n K X E A arg s)" "honest (sys_unlink n K X E A arg s)"
    "honest (sys_link n K X E A arg s)" "honest (sys_rename n K X E A arg s)" "honest (sys_chdir n K X E A arg s)"
  unfolding sys_mkdir_def sys_rmdir_def sys_unlink_def sys_link_def sys_rename_def sys_chdir_def
  by (auto simp: Let_def intro!: honest_rules assms split: prod.splits)

lemma others_honest:
  assumes "\<And>e. errno K e \<noteq> 0"
  shows "honest (sys_munmap n K X A arg s)" "honest (sys_uname n K X A arg s)" "honest (sys_debug n K X E A arg s)"
    "honest (sys_kshell g K A tty s)"
  unfolding sys_munmap_def sys_uname_def sys_debug_def sys_kshell_def
  by (auto intro!: honest_rules uname_honest assms split: prod.splits option.splits)

lemma with_regs_bind:
  "(\<And>x. honest_call (with_regs (f x))) \<Longrightarrow> honest_call (with_regs (bindE m f))"
  by (auto simp: honest_call_def with_regs_def bindE_eq_Inr_conv)

lemma fork_honest: "honest_call (with_regs (sys_fork K X E regs s))"
proof -
  have f: "honest_call (with_regs (bindE (sys_fail e s1) (\<lambda>(v, s2). Inr (v, r, s2))))" if "e \<noteq> 0" for e r s1
    using honest_fail [OF that, of s1] by (auto simp: honest_def honest_call_def with_regs_def bindE_eq_Inr_conv)
  have v: "honest_call (with_regs (Inr (v, r, s1)))" if "0 \<le> v" for v r s1
    using that by (simp add: honest_call_def with_regs_def status_ok_def)
  show ?thesis unfolding sys_fork_def by (auto intro!: with_regs_bind f v split: prod.splits)
qed

lemma execve_honest: "honest_call (with_regs (sys_execve n K X E A arg regs s))"
proof -
  have c: "honest_call (with_regs (exec_cleanup r s1))" for r s1
    by (auto simp: honest_call_def with_regs_def exec_cleanup_def bindE_eq_Inr_conv bindE_deref status_ok_def errno_set_def)
  show ?thesis unfolding sys_execve_def by (auto intro!: with_regs_bind c split: prod.splits option.splits)
qed

lemma waitpid_honest:
  assumes "\<And>e. errno K e \<noteq> 0"
  shows "honest_call (keeps regs (sys_waitpid n K X E A irqs arg s))"
proof -
  let ?ok = "\<lambda>r. honest_call (keeps regs r)"
  have b: "?ok (bindE m f)" if "\<And>x. ?ok (f x)" for m and f :: "'a \<Rightarrow> (sys_outcome \<times> kstate) res"
    using that by (auto simp: honest_call_def keeps_def bindE_eq_Inr_conv)
  have f: "?ok (bindE (sys_fail e s) (\<lambda>(v, s1). Inr (Ret v, s1)))" if "e \<noteq> 0" for e s
    using honest_fail [OF that, of s] by (auto simp: honest_def honest_call_def keeps_def bindE_eq_Inr_conv)
  have v: "?ok (Inr (Ret v, s))" if "0 \<le> v" for v s using that by (simp add: honest_call_def keeps_def status_ok_def)
  have w: "?ok (Inr (Away w, s))" for w s by (simp add: honest_call_def keeps_def)
  have "?ok (waitpid_finish n K X A pid u r)" for pid u r
    unfolding waitpid_finish_def by (auto intro!: b f v w assms split: prod.splits wait_result.splits)
  then show ?thesis unfolding sys_waitpid_def by (auto intro!: b f assms split: prod.splits)
qed

lemma run_call_honest:
  assumes "\<And>e. errno K e \<noteq> 0" "reports_status call"
  shows "honest_call (run_call g n K X E A irqs call args regs s)"
  using assms(2)
  by (cases call) (auto simp: reports_status_def
    intro!: honest_returns honest_leaves honest_rules files_honest paths_honest others_honest fork_honest execve_honest waitpid_honest assms(1))

section \<open>The trap handler\<close>

lemma sint_status:
  assumes "0 \<le> v" "v < 2 ^ 31"
  shows "sint (word_of_int v :: u32) = v"
  using assms by (simp add: signed_of_int signed_take_bit_int_eq_self)

text \<open>C12: the type of what a program gets back.  When the handler returns from a number that is no system call, or
  from a call that reports a status, the register eax, read as a signed number, holds a result that is not negative, or it holds
  -1 and the calling thread has an error number.  In particular no other negative value ever reaches a program, and -1
  never comes without a reason.  This covers every way out of the 24 calls that come back: bad arguments,
  failing copies, failing routines and success.  The results of the calls are of the type \<^verbatim>\<open>int\<close>, so the
  statement assumes that the result of the dispatcher, a number of the model, is below 2^31.\<close>

theorem syscall_result_typed:
  assumes "\<forall>e. errno K e \<noteq> 0"
    and "case sysnum_of A (r_eax regs) of None \<Rightarrow> True | Some call \<Rightarrow> reports_status call"
    and "\<forall>v r u. syscall_dispatch g n K X E A irqs (r_eax regs) (r_edx regs) regs s = Inr (Ret v, r, u) \<longrightarrow> v < 2 ^ 31"
    and "syscall_handler g n K X E A irqs regs s = Inr (Back regs', s')"
  shows "0 \<le> sint (r_eax regs') \<or> r_eax regs' = - 1 \<and> errno_set s'"
proof -
  have "honest_call (syscall_dispatch g n K X E A irqs (r_eax regs) (r_edx regs) regs s)"
    unfolding syscall_dispatch_def using assms(1,2)
    by (auto intro!: honest_returns honest_fail run_call_honest split: option.splits)
  moreover obtain out regs1 s1 where d: "syscall_dispatch g n K X E A irqs (r_eax regs) (r_edx regs) regs s = Inr (out, regs1, s1)"
      "handler_exit n K X E irqs (out, regs1, s1) = Inr (Back regs', s')"
    using assms(4) by (auto simp: syscall_handler_def exit_cancelled_def bindE_eq_Inr_conv bindE_deref split: if_splits)
  moreover obtain v where v: "out = Ret v" "s1 = s'" "r_eax regs' = word_of_int v"
    using d(2) by (cases out) (auto simp: handler_exit_def exit_cancelled_def bindE_eq_Inr_conv bindE_deref split: if_splits)
  ultimately have "status_ok s' v" by (auto simp: honest_call_def)
  moreover have "v < 2 ^ 31" using assms(3) d(1) v(1) by blast
  ultimately show ?thesis using sint_status [of v] v(3) by (auto simp: status_ok_def)
qed

definition demo_abi :: kabi where
  "demo_abi = \<lparr>stale = (\<lambda>_. 0), stale_null = False, sizeof_args = (\<lambda>_. 12), sizeof_int = 4, sizeof_stat = 64,
     argstr_at = (\<lambda>b i. \<lparr>as_str = 0, as_len = 0\<rparr>), read_args = (\<lambda>b. (0, 0, 0)), getdents_args = (\<lambda>b. (0, 0, 0)),
     dup2_args = (\<lambda>b. (0, 0)), mkdir_args = (\<lambda>b. \<lparr>as_str = 0, as_len = 0\<rparr>),
     link_args = (\<lambda>b. (\<lparr>as_str = 0, as_len = 0\<rparr>, \<lparr>as_str = 0, as_len = 0\<rparr>)),
     rename_args = (\<lambda>b. (\<lparr>as_str = 0, as_len = 0\<rparr>, \<lparr>as_str = 0, as_len = 0\<rparr>)), lseek_args = (\<lambda>b. (0, 0, 0)),
     open_args = (\<lambda>b. (\<lparr>as_str = 0, as_len = 0\<rparr>, 0)), munmap_args = (\<lambda>b. (0, 0)), mmap_args = (\<lambda>b. (0, 0, 0, 0, 0, 0)),
     waitpid_args = (\<lambda>b. (0, 0, 0)), stat_args = (\<lambda>b. (\<lparr>as_str = 0, as_len = 0\<rparr>, 0)),
     execve_args = (\<lambda>b. (\<lparr>as_str = 0, as_len = 0\<rparr>, \<lparr>av_vec = 0, av_len = 0\<rparr>, \<lparr>av_vec = 0, av_len = 0\<rparr>)),
     enc_int = (\<lambda>_ _. 0), enc_ints = (\<lambda>_ _. 0), off_buf = 4, off_nbytes = 8, off_uts = (\<lambda>_. 0), uts_version = ''1'',
     uload = (\<lambda>a s. Inr (0, s)), sysnum_of = (\<lambda>k. if k = 6 then Some SYS_close else None), MAP_FAILED = - 1,
     do_pipe = (\<lambda>s. Inr (0, (0, 0), s)), do_execve = (\<lambda>name argv envp r s. Inr (0, r, s)),
     kshell_create = (\<lambda>i s. Inr (None, s)), kshell_execute_next = (\<lambda>k s. Inr (0, s)), kshell_destroy = (\<lambda>k s. Inr s)\<rparr>"

theorem syscall_result_typed_witness:
  "\<exists>regs' s'. syscall_handler 0 0 i386 demo_ext demo_env demo_abi [] \<lparr>r_eax = 6, r_edx = 40, r_other = []\<rparr> demo_family = Inr (Back regs', s') \<and>
     r_eax regs' = - 1 \<and> map_option kt_errno (threads s' 32) = Some (i386_errno EBADF) \<and>
     (0 \<le> sint (r_eax regs') \<or> r_eax regs' = - 1 \<and> errno_set s')"
proof -
  let ?r = "\<lparr>r_eax = 6, r_edx = 40, r_other = []\<rparr>"
  let ?s = "upd_thread 32 (\<lambda>x. x\<lparr>kt_errno := i386_errno EBADF\<rparr>) demo_family"
  have "\<forall>e. errno i386 e \<noteq> 0"
  proof
    fix e show "errno i386 e \<noteq> 0" by (cases e) (simp_all add: i386_pids)
  qed
  moreover have "case sysnum_of demo_abi (r_eax ?r) of None \<Rightarrow> True | Some call \<Rightarrow> reports_status call"
    by (simp add: demo_abi_def reports_status_def)
  moreover have d: "syscall_dispatch 0 0 i386 demo_ext demo_env demo_abi [] (r_eax ?r) (r_edx ?r) ?r demo_family = Inr (Ret (- 1), ?r, ?s)"
    by (simp add: syscall_dispatch_def demo_abi_def sys_close_def do_close_def demo_env_def
      sys_result_def sys_fail_def set_errno_def returns_def upd_thread_def demo_family_defs i386_pids)
  then have "\<forall>v r u. syscall_dispatch 0 0 i386 demo_ext demo_env demo_abi [] (r_eax ?r) (r_edx ?r) ?r demo_family = Inr (Ret v, r, u) \<longrightarrow> v < 2 ^ 31"
    by simp
  moreover have h: "syscall_handler 0 0 i386 demo_ext demo_env demo_abi [] ?r demo_family = Inr (Back (?r\<lparr>r_eax := - 1\<rparr>), ?s)"
    using d by (simp add: syscall_handler_def exit_cancelled_def handler_exit_def upd_thread_def demo_family_defs)
  ultimately have "0 \<le> sint (r_eax (?r\<lparr>r_eax := - 1\<rparr>)) \<or> r_eax (?r\<lparr>r_eax := - 1\<rparr>) = - 1 \<and> errno_set ?s" by (rule syscall_result_typed)
  moreover have "map_option kt_errno (threads ?s 32) = Some (i386_errno EBADF)" by (simp add: upd_thread_def demo_family_defs)
  ultimately show ?thesis using h by (intro exI [of _ "?r\<lparr>r_eax := - 1\<rparr>"] exI [of _ ?s]) simp
qed

end
