(* ===== verification/Spec2Isabelle.thy ===== *)
theory Spec2Isabelle
  imports Options Info Fork_Process Syscall_Results
begin

text \<open>
  A verification library for the Weenix kernel under \<^verbatim>\<open>src/kernel\<close>: threads and
  processes, virtual memory, the file system calls and the system call layer.

  \<^bold>\<open>The state and the outcomes.\<close>  The kernel is one record \<open>kstate\<close> (theory
  \<^verbatim>\<open>Kernel_State\<close>).  Each kind of structure that the code allocates (threads, processes,
  page frames, memory objects, areas, address spaces, files, vnodes) is a finite map from addresses to
  a record with the fields of the C structure; a pointer is an address or \<open>None\<close> for
  \<^verbatim>\<open>NULL\<close>, so sharing and dangling pointers are visible.  The lists that the code
  threads through the structures are lists of addresses together with the link field of each element.
  An operation is a function from the state to an outcome: a new state with a result, or a fault (theory
  \<^verbatim>\<open>Kernel_Prelude\<close>): a failed \<^verbatim>\<open>KASSERT\<close>, a null pointer, a panic, a
  write behind the end of an array, a torn list, a loop that does not end.  Every early return, assertion
  and panic of the source is a branch.  Error numbers are negative integers as in the code.  Page numbers,
  addresses and flags are 32-bit words that wrap.

  \<^bold>\<open>What is not in the repository\<close> is a parameter.  \<open>K\<close> (\<open>kconsts\<close>) holds the
  constants of the headers, \<open>X\<close> (\<open>kext\<close>) the allocators, page tables and memory objects
  of the file systems, \<open>E\<close> (\<open>kenv\<close>) the operations of vnodes and file objects,
  \<open>A\<close> (\<open>kabi\<close>) the binary interface of system calls, \<open>B\<close> (\<open>kboot\<close>)
  the start-up code and the tests, \<open>F\<close> (\<open>kfmt\<close>) the kernel's formatted printing and
  \<open>P\<close> (\<open>kopt\<close>) what the initialisation and the optional calls use.  A theorem that relies on one names what it relies on
  (\<open>alloc_ok\<close>, \<open>file_ok\<close>, \<open>pt_frame\<close>, \<open>mem_ok\<close>, and so on), and its
  witness instantiates the parameter with a concrete machine (\<open>i386\<close>, \<open>demo_ext\<close>,
  \<open>demo_env\<close>).

  \<^bold>\<open>Sleeping and interrupts.\<close>  An operation that sleeps returns the state in which the next
  thread runs; what the sleeper does when it is resumed is a second operation
  (\<open>waitpid_resume\<close>, \<open>kmutex_lock_cancellable_resume\<close>, \<open>sys_waitpid_resume\<close>).
  \<open>irqs\<close> is the list of the interrupts that arrive while the processor waits, each with its level and its
  effect; an interrupt that the interrupt level masks does not arrive.

  \<^bold>\<open>Fuel.\<close>  Recursion through chains of shadow objects takes the number \<open>n\<close>; the length
  of the chain is enough, which the theorems state as a hypothesis.  The loops of
  \<^verbatim>\<open>range_perm\<close>, \<^verbatim>\<open>vmmap_read\<close> and \<^verbatim>\<open>vmmap_write\<close> get one unit
  per byte, and are proved to end with it.  Other loops are structural, or have fuel that is proved to be
  enough (\<open>sched_broadcast_on\<close>, \<open>proc_getid\<close>), or need not end
  (\<open>pframe_clean_all\<close>, \<open>pageoutd_run\<close>, the waits of the idle process), and then running
  out of fuel is the fault \<open>Never_returns\<close>.

  \<^bold>\<open>The theories.\<close>

  \<^item> \<^verbatim>\<open>Ktqueue\<close>, \<^verbatim>\<open>Sched\<close>, \<^verbatim>\<open>Kmutex\<close>:
    \<^verbatim>\<open>proc/sched.c\<close>, \<^verbatim>\<open>proc/sched_helper.c\<close>,
    \<^verbatim>\<open>proc/kmutex.c\<close>.  Queues are first-in first-out (the locale \<open>thread_queue\<close> is the
    interface that the scheduler relies on); sleeping loses no thread; broadcasting ends and wakes all in
    order; an idle processor waits with a low interrupt level and continues with the thread that an interrupt wakes; in every run of a mutex, a
    step relation, at most one thread holds it, it is handed over in order, and the thread at place n of
    the line owns it after n unlocks (the locale \<open>fifo_mutex\<close>).

  \<^item> \<^verbatim>\<open>Pframe\<close>, \<^verbatim>\<open>Mmobj\<close>, \<^verbatim>\<open>Pager\<close>, \<^verbatim>\<open>Quiet\<close>:
    \<^verbatim>\<open>mm/pframe.c\<close>, \<^verbatim>\<open>vm/anon.c\<close>, \<^verbatim>\<open>vm/shadow.c\<close>.  The
    invariant \<open>pf_inv\<close> ties the hash table, the lists and the counters of the page cache together.
    \<open>seen\<close> is the page that is visible through a chain of shadow objects; looking a page up always
    succeeds, gives exactly that page and changes no view; writing through a shadow object is invisible
    to every chain without it; dropping the last reference frees exactly the pages of an object.
    \<^verbatim>\<open>Quiet\<close> shows that no operation leaves a frame busy, so that lookups can follow each other.

  \<^item> \<^verbatim>\<open>Area_List\<close>, \<^verbatim>\<open>Vmmap\<close>, \<^verbatim>\<open>Address_Space\<close>:
    \<^verbatim>\<open>vm/vmmap.c\<close>.  An address space refines a sorted list of disjoint areas
    (\<open>mapped\<close> is the function from pages to objects that it stands for); lookup, the test for an
    empty range, the search for the highest free range, cloning, mapping and removing are proved against
    that list.

  \<^item> \<^verbatim>\<open>Mmap\<close>: \<^verbatim>\<open>vm/mmap.c\<close>, \<^verbatim>\<open>vm/brk.c\<close>,
    \<^verbatim>\<open>vm/pagefault.c\<close>.  A fault that the protection allows is resolved with the page that
    is seen, writable only in a private copy.

  \<^item> \<^verbatim>\<open>Access\<close>, \<^verbatim>\<open>User_Memory\<close>: \<^verbatim>\<open>api/access.c\<close>, and the
    loops of \<^verbatim>\<open>vmmap_read\<close> and \<^verbatim>\<open>vmmap_write\<close> over the pages of a range.
    \<open>ubyte\<close> is the memory of a process, byte by byte; copying to it changes exactly the given range,
    and only of that process as long as no other process maps an object of it; reading gives the bytes back where areas
    map their objects from the start (\<open>from_start\<close>), and other bytes elsewhere (\<open>copy_from_user_offset\<close>).
    The theorems are for memory that is anonymous or private, with one object for each area (\<open>user_space\<close>).  The locale \<open>byte_memory\<close> is the interface
    of the two copy routines, an array of bytes under any sequence of copies.

  \<^item> \<^verbatim>\<open>Proc\<close>: \<^verbatim>\<open>proc/proc.c\<close>, \<^verbatim>\<open>proc/kthread.c\<close>.
    Creating a process keeps the process tree well formed and its identifier is fresh; waiting reaps
    exactly one dead child with its thread and page directory, reports errors, or sleeps.

  \<^item> \<^verbatim>\<open>Fork\<close>, \<^verbatim>\<open>Fork_Memory\<close>, \<^verbatim>\<open>Fork_Process\<close>:
    \<^verbatim>\<open>proc/fork.c\<close>.  \<^verbatim>\<open>Fork\<close> is the model; \<^verbatim>\<open>Fork_Memory\<close> shows
    that the child gets the memory of its parent byte by byte (\<open>ubyte\<close>), that both write through shadow
    objects of their own, and that the child does not see later writes of the parent; \<^verbatim>\<open>Fork_Process\<close> puts
    process, memory, files, working directory and thread together into one theorem on
    \<^verbatim>\<open>do_fork\<close>.  Both are for address spaces with private areas only.

  \<^item> \<^verbatim>\<open>Special\<close>, \<^verbatim>\<open>Namev\<close>, \<^verbatim>\<open>Files\<close>,
    \<^verbatim>\<open>Paths\<close>: \<^verbatim>\<open>fs/vn_special.c\<close>, \<^verbatim>\<open>fs/namev.c\<close>,
    \<^verbatim>\<open>fs/open.c\<close>, \<^verbatim>\<open>fs/vfs_syscall.c\<close>.  Path resolution is the walk over the
    components and keeps the reference counts balanced; opening and closing, duplicating and closing are
    inverse; reading, writing and seeking move the position as they should; the path calls check their
    arguments before they change anything.

  \<^item> \<^verbatim>\<open>Syscall\<close>, \<^verbatim>\<open>Syscall_Results\<close>: \<^verbatim>\<open>api/syscall.c\<close>.
    The wrappers, the dispatcher and the handler of system calls.  Rules for the predicate
    \<open>honest\<close> follow the way the calls are put together, and give the type of what a program gets
    back: a result, or -1 with an error number.

  \<^item> \<^verbatim>\<open>Kmain\<close>, \<^verbatim>\<open>Options\<close>: \<^verbatim>\<open>main/kmain.c\<close>, the
    initialisation functions, and the calls that are compiled with the options for mounting, for the name
    of the working directory and for several threads in a process, as far as the source has them.

  \<^item> \<^verbatim>\<open>Info\<close>: the reports \<^verbatim>\<open>proc_info\<close>,
    \<^verbatim>\<open>proc_list_info\<close> and \<^verbatim>\<open>vmmap_mapping_info\<close>, and for the last of them
    when its writes stay inside the buffer.

  \<^bold>\<open>Findings.\<close>  Where the code does not do what it means to, the model does what the code does.
  Examples that a theorem or lemma shows: a cancelled waiter of a mutex fails an assertion
  (\<open>kmutex_cancelled_waiter_panics\<close>); \<open>ktqueue_contains\<close> looks at the head only;
  running out of frames or of process identifiers is not noticed; a path whose last component occurs
  earlier as well is resolved wrongly; \<open>range_perm\<close> ignores the protection, and misses the last
  page of a range that is not aligned (\<open>copy_from_user_unaligned\<close>); the report on an address space
  that does not fit its buffer ends with a null character written behind it
  (\<open>vmmap_mapping_info_bounds\<close>); files that are open for appending only can be read, and files that
  are open for reading and appending can be written (\<open>do_read_append_only\<close>,
  \<open>do_write_read_only\<close>); a mapping with an offset is read at other pages than it is written
  (\<open>copy_from_user_offset\<close>); a device special file without a device is opened
  like any other file.

  \<^bold>\<open>Not modelled.\<close>  Every function of the repository has a definition except
  \<^verbatim>\<open>free_stack\<close> and \<^verbatim>\<open>free_vector\<close>, which only give memory back: the kernel heap
  and the free pages are not part of the state, an allocator is a function that yields an unused address,
  and freeing a structure that has a map is its removal from that map.  Debugging output, the counters
  \<^verbatim>\<open>anon_count\<close> and \<^verbatim>\<open>shadow_count\<close>, which nothing changes, and the translation
  look-aside buffer are left out, and \<^verbatim>\<open>proc_list\<close> is the field of that name.  The processor's switch of stacks is modelled by its effect on the
  current thread.  The name of a process is a string without the bound of the array
  \<^verbatim>\<open>p_comm\<close>, whose size the sources do not give.  A page that is busy is a fault
  (\<open>Must_sleep\<close>) instead of a sleep and a second try; \<^verbatim>\<open>Quiet\<close> shows that no frame is left busy.  \<^verbatim>\<open>kmain\<close>, the device drivers, the file systems and the kernel shell are not in
  the repository.
\<close>

end
